(* ===== verification/Taotu_Prelude.thy ===== *)
theory Taotu_Prelude
  imports Errno "HOL-Library.Word"
begin

text \<open>
  Shared vocabulary of the development.

  \<^item> \<open>cpp_error\<close> and \<open>'a res\<close>: the ways a C++ operation can fail to return, and the result
    type of an operation that may. \<open>OutOfBounds\<close> stands for an access outside the
    bounds of an object (undefined behaviour in C++), \<open>LengthError\<close> for the exception of a
    \<open>std::vector\<close> that would pass its \<open>max_size()\<close>.
  \<^item> \<open>size_add\<close>, \<open>size_sub\<close>: arithmetic on \<open>size_t\<close> (64 bits, wrapping).
  \<^item> \<open>mem_read\<close>, \<open>mem_write\<close>: \<open>memcpy\<close>/\<open>memmove\<close> out of and into a block of bytes, with the
    bounds of the block checked.
  \<^item> \<open>be_bytes\<close>, \<open>be_word\<close>, \<open>host_image\<close>, \<open>htobe\<close>: integers and their memory images, on a
    host of either byte order.
  \<^item> \<open>memchr\<close>, \<open>memmem\<close>: the searches of \<^verbatim>\<open><string.h>\<close>.
  \<^item> \<open>trunc_div\<close>, \<open>to_int32\<close>: integer division and narrowing as C++ has them.
\<close>

named_theorems size_simps \<open>size_t arithmetic without wrap-around\<close>
named_theorems mem_simps \<open>bounded reads and writes\<close>
named_theorems image_simps \<open>memory images of integers\<close>


section \<open>Results\<close>

datatype cpp_error =
    OutOfBounds \<comment> \<open>access outside an object: undefined behaviour\<close>
  | LengthError \<comment> \<open>\<open>std::length_error\<close> thrown by a vector\<close>
  | BadFunctionCall \<comment> \<open>\<open>std::bad_function_call\<close>: an empty \<open>std::function\<close> was called\<close>
  | UseAfterFree \<comment> \<open>access through a pointer to an object that was deleted: undefined behaviour\<close>
  | DoubleFree \<comment> \<open>\<open>delete\<close> of an object that was deleted before: undefined behaviour\<close>
  | NullPointer \<comment> \<open>access through a null pointer: undefined behaviour\<close>
  | SignedOverflow \<comment> \<open>a signed integer passes the bounds of its type: undefined behaviour\<close>
  | BadAnyCast \<comment> \<open>\<open>std::bad_any_cast\<close>: an \<open>any\<close> does not hold what is asked of it\<close>

type_synonym 'a res = "cpp_error + 'a"

fun res_bind :: "'a res \<Rightarrow> ('a \<Rightarrow> 'b res) \<Rightarrow> 'b res" where
  "res_bind (Inl e) f = Inl e"
| "res_bind (Inr x) f = f x"

lemma res_bind_Inr_iff:
  "res_bind m f = Inr y \<longleftrightarrow> (\<exists>x. m = Inr x \<and> f x = Inr y)"
  by (cases m) auto

lemma res_bind_Inl_iff:
  "res_bind m f = Inl e \<longleftrightarrow> m = Inl e \<or> (\<exists>x. m = Inr x \<and> f x = Inl e)"
  by (cases m) auto

lemma res_bind_cong [fundef_cong]:
  "m = m' \<Longrightarrow> (\<And>x. m' = Inr x \<Longrightarrow> f x = f' x) \<Longrightarrow> res_bind m f = res_bind m' f'"
  by (cases m') auto

lemma res_bind_assoc: "res_bind (res_bind m f) g = res_bind m (\<lambda>x. res_bind (f x) g)"
  by (cases m) auto


section \<open>\<open>size_t\<close>\<close>

definition size_add :: "nat \<Rightarrow> nat \<Rightarrow> nat" where
  "size_add a b = (a + b) mod 2 ^ 64"

definition size_sub :: "nat \<Rightarrow> nat \<Rightarrow> nat" where
  "size_sub a b = (a + (2 ^ 64 - b mod 2 ^ 64)) mod 2 ^ 64"

text \<open>The largest \<open>std::vector<char>\<close>: \<open>max_size()\<close> is \<open>PTRDIFF_MAX\<close>.\<close>

definition vector_max_size :: nat where
  "vector_max_size = 2 ^ 63 - 1"

lemma size_add_small: "a + b < 2 ^ 64 \<Longrightarrow> size_add a b = a + b"
  by (simp add: size_add_def)

lemma int_mod_sub: "0 < m \<Longrightarrow> int ((a + (m - b mod m)) mod m) = (int a - int b) mod int m"
proof -
  assume "0 < m"
  then have "b mod m \<le> m" by (simp add: less_imp_le)
  then have e: "int (a + (m - b mod m)) = (int a - int b mod int m) + int m"
    by (simp add: of_nat_diff zmod_int)
  have "int ((a + (m - b mod m)) mod m) = int (a + (m - b mod m)) mod int m" by (rule zmod_int)
  also have "\<dots> = (int a - int b mod int m) mod int m" unfolding e by (rule mod_add_self2)
  also have "\<dots> = (int a - int b) mod int m" by (rule mod_diff_right_eq)
  finally show ?thesis .
qed

lemma int_size_sub: "int (size_sub a b) = (int a - int b) mod int (2 ^ 64)"
  unfolding size_sub_def by (rule int_mod_sub) simp

lemma int_size_add: "int (size_add a b) = (int a + int b) mod int (2 ^ 64)"
  unfolding size_add_def by (simp only: zmod_int of_nat_add)

lemma size_sub_bound: "int (size_sub a b) < int (2 ^ 64)"
  unfolding int_size_sub by (rule pos_mod_bound) simp

lemma sub_mod_ge:
  assumes "b \<le> a" and "a < m"
  shows "(a + (m - b mod m)) mod m = a - (b::nat)"
proof -
  have "a + (m - b mod m) = (a - b) + m" using assms by simp
  then have "(a + (m - b mod m)) mod m = (a - b) mod m" by (simp only: mod_add_self2)
  then show ?thesis using assms by simp
qed

lemma sub_mod_less: "a < b \<Longrightarrow> b < m \<Longrightarrow> (a + (m - b mod m)) mod m = m - (b - (a::nat))"
  by (simp add: mod_less)

lemma size_sub_small: "b \<le> a \<Longrightarrow> a < 2 ^ 64 \<Longrightarrow> size_sub a b = a - b"
  unfolding size_sub_def by (rule sub_mod_ge)

lemma size_sub_wrap: "a < b \<Longrightarrow> b < 2 ^ 64 \<Longrightarrow> size_sub a b = 2 ^ 64 - (b - a)"
  unfolding size_sub_def by (rule sub_mod_less)

text \<open>Taking \<open>n < a - b\<close> more away, whatever the operands: unsigned arithmetic is modular.\<close>

lemma size_sub_add:
  assumes "n \<le> size_sub a b"
  shows "size_sub a (size_add b n) = size_sub a b - n"
proof -
  let ?m = "int (2 ^ 64)"
  have "int (size_sub a (size_add b n)) = (int a - (int b + int n) mod ?m) mod ?m"
    by (simp only: int_size_sub int_size_add)
  also have "\<dots> = ((int a - int b) mod ?m - int n) mod ?m"
    by (simp only: mod_diff_left_eq mod_diff_right_eq diff_diff_eq)
  also have "\<dots> = (int (size_sub a b) - int n) mod ?m" by (simp only: int_size_sub)
  also have "\<dots> = int (size_sub a b) - int n"
    using assms size_sub_bound [of a b] by (intro mod_pos_pos_trivial) linarith+
  finally show ?thesis using assms by linarith
qed

lemma size_le_max: "n \<le> vector_max_size \<Longrightarrow> n < 2 ^ 64"
  by (simp add: vector_max_size_def)

text \<open>Sizes of objects stay below \<open>max_size()\<close>, where \<open>size_t\<close> arithmetic is exact.\<close>

lemma size_add_max [size_simps]: "a + b \<le> vector_max_size \<Longrightarrow> size_add a b = a + b"
  by (rule size_add_small) (rule size_le_max)

lemma size_sub_max [size_simps]: "b \<le> a \<Longrightarrow> a \<le> vector_max_size \<Longrightarrow> size_sub a b = a - b"
  by (rule size_sub_small, assumption, rule size_le_max)


section \<open>Blocks of bytes\<close>

type_synonym byte = "8 word"

definition mem_read :: "nat \<Rightarrow> nat \<Rightarrow> byte list \<Rightarrow> byte list res" where
  "mem_read off len mem =
     (if off + len \<le> length mem then Inr (take len (drop off mem)) else Inl OutOfBounds)"

definition mem_write :: "nat \<Rightarrow> byte list \<Rightarrow> byte list \<Rightarrow> byte list res" where
  "mem_write off src mem =
     (if off + length src \<le> length mem
      then Inr (take off mem @ src @ drop (off + length src) mem) else Inl OutOfBounds)"

lemma mem_read_in [mem_simps]:
  "off + len \<le> length mem \<Longrightarrow> mem_read off len mem = Inr (take len (drop off mem))"
  by (simp add: mem_read_def)

lemma mem_read_out [mem_simps]:
  "length mem < off + len \<Longrightarrow> mem_read off len mem = Inl OutOfBounds"
  by (simp add: mem_read_def)

lemma mem_write_in [mem_simps]:
  "off + length src \<le> length mem \<Longrightarrow>
   mem_write off src mem = Inr (take off mem @ src @ drop (off + length src) mem)"
  by (simp add: mem_write_def)

lemma mem_write_out [mem_simps]:
  "length mem < off + length src \<Longrightarrow> mem_write off src mem = Inl OutOfBounds"
  by (simp add: mem_write_def)

lemma mem_write_length: "mem_write off src mem = Inr mem' \<Longrightarrow> length mem' = length mem"
  by (auto simp: mem_write_def split: if_splits)

text \<open>What was written is read back, and the bytes before it are kept.\<close>

lemma mem_write_read:
  "mem_write off src mem = Inr mem' \<Longrightarrow> mem_read off (length src) mem' = Inr src"
  by (auto simp: mem_write_def mem_read_def split: if_splits)

lemma take_write:
  "n \<le> off \<Longrightarrow> off \<le> length mem \<Longrightarrow> take n (take off mem @ src @ rest) = take n mem"
  by (simp add: min_def)


section \<open>Searches\<close>

fun memchr :: "byte \<Rightarrow> byte list \<Rightarrow> nat option" where
  "memchr c [] = None"
| "memchr c (x # xs) = (if x = c then Some 0 else map_option Suc (memchr c xs))"

fun memmem :: "byte list \<Rightarrow> byte list \<Rightarrow> nat option" where
  "memmem needle [] = (if needle = [] then Some 0 else None)"
| "memmem needle (x # xs) =
     (if take (length needle) (x # xs) = needle then Some 0
      else map_option Suc (memmem needle xs))"

lemma memchr_Some:
  "memchr c xs = Some i \<Longrightarrow> i < length xs \<and> xs ! i = c \<and> c \<notin> set (take i xs)"
  by (induction xs arbitrary: i) (auto split: if_splits)

lemma memchr_None: "memchr c xs = None \<longleftrightarrow> c \<notin> set xs"
  by (induction xs) auto

lemma memmem_Some:
  "memmem nd xs = Some i \<Longrightarrow>
   i + length nd \<le> length xs \<and> take (length nd) (drop i xs) = nd \<and>
   (\<forall>j < i. take (length nd) (drop j xs) \<noteq> nd)"
proof (induction xs arbitrary: i)
  case Nil
  then show ?case by (auto split: if_splits)
next
  case (Cons x xs)
  show ?case
  proof (cases "take (length nd) (x # xs) = nd")
    case True
    then have "length nd = min (Suc (length xs)) (length nd)"
      by (metis length_Cons length_take min.commute)
    with True Cons.prems show ?thesis by simp
  next
    case False
    then obtain k where k: "memmem nd xs = Some k" "i = Suc k" using Cons.prems by auto
    have "take (length nd) (drop j (x # xs)) \<noteq> nd" if "j < i" for j
      using that False Cons.IH [OF k(1)] k(2) by (cases j) auto
    with Cons.IH [OF k(1)] k(2) show ?thesis by auto
  qed
qed

lemma memmem_None:
  "memmem nd xs = None \<Longrightarrow> take (length nd) (drop j xs) \<noteq> nd"
proof (induction xs arbitrary: j)
  case Nil
  then show ?case by (auto split: if_splits)
next
  case (Cons x xs)
  then show ?case by (cases j) (auto split: if_splits)
qed


section \<open>Integers in memory\<close>

fun be_bytes :: "nat \<Rightarrow> 'a::len word \<Rightarrow> byte list" where
  "be_bytes 0 x = []"
| "be_bytes (Suc n) x = be_bytes n (drop_bit 8 x) @ [ucast x]"

definition be_nat :: "byte list \<Rightarrow> nat" where
  "be_nat bs = foldl (\<lambda>a b. a * 256 + unat b) 0 bs"

definition be_word :: "byte list \<Rightarrow> 'a::len word" where
  "be_word bs = word_of_nat (be_nat bs)"

text \<open>
  \<open>host_image le n x\<close> is the memory of an \<open>n\<close>-byte integer object on a host that is
  little-endian when \<open>le\<close>; \<open>of_host_image\<close> reads such an object; \<open>htobe\<close> is
  \<open>htobe16/32/64\<close> (and \<open>be16toh/...\<close>, the same function).
\<close>

definition host_image :: "bool \<Rightarrow> nat \<Rightarrow> 'a::len word \<Rightarrow> byte list" where
  "host_image le n x = (if le then rev (be_bytes n x) else be_bytes n x)"

definition of_host_image :: "bool \<Rightarrow> byte list \<Rightarrow> 'a::len word" where
  "of_host_image le bs = be_word (if le then rev bs else bs)"

definition htobe :: "bool \<Rightarrow> nat \<Rightarrow> 'a::len word \<Rightarrow> 'a word" where
  "htobe le n x = (if le then be_word (rev (be_bytes n x)) else x)"

lemma length_be_bytes [simp, image_simps]: "length (be_bytes n x) = n"
  by (induction n arbitrary: x) auto

lemma length_host_image [simp, image_simps]: "length (host_image le n x) = n"
  by (simp add: host_image_def)

lemma be_nat_Nil [simp]: "be_nat [] = 0"
  by (simp add: be_nat_def)

lemma be_nat_snoc: "be_nat (bs @ [b]) = be_nat bs * 256 + unat b"
  by (simp add: be_nat_def)

lemma unat_less_2p: "unat (x :: 'a::len word) < 2 ^ LENGTH('a)"
  by (fact unsigned_less)

lemma be_nat_bound: "be_nat bs < 256 ^ length bs"
proof (induction bs rule: rev_induct)
  case Nil
  then show ?case by simp
next
  case (snoc b bs)
  have "unat b < 256" using unat_less_2p [of b] by simp
  moreover have "Suc (be_nat bs) * 256 \<le> 256 ^ length bs * 256"
    using snoc by (intro mult_le_mono1) simp
  ultimately show ?case by (simp add: be_nat_snoc)
qed

lemma unat_drop_bit_8: "unat (drop_bit 8 x) = unat x div 256"
  by (simp only: unat_drop_bit_eq) (simp add: drop_bit_eq_div)

lemma unat_ucast_byte: "unat (ucast x :: byte) = unat x mod 256"
  by (simp add: unsigned_ucast_eq take_bit_eq_mod)

lemma be_nat_be_bytes: "be_nat (be_bytes n x) = unat x mod 256 ^ n"
proof (induction n arbitrary: x)
  case 0
  then show ?case by simp
next
  case (Suc n)
  have "be_nat (be_bytes (Suc n) x) = (unat x div 256 mod 256 ^ n) * 256 + unat x mod 256"
    by (simp add: be_nat_snoc Suc.IH unat_drop_bit_8 unat_ucast_byte)
  then show ?case by (simp add: mod_mult2_eq)
qed

lemma be_word_be_bytes [image_simps]:
  fixes x :: "'a::len word"
  assumes "LENGTH('a) = 8 * n"
  shows "be_word (be_bytes n x) = x"
proof -
  have "(256::nat) ^ n = 2 ^ LENGTH('a)"
    using assms by (simp add: power_mult)
  then have "be_nat (be_bytes n x) = unat x"
    using unat_less_2p [of x] by (simp add: be_nat_be_bytes)
  then show ?thesis by (simp add: be_word_def)
qed

lemma digits_unique:
  fixes x :: nat
  assumes eq: "x * d + a = y * d + b" and "a < d" and "b < d"
  shows "x = y \<and> a = b"
proof -
  have "(x * d + a) div d = x" "(y * d + b) div d = y" using assms(2,3) by auto
  with eq have "x = y" by simp
  with eq show ?thesis by simp
qed

lemma be_bytes_inj:
  "length as = length bs \<Longrightarrow> be_nat as = be_nat bs \<Longrightarrow> as = bs"
proof (induction as arbitrary: bs rule: rev_induct)
  case Nil
  then show ?case by simp
next
  case (snoc a as)
  then obtain bs' b where bs: "bs = bs' @ [b]" by (cases bs rule: rev_cases) auto
  have less: "unat a < 256" "unat b < 256" using unat_less_2p [of a] unat_less_2p [of b] by auto
  have "be_nat as * 256 + unat a = be_nat bs' * 256 + unat b"
    using snoc.prems(2) by (simp add: bs be_nat_snoc)
  from digits_unique [OF this less] have "be_nat as = be_nat bs' \<and> unat a = unat b" .
  then show ?case using snoc.IH [of bs'] snoc.prems(1) bs by (simp add: word_unat_eq_iff)
qed

lemma be_bytes_be_word [image_simps]:
  assumes "LENGTH('a::len) = 8 * n" and "length bs = n"
  shows "be_bytes n (be_word bs :: 'a word) = bs"
proof (rule be_bytes_inj)
  show "length (be_bytes n (be_word bs :: 'a word)) = length bs" using assms(2) by simp
  have "(256::nat) ^ n = 2 ^ LENGTH('a)" using assms by (simp add: power_mult)
  then have "be_nat bs < 2 ^ LENGTH('a)" using be_nat_bound [of bs] assms(2) by simp
  then have "unat (be_word bs :: 'a word) = be_nat bs"
    by (simp add: be_word_def unat_of_nat)
  then show "be_nat (be_bytes n (be_word bs :: 'a word)) = be_nat bs"
    using be_nat_bound [of bs] assms(2) by (simp add: be_nat_be_bytes)
qed

text \<open>
  On a host of either byte order, \<open>htobe\<close> followed by a copy of the object gives the
  big-endian bytes, and a copy into an object followed by \<open>htobe\<close> reads them.
\<close>

lemma host_image_htobe [image_simps]:
  fixes x :: "'a::len word"
  assumes "LENGTH('a) = 8 * n"
  shows "host_image le n (htobe le n x) = be_bytes n x"
  using assms by (simp add: host_image_def htobe_def be_bytes_be_word)

lemma htobe_of_host_image [image_simps]:
  assumes "LENGTH('a::len) = 8 * n" and "length bs = n"
  shows "htobe le n (of_host_image le bs :: 'a word) = be_word bs"
  using assms by (simp add: of_host_image_def htobe_def be_bytes_be_word)


section \<open>Signed integers\<close>

text \<open>C++ division truncates towards zero; \<open>static_cast<int>\<close> of a wider value wraps.\<close>

definition trunc_div :: "int \<Rightarrow> int \<Rightarrow> int" where
  "trunc_div a b = sgn a * sgn b * (\<bar>a\<bar> div \<bar>b\<bar>)"

definition to_int32 :: "int \<Rightarrow> int" where
  "to_int32 x = sint (word_of_int x :: 32 word)"

lemma trunc_div_nonneg: "0 \<le> a \<Longrightarrow> 0 < b \<Longrightarrow> trunc_div a b = a div b"
  by (cases "a = 0") (simp_all add: trunc_div_def)

lemma trunc_div_mono:
  assumes "a \<le> b" and "0 < c"
  shows "trunc_div a c \<le> trunc_div b c"
proof (cases "0 \<le> a")
  case True
  then show ?thesis using assms by (simp add: trunc_div_nonneg zdiv_mono1)
next
  case False
  show ?thesis
  proof (cases "0 \<le> b")
    case True
    have "0 \<le> \<bar>a\<bar> div c" using assms(2) by (simp add: pos_imp_zdiv_nonneg_iff)
    moreover have "0 \<le> b div c" using True assms(2) by (simp add: pos_imp_zdiv_nonneg_iff)
    ultimately show ?thesis
      using True False assms by (simp add: trunc_div_nonneg trunc_div_def [of a c])
  next
    case b: False
    have "\<bar>b\<bar> div c \<le> \<bar>a\<bar> div c" using assms False b by (intro zdiv_mono1) auto
    then show ?thesis using False b assms by (simp add: trunc_div_def)
  qed
qed

lemma to_int32_small: "- (2 ^ 31) \<le> x \<Longrightarrow> x < 2 ^ 31 \<Longrightarrow> to_int32 x = x"
  by (simp add: to_int32_def sint_sbintrunc' signed_take_bit_int_eq_self)

lemma to_int32_wrap:
  assumes "2 ^ 31 \<le> x" and "x < 2 ^ 32"
  shows "to_int32 x = x - 2 ^ 32"
proof -
  have "(word_of_int (x - 2 ^ 32) :: 32 word) = word_of_int x"
    by (rule word_of_int_eq_iff [THEN iffD2]) (simp add: take_bit_eq_mod mod_diff_right_eq [symmetric, of x "2 ^ 32"])
  then have "to_int32 x = to_int32 (x - 2 ^ 32)" by (simp only: to_int32_def)
  also have "\<dots> = x - 2 ^ 32" using assms by (intro to_int32_small) auto
  finally show ?thesis .
qed

section \<open>Tables of references\<close>

lemma ran_del: "inj_on m (dom m) \<Longrightarrow> ran (m(k := None)) = ran m - set_option (m k)"
  by (auto simp: ran_def inj_on_def split: if_splits) (metis domI)+

lemma inj_on_del: "inj_on m (dom m) \<Longrightarrow> inj_on (m(k := None)) (dom (m(k := None)))"
  by (auto simp: inj_on_def)

lemma inj_on_new: "inj_on m (dom m) \<Longrightarrow> a \<notin> ran m \<Longrightarrow> inj_on (m(k \<mapsto> a)) (dom (m(k \<mapsto> a)))"
  by (auto simp: inj_on_def ran_def)


section \<open>Decimal numbers\<close>

text \<open>What \<open>printf\<close> writes for an unsigned number.\<close>

fun show_nat :: "nat \<Rightarrow> string" where
  "show_nat n = (if n < 10 then [char_of (48 + n)] else show_nat (n div 10) @ [char_of (48 + n mod 10)])"

declare show_nat.simps [simp del]

end
