(* ===== verification/Io_Poller.thy ===== *)
theory Io_Poller
  imports Taotu_Prelude "HOL-Library.Char_ord"
begin

text \<open>
  The poller (\<^verbatim>\<open>src/src/poller.h\<close>, \<^verbatim>\<open>src/src/poller.cc\<close>): the operations that user code has given to the
  kernel through io_uring, the events each eventer waits for, and the dispatch of completions.

  An eventer is its address (\<open>evt\<close>); its descriptor is constant and given by \<open>Fd\<close> of the
  environment, its event mask is an argument. A context (\<open>'x\<close>) and a completion function
  (\<open>'f\<close>) are opaque pointers. liburing and the kernel are arguments: whether the next
  \<open>io_uring_get_sqe\<close> gives an entry and what the next \<open>io_uring_submit\<close> returns are
  functions of the number of calls made so far, completions are inputs. The entries handed to
  the ring are logged: \<open>prepared\<close> ones, and \<open>submitted\<close> ones.

  A completion callback runs in the middle of \<open>HandleCqe\<close> and may call the poller; it is the
  argument \<open>complete\<close>.
\<close>

unbundle bit_operations_syntax

section \<open>State\<close>

type_synonym evt = nat

datatype OpType = kPoll | kRead | kWrite | kAccept | kTimeout | kNone

record ('x, 'f) IoUringOp =
  op_type :: OpType
  op_eventer :: "evt option"
  op_context :: "'x option"
  op_fd :: int
  op_completion :: "'f option"
  op_key :: "64 word"
  op_deleter :: bool

record EventerState =
  mask :: "32 word"
  armed :: bool
  poll_key :: "64 word"

datatype sqe =
    PollAdd int "32 word" "64 word"
  | PollRemove "64 word"
  | Readv int "64 word"
  | RecvMultishot int int "64 word"
  | Writev int "64 word"
  | Accept int bool "64 word"
  | AsyncCancel "64 word"
  | ProvideBuffers nat nat
  | RemoveBuffers

record cqe =
  user_data :: "64 word"
  cqe_res :: int
  cqe_flags :: "32 word"

text \<open>
  The environment: the ring's answers, the two compile-time switches
  (\<^verbatim>\<open>IORING_OP_RECV_MULTISHOT\<close>, \<^verbatim>\<open>IORING_ACCEPT_MULTISHOT\<close>) and the descriptors.
\<close>

record uring_env =
  get_sqe :: "nat \<Rightarrow> bool"
  submit :: "nat \<Rightarrow> int"
  recv_multishot :: bool
  accept_multishot :: bool
  Fd :: "evt \<Rightarrow> int"

record ('x, 'f) poller =
  states :: "evt \<rightharpoonup> EventerState"
  ops :: "64 word \<rightharpoonup> ('x, 'f) IoUringOp"
  next_key :: "64 word"
  use_sqpoll :: bool
  use_multishot_accept :: bool
  buffers_registered :: bool
  cqe_batch_limit :: nat
  cqe_time_budget_us :: int
  prepared :: "sqe list"
  submitted :: "sqe list"
  sqe_calls :: nat
  submit_calls :: nat
  deleted :: "'x list"

definition kBufferGroupId :: int where
  "kBufferGroupId = 1"

definition kBufCount :: nat where
  "kBufCount = 64"

definition F_BUFFER :: "32 word" where
  "F_BUFFER = 1"

definition F_MORE :: "32 word" where
  "F_MORE = 2"

definition cqe_more :: "cqe \<Rightarrow> bool" where
  "cqe_more c \<longleftrightarrow> cqe_flags c AND F_MORE \<noteq> 0"

definition cqe_has_buffer :: "cqe \<Rightarrow> bool" where
  "cqe_has_buffer c \<longleftrightarrow> cqe_flags c AND F_BUFFER \<noteq> 0"

definition cqe_buffer_id :: "cqe \<Rightarrow> nat" where
  "cqe_buffer_id c = unat (ucast (drop_bit 16 (cqe_flags c)) :: 16 word)"

section \<open>The ring\<close>

definition io_uring_get_sqe :: "uring_env \<Rightarrow> ('x, 'f) poller \<Rightarrow> bool \<times> ('x, 'f) poller" where
  "io_uring_get_sqe env p = (get_sqe env (sqe_calls p), p\<lparr>sqe_calls := sqe_calls p + 1\<rparr>)"

definition prep :: "sqe \<Rightarrow> ('x, 'f) poller \<Rightarrow> ('x, 'f) poller" where
  "prep s p = p\<lparr>prepared := prepared p @ [s]\<rparr>"

definition SubmitPending :: "uring_env \<Rightarrow> ('x, 'f) poller \<Rightarrow> ('x, 'f) poller" where
  "SubmitPending env p =
     (let ret = submit env (submit_calls p); p1 = p\<lparr>submit_calls := submit_calls p + 1\<rparr>
      in if ret < 0 then p1
         else p1\<lparr>submitted := submitted p1 @ prepared p1, prepared := []\<rparr>)"

section \<open>Set-up\<close>

definition kDefaultEntries :: nat where
  "kDefaultEntries = 32768"

definition kMinEntries :: nat where
  "kMinEntries = 1024"

text \<open>\<open>strtoull\<close> in base 10: the value and whether any digit was read.\<close>

definition c_isspace :: "char \<Rightarrow> bool" where
  "c_isspace c \<longleftrightarrow> of_char c = (32 :: nat) \<or> (9 \<le> (of_char c :: nat) \<and> of_char c \<le> (13 :: nat))"

definition c_isdigit :: "char \<Rightarrow> bool" where
  "c_isdigit c \<longleftrightarrow> 48 \<le> (of_char c :: nat) \<and> of_char c \<le> (57 :: nat)"

definition strtoull :: "string \<Rightarrow> nat \<times> bool" where
  "strtoull s =
     (let s1 = dropWhile c_isspace s;
          neg = (s1 \<noteq> [] \<and> hd s1 = CHR ''-'');
          s2 = (if s1 \<noteq> [] \<and> (hd s1 = CHR ''-'' \<or> hd s1 = CHR ''+'') then tl s1 else s1);
          ds = takeWhile c_isdigit s2;
          v = foldl (\<lambda>a c. a * 10 + (of_char c - 48)) 0 ds
      in if ds = [] then (0, False)
         else if 2 ^ 64 \<le> v then (2 ^ 64 - 1, True)
         else (if neg then (2 ^ 64 - v) mod 2 ^ 64 else v, True))"

definition GetIoUringEntries :: "string option \<Rightarrow> nat" where
  "GetIoUringEntries var =
     (case var of
        None \<Rightarrow> kDefaultEntries
      | Some s \<Rightarrow>
          if s = [] then kDefaultEntries
          else case strtoull s of (val, read) \<Rightarrow>
            if \<not> read \<or> val = 0 then kDefaultEntries
            else if kDefaultEntries < val then kDefaultEntries
            else if val < kMinEntries then kMinEntries
            else val)"

text \<open>The loop around \<open>io_uring_queue_init_params\<close>: the last result and the entries tried.\<close>

function init_loop :: "(nat \<Rightarrow> int) \<Rightarrow> nat \<Rightarrow> int \<Rightarrow> int" where
  "init_loop queue_init entries ret =
     (if kMinEntries \<le> entries
      then let ret' = queue_init entries
           in if ret' = - ENOMEM \<and> kMinEntries < entries
              then init_loop queue_init (entries div 2) ret'
              else ret'
      else ret)"
  by pat_completeness auto
termination
  by (relation "measure (\<lambda>(_, entries, _). entries)") (auto simp: kMinEntries_def)

declare init_loop.simps [simp del]

definition empty_poller :: "('x, 'f) poller" where
  "empty_poller =
     \<lparr>states = Map.empty, ops = Map.empty, next_key = 1, use_sqpoll = False,
      use_multishot_accept = True, buffers_registered = False, cqe_batch_limit = 1024,
      cqe_time_budget_us = 1000, prepared = [], submitted = [], sqe_calls = 0, submit_calls = 0,
      deleted = []\<rparr>"

text \<open>\<open>RegisterBuffers\<close>: the third argument is the result of waiting for the completion.\<close>

definition RegisterBuffers :: "uring_env \<Rightarrow> int \<times> int \<Rightarrow> ('x, 'f) poller \<Rightarrow> ('x, 'f) poller" where
  "RegisterBuffers env waited p =
     (if \<not> recv_multishot env then p
      else case io_uring_get_sqe env p of (got, p1) \<Rightarrow>
        if \<not> got then p1
        else
          let p2 = prep (ProvideBuffers kBufCount 0) p1;
              ret = submit env (submit_calls p2);
              p3 = SubmitPending env p2
          in if ret < 0 then p3
             else case waited of (ret, res) \<Rightarrow>
               if ret = 0 \<and> 0 \<le> res then p3\<lparr>buffers_registered := True\<rparr> else p3)"

definition UnregisterBuffers :: "uring_env \<Rightarrow> ('x, 'f) poller \<Rightarrow> ('x, 'f) poller" where
  "UnregisterBuffers env p =
     (if \<not> recv_multishot env \<or> \<not> buffers_registered p then p
      else case io_uring_get_sqe env p of (got, p1) \<Rightarrow>
        if \<not> got then p1
        else (SubmitPending env (prep RemoveBuffers p1))\<lparr>buffers_registered := False\<rparr>)"

text \<open>
  The constructor: \<open>queue_init sqpoll entries\<close> is the result of setting the ring up, and
  \<open>accept_supported\<close> what the probe says (\<open>None\<close>: no probe). \<open>None\<close> is \<open>exit(EXIT_FAILURE)\<close>.
\<close>

definition Poller ::
  "uring_env \<Rightarrow> string option \<Rightarrow> (bool \<Rightarrow> nat \<Rightarrow> int) \<Rightarrow> bool option \<Rightarrow> int \<times> int \<Rightarrow>
   ('x, 'f) poller option" where
  "Poller env var queue_init accept_supported waited =
     (let entries = GetIoUringEntries var;
          ret = init_loop (queue_init True) entries (- ENOMEM);
          refused = (ret = - EPERM \<or> ret = - EINVAL);
          ret' = (if refused then init_loop (queue_init False) entries (- ENOMEM) else ret)
      in if ret' < 0 then None
         else
           let p = empty_poller\<lparr>use_sqpoll := \<not> refused,
                     use_multishot_accept := (accept_supported \<noteq> Some False)\<rparr>
           in Some (RegisterBuffers env waited p))"

section \<open>Keys and operations\<close>

definition NormalizeKey :: "64 word \<Rightarrow> ('x, 'f) poller \<Rightarrow> 64 word \<times> ('x, 'f) poller" where
  "NormalizeKey key p =
     (if key = 0 then
        let k = next_key p; p1 = p\<lparr>next_key := k + 1\<rparr>
        in if k = 0 then (next_key p1, p1\<lparr>next_key := next_key p1 + 1\<rparr>) else (k, p1)
      else (key, p))"

definition LookupOp ::
  "64 word \<Rightarrow> ('x, 'f) poller \<Rightarrow> ('x, 'f) IoUringOp option \<times> ('x, 'f) poller" where
  "LookupOp key p =
     (if key = 0 then (None, p)
      else case ops p key of
        None \<Rightarrow> (None, p)
      | Some op \<Rightarrow> (Some op, p\<lparr>ops := (ops p)(key := None)\<rparr>))"

definition CleanupOpContext ::
  "('x, 'f) IoUringOp \<Rightarrow> ('x, 'f) poller \<Rightarrow> ('x, 'f) IoUringOp \<times> ('x, 'f) poller" where
  "CleanupOpContext op p =
     (case op_context op of
        None \<Rightarrow> (op, p)
      | Some c \<Rightarrow>
          if op_deleter op then (op\<lparr>op_context := None\<rparr>, p\<lparr>deleted := deleted p @ [c]\<rparr>)
          else (op, p))"

text \<open>
  What the four \<open>Submit\<close> functions share: a key, an entry of the ring, the record of the
  operation, and the submission. The result is the key, 0 when the ring is full.
\<close>

definition submit_op ::
  "uring_env \<Rightarrow> (64 word \<Rightarrow> ('x, 'f) IoUringOp) \<Rightarrow> (64 word \<Rightarrow> sqe) \<Rightarrow> 64 word \<Rightarrow>
   ('x, 'f) poller \<Rightarrow> 64 word \<times> ('x, 'f) poller" where
  "submit_op env mk_op mk_sqe key p =
     (case NormalizeKey key p of (k, p1) \<Rightarrow>
        case io_uring_get_sqe env p1 of (got, p2) \<Rightarrow>
          if \<not> got then (0, p2)
          else (k, SubmitPending env (prep (mk_sqe k) (p2\<lparr>ops := (ops p2)(k \<mapsto> mk_op k)\<rparr>))))"

definition mk_op ::
  "OpType \<Rightarrow> evt option \<Rightarrow> 'x option \<Rightarrow> int \<Rightarrow> 'f option \<Rightarrow> bool \<Rightarrow> 64 word \<Rightarrow> ('x, 'f) IoUringOp" where
  "mk_op t e ctx fd fn del k =
     \<lparr>op_type = t, op_eventer = e, op_context = ctx, op_fd = fd, op_completion = fn,
      op_key = k, op_deleter = del\<rparr>"

definition SubmitRead ::
  "uring_env \<Rightarrow> evt \<Rightarrow> 'f option \<Rightarrow> 'x option \<Rightarrow> 64 word \<Rightarrow> bool \<Rightarrow>
   ('x, 'f) poller \<Rightarrow> 64 word \<times> ('x, 'f) poller" where
  "SubmitRead env e completion ctx key del p =
     submit_op env (mk_op kRead (Some e) ctx (Fd env e) completion del) (Readv (Fd env e)) key p"

definition SubmitReadMultishot ::
  "uring_env \<Rightarrow> evt \<Rightarrow> int \<Rightarrow> 'f option \<Rightarrow> 'x option \<Rightarrow> 64 word \<Rightarrow> bool \<Rightarrow>
   ('x, 'f) poller \<Rightarrow> 64 word \<times> ('x, 'f) poller" where
  "SubmitReadMultishot env e buf_group completion ctx key del p =
     (if recv_multishot env
      then submit_op env (mk_op kRead (Some e) ctx (Fd env e) completion del)
             (RecvMultishot (Fd env e) buf_group) key p
      else (0, p))"

definition SubmitWrite ::
  "uring_env \<Rightarrow> evt \<Rightarrow> 'f option \<Rightarrow> 'x option \<Rightarrow> 64 word \<Rightarrow> bool \<Rightarrow>
   ('x, 'f) poller \<Rightarrow> 64 word \<times> ('x, 'f) poller" where
  "SubmitWrite env e completion ctx key del p =
     submit_op env (mk_op kWrite (Some e) ctx (Fd env e) completion del) (Writev (Fd env e)) key p"

definition SubmitAccept ::
  "uring_env \<Rightarrow> int \<Rightarrow> 'x option \<Rightarrow> 'f option \<Rightarrow> 64 word \<Rightarrow> bool \<Rightarrow> bool \<Rightarrow>
   ('x, 'f) poller \<Rightarrow> 64 word \<times> ('x, 'f) poller" where
  "SubmitAccept env fd ctx completion key multishot del p =
     submit_op env (mk_op kAccept None ctx fd completion del)
       (Accept fd (multishot \<and> use_multishot_accept p \<and> accept_multishot env)) key p"

definition CancelOp :: "uring_env \<Rightarrow> 64 word \<Rightarrow> ('x, 'f) poller \<Rightarrow> ('x, 'f) poller" where
  "CancelOp env key p =
     (if key = 0 then p
      else
        let p1 = (case ops p key of
                    None \<Rightarrow> p
                  | Some op \<Rightarrow>
                      p\<lparr>ops := (ops p)(key \<mapsto> op\<lparr>op_eventer := None, op_completion := None\<rparr>)\<rparr>)
        in case io_uring_get_sqe env p1 of (got, p2) \<Rightarrow>
             if \<not> got then p2 else SubmitPending env (prep (AsyncCancel key) p2))"

section \<open>Polls\<close>

definition SubmitPoll :: "uring_env \<Rightarrow> evt \<Rightarrow> ('x, 'f) poller \<Rightarrow> ('x, 'f) poller" where
  "SubmitPoll env e p =
     (case states p e of
        None \<Rightarrow> p
      | Some st \<Rightarrow>
          if mask st = 0 \<or> armed st then p
          else case NormalizeKey 0 p of (k, p1) \<Rightarrow>
            case io_uring_get_sqe env p1 of (got, p2) \<Rightarrow>
              if \<not> got then p2
              else
                let p3 = p2\<lparr>ops := (ops p2)(k \<mapsto> mk_op kPoll (Some e) None (Fd env e) None False k)\<rparr>;
                    p4 = prep (PollAdd (Fd env e) (mask st) k) p3
                in p4\<lparr>states := (states p4)(e \<mapsto> st\<lparr>armed := True, poll_key := k\<rparr>)\<rparr>)"

definition CancelPoll :: "uring_env \<Rightarrow> evt \<Rightarrow> ('x, 'f) poller \<Rightarrow> ('x, 'f) poller" where
  "CancelPoll env e p =
     (case states p e of
        None \<Rightarrow> p
      | Some st \<Rightarrow>
          if \<not> armed st then p
          else case io_uring_get_sqe env p of (got, p1) \<Rightarrow>
            if \<not> got then p1
            else
              let p2 = prep (PollRemove (poll_key st)) p1
              in p2\<lparr>states := (states p2)(e \<mapsto> st\<lparr>armed := False, poll_key := 0\<rparr>)\<rparr>)"

definition AddEventer :: "uring_env \<Rightarrow> evt \<Rightarrow> 32 word \<Rightarrow> ('x, 'f) poller \<Rightarrow> ('x, 'f) poller" where
  "AddEventer env e events p =
     SubmitPending env (SubmitPoll env e
       (p\<lparr>states := (states p)(e \<mapsto> \<lparr>mask = events, armed = False, poll_key = 0\<rparr>)\<rparr>))"

definition ModifyEventer :: "uring_env \<Rightarrow> evt \<Rightarrow> 32 word \<Rightarrow> ('x, 'f) poller \<Rightarrow> ('x, 'f) poller" where
  "ModifyEventer env e events p =
     (case states p e of
        None \<Rightarrow> AddEventer env e events p
      | Some st \<Rightarrow>
          let p1 = p\<lparr>states := (states p)(e \<mapsto> st\<lparr>mask := events\<rparr>)\<rparr>
          in SubmitPending env (if events = 0 then CancelPoll env e p1 else SubmitPoll env e p1))"

definition RemoveEventer :: "uring_env \<Rightarrow> evt \<Rightarrow> ('x, 'f) poller \<Rightarrow> ('x, 'f) poller" where
  "RemoveEventer env e p =
     (let p1 = CancelPoll env e p in p1\<lparr>states := (states p1)(e := None)\<rparr>)"

section \<open>Completions\<close>

definition ReleaseBufferFromCqe :: "uring_env \<Rightarrow> cqe \<Rightarrow> ('x, 'f) poller \<Rightarrow> ('x, 'f) poller" where
  "ReleaseBufferFromCqe env c p =
     (if \<not> recv_multishot env \<or> \<not> buffers_registered p \<or> \<not> cqe_has_buffer c then p
      else if kBufCount \<le> cqe_buffer_id c then p
      else case io_uring_get_sqe env p of (got, p1) \<Rightarrow>
        if \<not> got then p1 else prep (ProvideBuffers 1 (cqe_buffer_id c)) p1)"

definition GetBuffer :: "nat \<Rightarrow> ('x, 'f) poller \<Rightarrow> nat option" where
  "GetBuffer bid p = (if \<not> buffers_registered p \<or> kBufCount \<le> bid then None else Some bid)"

text \<open>The calls that the dispatch makes on eventers, each the last thing the handler does.\<close>

datatype evt_call =
    CallReceiveEvents evt "32 word"
  | CallOnReadDone evt int
  | CallOnWriteDone evt int
  | CallOnAcceptDone evt int

definition alive :: "evt option \<Rightarrow> ('x, 'f) poller \<Rightarrow> bool" where
  "alive e p = (case e of None \<Rightarrow> False | Some a \<Rightarrow> states p a \<noteq> None)"

text \<open>A completion function also acts on the state of its caller (\<open>'w\<close>).\<close>

type_synonym ('x, 'f, 'w) completion =
  "'f \<Rightarrow> cqe \<Rightarrow> ('x, 'f) IoUringOp \<Rightarrow> ('x, 'f) poller \<Rightarrow> 'w \<Rightarrow>
   ('x, 'f) IoUringOp \<times> ('x, 'f) poller \<times> 'w"

text \<open>The switch over the operations without a completion function.\<close>

definition dispatch ::
  "uring_env \<Rightarrow> cqe \<Rightarrow> ('x, 'f) IoUringOp \<Rightarrow> ('x, 'f) poller \<Rightarrow> evt_call list \<times> ('x, 'f) poller" where
  "dispatch env c op p =
     (case op_type op of
        kPoll \<Rightarrow>
          (case op_eventer op of
             None \<Rightarrow> ([], p)
           | Some e \<Rightarrow>
               case states p e of
                 None \<Rightarrow> ([], p)
               | Some st \<Rightarrow>
                   (if 0 \<le> cqe_res c then [CallReceiveEvents e (word_of_int (cqe_res c))] else [],
                    SubmitPoll env e (p\<lparr>states := (states p)(e \<mapsto> st\<lparr>armed := False\<rparr>)\<rparr>)))
      | kRead \<Rightarrow>
          (if alive (op_eventer op) p
           then ([CallOnReadDone (the (op_eventer op)) (cqe_res c)], ReleaseBufferFromCqe env c p)
           else ([], ReleaseBufferFromCqe env c p))
      | kWrite \<Rightarrow>
          (if alive (op_eventer op) p
           then ([CallOnWriteDone (the (op_eventer op)) (cqe_res c)], p) else ([], p))
      | kAccept \<Rightarrow>
          (case op_eventer op of
             None \<Rightarrow> ([], p)
           | Some e \<Rightarrow> ([CallOnAcceptDone e (cqe_res c)], p))
      | kTimeout \<Rightarrow> ([], p)
      | kNone \<Rightarrow> ([], p))"

definition HandleCqe ::
  "uring_env \<Rightarrow> ('x, 'f, 'w) completion \<Rightarrow> cqe \<Rightarrow> ('x, 'f) poller \<Rightarrow> 'w \<Rightarrow>
   evt_call list \<times> ('x, 'f) poller \<times> 'w" where
  "HandleCqe env complete c p w =
     (let key = user_data c
      in if key = 0 then ([], ReleaseBufferFromCqe env c p, w)
         else case LookupOp key p of
           (None, p1) \<Rightarrow> ([], ReleaseBufferFromCqe env c p1, w)
         | (Some op, p1) \<Rightarrow>
             (case op_completion op of
                Some fn \<Rightarrow>
                  if (op_type op = kRead \<or> op_type op = kWrite) \<and> \<not> alive (op_eventer op) p1
                  then ([], ReleaseBufferFromCqe env c (snd (CleanupOpContext op p1)), w)
                  else (case complete fn c op p1 w of (op', p2, w') \<Rightarrow>
                    let p3 = ReleaseBufferFromCqe env c p2
                    in ([], if cqe_more c \<and> op_context op' \<noteq> None
                            then p3\<lparr>ops := (ops p3)(key \<mapsto> op')\<rparr> else p3, w'))
              | None \<Rightarrow>
                  (case (if op_context op \<noteq> None then CleanupOpContext op p1 else (op, p1)) of
                     (op', p2) \<Rightarrow> case dispatch env c op' p2 of (calls, p3) \<Rightarrow> (calls, p3, w))))"

text \<open>
  \<open>Poll\<close>: what waiting returns (a negative error or a completion), then for each further
  round the clock and what peeking returns; no more entries is \<open>-EAGAIN\<close>. The eventers that
  become active are those of the \<open>CallReceiveEvents\<close> calls.
\<close>

fun poll_loop ::
  "uring_env \<Rightarrow> ('x, 'f, 'w) completion \<Rightarrow> nat \<Rightarrow> int \<Rightarrow> int \<Rightarrow> (int \<times> (int + cqe)) list \<Rightarrow> nat \<Rightarrow>
   ('x, 'f) poller \<Rightarrow> 'w \<Rightarrow> evt_call list \<times> ('x, 'f) poller \<times> 'w"
where
  "poll_loop env complete limit budget start [] handled p w = ([], p, w)"
| "poll_loop env complete limit budget start ((now, r) # rs) handled p w =
     (if limit \<noteq> 0 \<and> limit \<le> handled then ([], p, w)
      else if 0 < budget \<and> budget \<le> now - start then ([], p, w)
      else case r of
        Inl e \<Rightarrow> ([], p, w)
      | Inr c \<Rightarrow>
          (case HandleCqe env complete c p w of (calls, p1, w1) \<Rightarrow>
             case poll_loop env complete limit budget start rs (handled + 1) p1 w1 of (calls', r) \<Rightarrow>
               (calls @ calls', r)))"

definition Poll ::
  "uring_env \<Rightarrow> ('x, 'f, 'w) completion \<Rightarrow> int + cqe \<Rightarrow> int \<Rightarrow> (int \<times> (int + cqe)) list \<Rightarrow>
   ('x, 'f) poller \<Rightarrow> 'w \<Rightarrow> evt_call list \<times> ('x, 'f) poller \<times> 'w" where
  "Poll env complete waited start peeks p w =
     (case waited of
        Inl e \<Rightarrow> ([], SubmitPending env p, w)
      | Inr c \<Rightarrow>
          (case HandleCqe env complete c p w of (calls, p1, w1) \<Rightarrow>
             case poll_loop env complete (cqe_batch_limit p1) (cqe_time_budget_us p1) start peeks 1 p1 w1 of
               (calls', p2, w2) \<Rightarrow> (calls @ calls', SubmitPending env p2, w2)))"

definition active_eventers :: "evt_call list \<Rightarrow> evt list" where
  "active_eventers calls = concat (map (\<lambda>c. case c of CallReceiveEvents e _ \<Rightarrow> [e] | _ \<Rightarrow> []) calls)"

text \<open>The destructor: the contexts of the outstanding operations, in the order of a traversal.\<close>

definition destroy_poller ::
  "uring_env \<Rightarrow> ('x, 'f) IoUringOp list \<Rightarrow> ('x, 'f) poller \<Rightarrow> ('x, 'f) poller" where
  "destroy_poller env traversal p =
     UnregisterBuffers env
       ((fold (\<lambda>op q. snd (CleanupOpContext op q)) traversal p)\<lparr>ops := Map.empty\<rparr>)"

definition SetCqeBatchLimit :: "nat \<Rightarrow> ('x, 'f) poller \<Rightarrow> ('x, 'f) poller" where
  "SetCqeBatchLimit limit p = p\<lparr>cqe_batch_limit := limit\<rparr>"

definition SetCqeTimeBudgetUs :: "int \<Rightarrow> ('x, 'f) poller \<Rightarrow> ('x, 'f) poller" where
  "SetCqeTimeBudgetUs budget p = p\<lparr>cqe_time_budget_us := budget\<rparr>"

end
