(* ===== verification/Poller_Safety.thy ===== *)
theory Poller_Safety
  imports Io_Poller
begin

text \<open>
  What the poller promises, over every history of public operations and completions: outstanding
  operations stay recorded with their contexts until they complete, and an eventer that waits for
  events has a poll in the ring. Completion functions run inside \<open>HandleCqe\<close>; they may call the
  public operations (\<open>poller_api\<close>) and keep the keys they got from them (\<open>held\<close>).
\<close>

section \<open>Public operations as steps\<close>

text \<open>
  Callers let the poller choose the key (they pass 0), and cancel only what they submitted: a key
  that was given out and is not that of a poll (\<open>safe_key\<close>).
\<close>

definition poll_at :: "('x, 'f) poller \<Rightarrow> 64 word \<Rightarrow> bool" where
  "poll_at p k = (case ops p k of None \<Rightarrow> False | Some op \<Rightarrow> op_type op = kPoll)"

definition safe_key :: "('x, 'f) poller \<Rightarrow> 64 word \<Rightarrow> bool" where
  "safe_key p k \<longleftrightarrow> k = 0 \<or> k < next_key p \<and> \<not> poll_at p k"

inductive poller_api :: "uring_env \<Rightarrow> ('x, 'f) poller \<Rightarrow> ('x, 'f) poller \<Rightarrow> bool" for env where
  add: "poller_api env p (AddEventer env e m p)"
| modify: "poller_api env p (ModifyEventer env e m p)"
| remove: "poller_api env p (RemoveEventer env e p)"
| read_op: "poller_api env p (snd (SubmitRead env e fn ctx 0 del p))"
| multishot: "poller_api env p (snd (SubmitReadMultishot env e g fn ctx 0 del p))"
| write_op: "poller_api env p (snd (SubmitWrite env e fn ctx 0 del p))"
| accept_op: "poller_api env p (snd (SubmitAccept env fd ctx fn 0 ms del p))"
| cancel: "safe_key p k \<Longrightarrow> poller_api env p (CancelOp env k p)"
| limit: "poller_api env p (SetCqeBatchLimit n p)"
| budget: "poller_api env p (SetCqeTimeBudgetUs t p)"

text \<open>
  Every key given out goes with a request for an entry of the ring, so as long as fewer than
  \<open>2\<^sup>6\<^sup>2\<close> entries were asked for (at a million per second, for 146,000 years), the
  keys have not wrapped around.
\<close>

definition key_bound :: "64 word" where
  "key_bound = 2 ^ 63"

definition few_calls :: "('x, 'f) poller \<Rightarrow> bool" where
  "few_calls p \<longleftrightarrow> sqe_calls p < 2 ^ 62"

definition key_count :: "('x, 'f) poller \<Rightarrow> bool" where
  "key_count p \<longleftrightarrow> (few_calls p \<longrightarrow> 0 < next_key p \<and> unat (next_key p) \<le> sqe_calls p + 1)"

lemma few_bound:
  assumes "key_count p" and "few_calls p"
  shows "next_key p < key_bound" and "0 < next_key p"
  using assms by (simp_all add: key_count_def few_calls_def key_bound_def word_less_nat_alt)

text \<open>A step that asks for entries at least as often as it gives out keys.\<close>

definition counts :: "('x, 'f) poller \<Rightarrow> ('x, 'f) poller \<Rightarrow> bool" where
  "counts p q \<longleftrightarrow> sqe_calls p \<le> sqe_calls q \<and> (key_count p \<longrightarrow> key_count q)"

lemma counts_trans: "counts p q \<Longrightarrow> counts q r \<Longrightarrow> counts p r"
  by (simp add: counts_def)

lemma counts_same: "next_key q = next_key p \<Longrightarrow> sqe_calls p \<le> sqe_calls q \<Longrightarrow> counts p q"
  by (auto simp: counts_def key_count_def few_calls_def)

lemma NormalizeKey_0:
  "0 < next_key p \<Longrightarrow> NormalizeKey 0 p = (next_key p, p\<lparr>next_key := next_key p + 1\<rparr>)"
  by (auto simp: NormalizeKey_def Let_def)

lemma NormalizeKey_counts:
  assumes "NormalizeKey 0 p = (k, q)" and "next_key r = next_key q" and "sqe_calls r = sqe_calls q + 1"
  shows "counts p r"
proof -
  have sq: "sqe_calls q = sqe_calls p" using assms(1) by (auto simp: NormalizeKey_def Let_def split: if_splits)
  have "key_count r" if "key_count p"
  proof -
    have "0 < next_key r \<and> unat (next_key r) \<le> sqe_calls r + 1" if few: "few_calls r"
    proof -
      have p: "0 < next_key p" "unat (next_key p) \<le> sqe_calls p + 1" "sqe_calls p < 2 ^ 62"
        using few \<open>key_count p\<close> by (simp_all add: few_calls_def key_count_def few_calls_def assms(3) sq)
      then have r: "next_key r = next_key p + 1"
        using assms(1,2) NormalizeKey_0 [OF p(1)] by auto
      have "unat (next_key p + 1) = unat (next_key p) + 1" using p by (simp add: unat_word_ariths)
      then show ?thesis using p(2) unfolding r word_less_nat_alt by (simp add: assms(3) sq)
    qed
    then show ?thesis by (simp add: key_count_def few_calls_def)
  qed
  then show ?thesis by (simp add: counts_def assms(3) sq)
qed

lemma submit_op_counts: "counts p (snd (submit_op env mo mk 0 p))"
proof -
  obtain k q where n: "NormalizeKey 0 p = (k, q)" by fastforce
  show ?thesis
    by (rule NormalizeKey_counts [OF n])
      (simp_all add: submit_op_def n io_uring_get_sqe_def prep_def SubmitPending_def Let_def)
qed

lemma SubmitPoll_counts: "counts p (SubmitPoll env e (p\<lparr>states := s\<rparr>))"
proof -
  obtain k q where n: "NormalizeKey 0 (p\<lparr>states := s\<rparr>) = (k, q)" by fastforce
  have p: "counts p r" if "counts (p\<lparr>states := s\<rparr>) r" for r
    using that by (simp add: counts_def key_count_def few_calls_def)
  have "counts (p\<lparr>states := s\<rparr>) r" if "next_key r = next_key q" "sqe_calls r = sqe_calls q + 1" for r
    by (rule NormalizeKey_counts [OF n that])
  then show ?thesis
    using p counts_same [of "p\<lparr>states := s\<rparr>" p]
    by (auto simp: SubmitPoll_def n io_uring_get_sqe_def prep_def Let_def split: option.splits)
qed

lemma counts_pending: "counts p (SubmitPending env q) = counts p q"
  by (simp add: counts_def key_count_def few_calls_def SubmitPending_def Let_def)

lemma counts_Cancel: "counts p (CancelPoll env e (p\<lparr>states := s\<rparr>))" "counts p (CancelOp env k p)"
  by (rule counts_same; auto simp: CancelPoll_def CancelOp_def io_uring_get_sqe_def prep_def
      SubmitPending_def Let_def split: option.splits)+

lemma counts_CancelPoll: "counts p (CancelPoll env e p)"
  using counts_Cancel(1) [of p env e "states p"] by simp

lemma counts_ReleaseBuffer: "counts p (ReleaseBufferFromCqe env c p)"
  by (rule counts_same) (auto simp: ReleaseBufferFromCqe_def io_uring_get_sqe_def prep_def)

lemma api_counts: "poller_api env p q \<Longrightarrow> counts p q"
proof (induction rule: poller_api.induct)
  case (multishot p e g fn ctx del)
  then show ?case by (simp add: SubmitReadMultishot_def submit_op_counts counts_same)
next
  case (remove p e)
  then show ?case
    using counts_CancelPoll [of p env e] by (simp add: RemoveEventer_def Let_def counts_def key_count_def few_calls_def)
qed (auto simp: AddEventer_def ModifyEventer_def SubmitRead_def SubmitWrite_def SubmitAccept_def Let_def
    SetCqeBatchLimit_def SetCqeTimeBudgetUs_def counts_pending counts_Cancel submit_op_counts
    SubmitPoll_counts split: option.splits intro: counts_same)

lemma apis_counts: "(poller_api env)\<^sup>*\<^sup>* p q \<Longrightarrow> counts p q"
  by (induction rule: rtranclp_induct) (auto intro: counts_same counts_trans [OF _ api_counts])

lemma counts_few: "counts p q \<Longrightarrow> few_calls q \<Longrightarrow> few_calls p"
  by (simp add: counts_def few_calls_def)


text \<open>
  A completion function acts on the poller through its public operations only, changes at most the
  context of its operation, and keeps to safe keys.
\<close>

definition callbacks_ok ::
  "uring_env \<Rightarrow> ('w \<Rightarrow> 64 word set) \<Rightarrow> ('x, 'f, 'w) completion \<Rightarrow> bool" where
  "callbacks_ok env held complete \<longleftrightarrow>
     (\<forall>fn c op p w op' p' w'. complete fn c op p w = (op', p', w') \<longrightarrow>
        counts p p' \<and>
        (key_count p \<longrightarrow> few_calls p' \<longrightarrow> (\<forall>k \<in> held w. safe_key p k) \<longrightarrow>
           (poller_api env)\<^sup>*\<^sup>* p p' \<and> (\<exists>x. op' = op\<lparr>op_context := x\<rparr>) \<and>
           (\<forall>k \<in> held w'. safe_key p' k)))"


section \<open>Outstanding operations stay recorded\<close>

text \<open>The entries of the ring that carry memory of their caller (the vectors of a read or write).\<close>

fun sqe_keys :: "sqe \<Rightarrow> 64 word list" where
  "sqe_keys (Readv fd k) = [k]"
| "sqe_keys (Writev fd k) = [k]"
| "sqe_keys _ = []"

fun ring_key :: "sqe \<Rightarrow> 64 word list" where
  "ring_key (PollAdd fd m k) = [k]"
| "ring_key (RecvMultishot fd g k) = [k]"
| "ring_key (Accept fd ms k) = [k]"
| "ring_key s = sqe_keys s"

definition ring_keys :: "('x, 'f) poller \<Rightarrow> 64 word set" where
  "ring_keys p = set (concat (map ring_key (submitted p @ prepared p)))"

definition io_keys :: "('x, 'f) poller \<Rightarrow> 64 word set" where
  "io_keys p = set (concat (map sqe_keys (submitted p @ prepared p)))"

text \<open>
  \<open>ops_ok p done\<close>: every read or write that was handed to the ring and whose completion has
  not been seen (\<open>done\<close>) is recorded, and all keys in use are below \<open>next_key\<close>.
\<close>

definition ops_ok :: "('x, 'f) poller \<Rightarrow> 64 word set \<Rightarrow> bool" where
  "ops_ok p seen \<longleftrightarrow>
     io_keys p - seen \<subseteq> dom (ops p) \<and>
     (\<forall>k \<in> ring_keys p \<union> dom (ops p) \<union> seen. k \<noteq> 0 \<and> k < next_key p) \<and>
     0 < next_key p"

lemmas ops_ok_defs = ops_ok_def io_keys_def ring_keys_def

lemma key_succ:
  assumes "k < key_bound"
  shows "k < k + 1" and "j < k \<Longrightarrow> j < k + 1" and "0 < k + 1"
proof -
  have "unat k < 2 ^ 63" using assms by (simp add: key_bound_def word_less_nat_alt)
  then have "unat (k + 1) = unat k + 1" by (simp add: unat_word_ariths)
  then show "k < k + 1" "0 < k + 1" "j < k \<Longrightarrow> j < k + 1" by (auto simp: word_less_nat_alt)
qed

lemma ops_ok_quiet:
  "ops_ok (p\<lparr>states := s\<rparr>) seen = ops_ok p seen"
  "ops_ok (p\<lparr>sqe_calls := n\<rparr>) seen = ops_ok p seen"
  "ops_ok (p\<lparr>deleted := d\<rparr>) seen = ops_ok p seen"
  "ops_ok (p\<lparr>cqe_batch_limit := n\<rparr>) seen = ops_ok p seen"
  "ops_ok (p\<lparr>cqe_time_budget_us := t\<rparr>) seen = ops_ok p seen"
  by (simp_all add: ops_ok_defs)

lemma ops_ok_prep: "ring_key s = [] \<Longrightarrow> sqe_keys s = [] \<Longrightarrow> ops_ok (prep s p) seen = ops_ok p seen"
  by (simp add: ops_ok_defs prep_def)

lemma ops_ok_SubmitPending: "ops_ok (SubmitPending env p) seen = ops_ok p seen"
  by (simp add: ops_ok_defs SubmitPending_def Let_def)

text \<open>A new operation under the next key.\<close>

lemma ops_ok_new:
  assumes ok: "ops_ok p seen" and bound: "next_key p < key_bound"
    and s: "set (ring_key s) \<subseteq> {next_key p}" "set (sqe_keys s) \<subseteq> {next_key p}"
  shows "ops_ok (prep s (p\<lparr>next_key := next_key p + 1, sqe_calls := n,
    ops := (ops p)(next_key p \<mapsto> op)\<rparr>)) seen"
    (is "ops_ok ?q seen")
proof -
  have keys: "io_keys ?q \<subseteq> insert (next_key p) (io_keys p)"
    "ring_keys ?q \<subseteq> insert (next_key p) (ring_keys p)"
    using s by (auto simp: io_keys_def ring_keys_def prep_def)
  have dom: "dom (ops ?q) = insert (next_key p) (dom (ops p))" by (simp add: prep_def)
  have nk: "next_key ?q = next_key p + 1" by (simp add: prep_def)
  have all: "io_keys p - seen \<subseteq> dom (ops p)" "0 < next_key p"
    "\<And>k. k \<in> ring_keys p \<union> dom (ops p) \<union> seen \<Longrightarrow> k \<noteq> 0 \<and> k < next_key p"
    using ok by (simp_all add: ops_ok_def)
  have "k \<noteq> 0 \<and> k < next_key p + 1" if "k \<in> ring_keys ?q \<union> dom (ops ?q) \<union> seen" for k
  proof (cases "k = next_key p")
    case True
    then show ?thesis using all(2) key_succ(1) [OF bound] by auto
  next
    case False
    then have "k \<in> ring_keys p \<union> dom (ops p) \<union> seen" using that keys(2) dom by auto
    then show ?thesis using all(3) key_succ(2) [OF bound] by auto
  qed
  moreover have "io_keys ?q - seen \<subseteq> dom (ops ?q)" using keys(1) dom all(1) by auto
  ultimately show ?thesis using key_succ(3) [OF bound] unfolding ops_ok_def nk by auto
qed

lemma ops_ok_next_key:
  assumes ok: "ops_ok p seen" and bound: "next_key p < key_bound"
  shows "ops_ok (p\<lparr>next_key := next_key p + 1\<rparr>) seen"
proof -
  have "io_keys (p\<lparr>next_key := next_key p + 1\<rparr>) = io_keys p"
    "ring_keys (p\<lparr>next_key := next_key p + 1\<rparr>) = ring_keys p"
    by (simp_all add: io_keys_def ring_keys_def)
  then show ?thesis using ok key_succ [OF bound] unfolding ops_ok_def by simp
qed

lemma ops_ok_submit_op:
  assumes "ops_ok p seen" and "next_key p < key_bound"
    and "\<And>k. set (ring_key (mk k)) \<subseteq> {k} \<and> set (sqe_keys (mk k)) \<subseteq> {k}"
  shows "ops_ok (snd (submit_op env mo mk 0 p)) seen"
proof -
  have n: "NormalizeKey 0 p = (next_key p, p\<lparr>next_key := next_key p + 1\<rparr>)"
    using assms(1) by (intro NormalizeKey_0) (simp add: ops_ok_def)
  show ?thesis
    using ops_ok_new [OF assms(1,2), of "mk (next_key p)"] ops_ok_next_key [OF assms(1,2)] assms(3)
    by (simp add: submit_op_def n io_uring_get_sqe_def ops_ok_quiet ops_ok_SubmitPending)
qed

lemma ops_ok_SubmitPoll:
  assumes "ops_ok p seen" and "next_key p < key_bound"
  shows "ops_ok (SubmitPoll env e p) seen"
proof -
  have n: "NormalizeKey 0 p = (next_key p, p\<lparr>next_key := next_key p + 1\<rparr>)"
    using assms(1) by (intro NormalizeKey_0) (simp add: ops_ok_def)
  show ?thesis
    using ops_ok_new [OF assms] ops_ok_next_key [OF assms] assms
    by (auto simp: SubmitPoll_def n io_uring_get_sqe_def ops_ok_quiet Let_def split: option.splits)
qed

lemma ops_ok_CancelPoll: "ops_ok p seen \<Longrightarrow> ops_ok (CancelPoll env e p) seen"
  by (auto simp: CancelPoll_def io_uring_get_sqe_def ops_ok_quiet ops_ok_prep Let_def
      split: option.splits)

lemma next_key_states [simp]: "next_key (p\<lparr>states := s\<rparr>) = next_key p"
  by simp

lemma ops_ok_CancelOp:
  assumes "ops_ok p seen"
  shows "ops_ok (CancelOp env k p) seen"
proof -
  have "ops_ok (p\<lparr>ops := (ops p)(k \<mapsto> op')\<rparr>) seen" if "ops p k = Some op" for op op'
    using assms that by (auto simp: ops_ok_defs)
  then show ?thesis
    using assms by (auto simp: CancelOp_def io_uring_get_sqe_def ops_ok_quiet ops_ok_prep
        ops_ok_SubmitPending Let_def split: option.splits)
qed

lemma ops_ok_api: "poller_api env p q \<Longrightarrow> ops_ok p seen \<Longrightarrow> next_key p < key_bound \<Longrightarrow> ops_ok q seen"
proof (induction rule: poller_api.induct)
  case (add p e m)
  then show ?case
    by (simp add: AddEventer_def ops_ok_SubmitPending ops_ok_SubmitPoll ops_ok_quiet)
next
  case (modify p e m)
  then show ?case
    by (auto simp: ModifyEventer_def AddEventer_def ops_ok_SubmitPending ops_ok_SubmitPoll
        ops_ok_CancelPoll ops_ok_quiet Let_def split: option.splits)
next
  case (multishot p e g fn ctx del)
  then show ?case by (auto simp: SubmitReadMultishot_def intro: ops_ok_submit_op)
qed (auto simp: RemoveEventer_def SubmitRead_def SubmitWrite_def SubmitAccept_def Let_def
    ops_ok_quiet ops_ok_CancelPoll ops_ok_CancelOp SetCqeBatchLimit_def SetCqeTimeBudgetUs_def
    intro: ops_ok_submit_op)

text \<open>Induction over public operations, with the keys below their bound.\<close>

lemma apis_induct:
  assumes "(poller_api env)\<^sup>*\<^sup>* p q" and "key_count p" and "few_calls q" and "P p"
    and step: "\<And>q r. poller_api env q r \<Longrightarrow> next_key q < key_bound \<Longrightarrow> P q \<Longrightarrow> P r"
  shows "P q"
  using assms(1,3)
proof (induction rule: rtranclp_induct)
  case base
  show ?case by (rule assms(4))
next
  case (step q r)
  have few: "few_calls q" using counts_few [OF api_counts [OF step.hyps(2)] step.prems] .
  have "key_count q" using apis_counts [OF step.hyps(1)] assms(2) by (simp add: counts_def)
  then show ?case using assms(5) [OF step.hyps(2) few_bound(1) [OF _ few] step.IH [OF few]] by blast
qed

lemma ops_ok_apis:
  "(poller_api env)\<^sup>*\<^sup>* p q \<Longrightarrow> key_count p \<Longrightarrow> few_calls q \<Longrightarrow> ops_ok p seen \<Longrightarrow> ops_ok q seen"
  by (rule apis_induct) (auto intro: ops_ok_api)


lemma ops_ok_ReleaseBuffer: "ops_ok (ReleaseBufferFromCqe env c p) seen = ops_ok p seen"
  by (simp add: ReleaseBufferFromCqe_def io_uring_get_sqe_def ops_ok_prep ops_ok_quiet)

lemma ops_ok_Cleanup: "ops_ok (snd (CleanupOpContext op p)) seen = ops_ok p seen"
  by (simp add: CleanupOpContext_def ops_ok_quiet split: option.splits)

lemma next_key_Cleanup: "next_key (snd (CleanupOpContext op p)) = next_key p"
  by (simp add: CleanupOpContext_def split: option.splits)

lemma ops_ok_dispatch:
  assumes "ops_ok p seen" and "next_key p < key_bound"
  shows "ops_ok (snd (dispatch env c op p)) seen"
  using assms
  by (auto simp: dispatch_def ops_ok_ReleaseBuffer ops_ok_quiet
      split: OpType.splits option.splits intro!: ops_ok_SubmitPoll)

lemma ops_ok_seen:
  assumes "ops_ok p seen" and "k \<in> ring_keys p"
  shows "ops_ok p (insert k seen)"
  using assms by (auto simp: ops_ok_def)

lemma ops_ok_taken:
  assumes "ops_ok p seen" and "ops p k \<noteq> None"
  shows "ops_ok (p\<lparr>ops := (ops p)(k := None)\<rparr>) (insert k seen)"
proof -
  have "io_keys (p\<lparr>ops := (ops p)(k := None)\<rparr>) = io_keys p"
    "ring_keys (p\<lparr>ops := (ops p)(k := None)\<rparr>) = ring_keys p"
    by (simp_all add: io_keys_def ring_keys_def)
  then show ?thesis using assms by (auto simp: ops_ok_def)
qed

lemma ops_ok_kept:
  assumes "ops_ok p (insert k seen)"
  shows "ops_ok (p\<lparr>ops := (ops p)(k \<mapsto> op)\<rparr>) (insert k seen)"
proof -
  have "io_keys (p\<lparr>ops := (ops p)(k \<mapsto> op)\<rparr>) = io_keys p"
    "ring_keys (p\<lparr>ops := (ops p)(k \<mapsto> op)\<rparr>) = ring_keys p"
    by (simp_all add: io_keys_def ring_keys_def)
  then show ?thesis using assms by (auto simp: ops_ok_def)
qed


section \<open>Polls stay armed\<close>

text \<open>\<open>poll_rec p e k\<close>: the operation under \<open>k\<close> is a poll for the eventer \<open>e\<close>.\<close>

definition poll_rec :: "('x, 'f) poller \<Rightarrow> evt \<Rightarrow> 64 word \<Rightarrow> bool" where
  "poll_rec p e k =
     (case ops p k of None \<Rightarrow> False | Some op \<Rightarrow> op_type op = kPoll \<and> op_eventer op = Some e)"

text \<open>An armed eventer has its poll recorded, and polls have no completion function.\<close>

definition poll_base :: "('x, 'f) poller \<Rightarrow> bool" where
  "poll_base p \<longleftrightarrow>
     (\<forall>e st. states p e = Some st \<longrightarrow> armed st \<longrightarrow> poll_rec p e (poll_key st)) \<and>
     (\<forall>k op. ops p k = Some op \<longrightarrow> op_type op = kPoll \<longrightarrow> op_completion op = None)"

text \<open>An eventer that waits for events (outside the set \<open>E\<close>) is armed.\<close>

definition poll_live :: "evt set \<Rightarrow> ('x, 'f) poller \<Rightarrow> bool" where
  "poll_live E p \<longleftrightarrow> (\<forall>e st. e \<notin> E \<longrightarrow> states p e = Some st \<longrightarrow> mask st \<noteq> 0 \<longrightarrow> armed st)"

lemmas poll_defs = poll_base_def poll_live_def poll_rec_def

lemma poll_quiet:
  assumes "states q = states p" and "ops q = ops p"
  shows "poll_base q = poll_base p" and "poll_live E q = poll_live E p"
  using assms by (simp_all add: poll_defs)

lemma poll_SubmitPending:
  "poll_base (SubmitPending env p) = poll_base p" "poll_live E (SubmitPending env p) = poll_live E p"
  by (rule poll_quiet; simp add: SubmitPending_def Let_def)+

lemma poll_ReleaseBuffer:
  "poll_base (ReleaseBufferFromCqe env c p) = poll_base p"
  "poll_live E (ReleaseBufferFromCqe env c p) = poll_live E p"
  by (rule poll_quiet; simp add: ReleaseBufferFromCqe_def io_uring_get_sqe_def prep_def)+

lemma poll_Cleanup:
  "poll_base (snd (CleanupOpContext op p)) = poll_base p"
  "poll_live E (snd (CleanupOpContext op p)) = poll_live E p"
  by (rule poll_quiet; simp add: CleanupOpContext_def split: option.splits)+

text \<open>Recording an operation that is not a poll, under a key that no poll uses.\<close>

lemma poll_base_insert:
  assumes "poll_base p" and "op_type op \<noteq> kPoll"
    and "\<And>e st. states p e = Some st \<Longrightarrow> armed st \<Longrightarrow> poll_key st \<noteq> k"
  shows "poll_base (p\<lparr>ops := (ops p)(k \<mapsto> op)\<rparr>)"
  using assms by (auto simp: poll_defs)

lemma fresh_poll_key:
  assumes "ops_ok p seen" and "poll_base p" and "states p e = Some st" and "armed st"
  shows "poll_key st \<in> dom (ops p)" and "poll_key st \<noteq> next_key p"
proof -
  show d: "poll_key st \<in> dom (ops p)"
    using assms(2-4) by (auto simp: poll_defs split: option.splits)
  then show "poll_key st \<noteq> next_key p" using assms(1) by (auto simp: ops_ok_def)
qed

lemma submit_op_fields:
  assumes "0 < next_key p"
  shows "states (snd (submit_op env mo mk 0 p)) = states p"
    and "ops (snd (submit_op env mo mk 0 p)) =
      (if get_sqe env (sqe_calls p) then (ops p)(next_key p \<mapsto> mo (next_key p)) else ops p)"
    and "next_key (snd (submit_op env mo mk 0 p)) = next_key p + 1"
    and "deleted (snd (submit_op env mo mk 0 p)) = deleted p"
  using NormalizeKey_0 [OF assms]
  by (simp_all add: submit_op_def io_uring_get_sqe_def SubmitPending_def prep_def Let_def)

lemma poll_submit_op:
  assumes ok: "ops_ok p seen" and poll: "poll_base p" and nopoll: "\<And>k. op_type (mo k) \<noteq> kPoll"
  shows "poll_base (snd (submit_op env mo mk 0 p))"
    and "poll_live E p \<Longrightarrow> poll_live E (snd (submit_op env mo mk 0 p))"
proof -
  have nz: "0 < next_key p" using ok by (simp add: ops_ok_def)
  note f = submit_op_fields [OF nz]
  show "poll_live E (snd (submit_op env mo mk 0 p))" if "poll_live E p"
    using that by (simp add: poll_live_def f(1))
  let ?p = "p\<lparr>ops := (ops p)(next_key p \<mapsto> mo (next_key p))\<rparr>"
  have b: "poll_base ?p"
    using poll nopoll fresh_poll_key(2) [OF ok poll] by (intro poll_base_insert) auto
  show "poll_base (snd (submit_op env mo mk 0 p))"
  proof (cases "get_sqe env (sqe_calls p)")
    case True
    have "poll_base (snd (submit_op env mo mk 0 p)) = poll_base ?p"
      by (rule poll_quiet) (simp_all add: f True)
    then show ?thesis using b by simp
  next
    case False
    have "poll_base (snd (submit_op env mo mk 0 p)) = poll_base p"
      by (rule poll_quiet) (simp_all add: f False)
    then show ?thesis using poll by simp
  qed
qed

lemma poll_CancelOp:
  assumes "poll_base p" and "\<forall>op. ops p k = Some op \<longrightarrow> op_type op \<noteq> kPoll"
  shows "poll_base (CancelOp env k p)" and "poll_live E p \<Longrightarrow> poll_live E (CancelOp env k p)"
proof -
  have same: "states (CancelOp env k p) = states p"
    by (simp add: CancelOp_def io_uring_get_sqe_def prep_def SubmitPending_def Let_def
        split: option.splits)
  have o: "ops (CancelOp env k p) j =
      (if j = k \<and> k \<noteq> 0 then map_option (\<lambda>op. op\<lparr>op_eventer := None, op_completion := None\<rparr>) (ops p k)
       else ops p j)" for j
    by (auto simp: CancelOp_def io_uring_get_sqe_def prep_def SubmitPending_def Let_def
        split: option.splits)
  show "poll_live E p \<Longrightarrow> poll_live E (CancelOp env k p)" by (simp add: poll_live_def same)
  have "poll_rec (CancelOp env k p) e j = poll_rec p e j" for e j
    using assms(2) by (auto simp: poll_rec_def o split: option.splits)
  then show "poll_base (CancelOp env k p)"
    using assms by (auto simp: poll_base_def same o split: if_splits)
qed

lemma SubmitPoll_armed:
  assumes "states p e = Some st" and "mask st \<noteq> 0" and "\<not> armed st" and "0 < next_key p"
    and "get_sqe env (sqe_calls p)"
  shows "states (SubmitPoll env e p) = (states p)(e \<mapsto> st\<lparr>armed := True, poll_key := next_key p\<rparr>)"
    and "ops (SubmitPoll env e p) =
      (ops p)(next_key p \<mapsto> mk_op kPoll (Some e) None (Fd env e) None False (next_key p))"
    and "next_key (SubmitPoll env e p) = next_key p + 1"
  using assms NormalizeKey_0 [OF assms(4)]
  by (simp_all add: SubmitPoll_def io_uring_get_sqe_def prep_def Let_def)

lemma SubmitPoll_idle:
  assumes "0 < next_key p"
    and "\<not> (\<exists>st. states p e = Some st \<and> mask st \<noteq> 0 \<and> \<not> armed st \<and> get_sqe env (sqe_calls p))"
  shows "states (SubmitPoll env e p) = states p" and "ops (SubmitPoll env e p) = ops p"
    and "next_key (SubmitPoll env e p) \<in> {next_key p, next_key p + 1}"
  using assms NormalizeKey_0 [OF assms(1)]
  by (auto simp: SubmitPoll_def io_uring_get_sqe_def Let_def split: option.splits)

lemma poll_base_SubmitPoll:
  assumes ok: "ops_ok p seen" and poll: "poll_base p"
  shows "poll_base (SubmitPoll env e p)"
proof -
  have nz: "0 < next_key p" using ok by (simp add: ops_ok_def)
  show ?thesis
  proof (cases "\<exists>st. states p e = Some st \<and> mask st \<noteq> 0 \<and> \<not> armed st \<and> get_sqe env (sqe_calls p)")
    case True
    then obtain st where st: "states p e = Some st" "mask st \<noteq> 0" "\<not> armed st"
      "get_sqe env (sqe_calls p)" by blast
    note f = SubmitPoll_armed [OF st(1-3) nz st(4)]
    show ?thesis
      using poll fresh_poll_key(2) [OF ok poll] by (auto simp: poll_defs f mk_op_def)
  next
    case False
    note f = SubmitPoll_idle [OF nz False]
    then show ?thesis using poll_quiet(1) [of "SubmitPoll env e p" p] poll by simp
  qed
qed

lemma poll_live_all:
  assumes "poll_live {e} p" and "\<And>st. states p e = Some st \<Longrightarrow> mask st \<noteq> 0 \<Longrightarrow> armed st"
  shows "poll_live {} p"
proof -
  have "armed st" if "states p e' = Some st" "mask st \<noteq> 0" for e' st
    using that assms by (cases "e' = e") (auto simp: poll_live_def)
  then show ?thesis by (simp add: poll_live_def)
qed

lemma poll_live_SubmitPoll:
  assumes ok: "ops_ok p seen" and live: "poll_live {e} p" and sqe: "\<And>n. get_sqe env n"
  shows "poll_live {} (SubmitPoll env e p)"
proof -
  have nz: "0 < next_key p" using ok by (simp add: ops_ok_def)
  show ?thesis
  proof (cases "\<exists>st. states p e = Some st \<and> mask st \<noteq> 0 \<and> \<not> armed st \<and> get_sqe env (sqe_calls p)")
    case True
    then obtain st where st: "states p e = Some st" "mask st \<noteq> 0" "\<not> armed st"
      "get_sqe env (sqe_calls p)" by blast
    show ?thesis using live by (auto simp: poll_live_def SubmitPoll_armed(1) [OF st(1-3) nz st(4)])
  next
    case False
    then have "poll_live {} p" using sqe by (intro poll_live_all [OF live]) blast
    then show ?thesis by (simp add: poll_live_def SubmitPoll_idle(1) [OF nz False])
  qed
qed

lemma poll_base_state:
  assumes "poll_base p" and "armed st' \<Longrightarrow> poll_rec p e (poll_key st')"
  shows "poll_base (p\<lparr>states := (states p)(e \<mapsto> st')\<rparr>)"
proof -
  have "poll_rec (p\<lparr>states := s\<rparr>) = poll_rec p" for s by (simp add: fun_eq_iff poll_rec_def)
  then show ?thesis using assms by (auto simp: poll_base_def)
qed

lemma poll_CancelPoll:
  assumes "poll_base p"
  shows "poll_base (CancelPoll env e p)" and "poll_live {e} p \<Longrightarrow> poll_live {e} (CancelPoll env e p)"
    and "ops (CancelPoll env e p) = ops p"
    and "map_option mask (states (CancelPoll env e p) e) = map_option mask (states p e)"
    and "next_key (CancelPoll env e p) = next_key p"
proof -
  let ?q = "\<lambda>st. p\<lparr>states := (states p)(e \<mapsto> st\<lparr>armed := False, poll_key := 0\<rparr>)\<rparr>"
  have q: "poll_base (?q st)" for st using assms by (intro poll_base_state) simp_all
  have "poll_base r = poll_base (?q st)" if "states r = states (?q st)" "ops r = ops p" for r st
    using that by (intro poll_quiet) simp_all
  moreover have "poll_base r = poll_base p" if "states r = states p" "ops r = ops p" for r
    using that by (rule poll_quiet)
  ultimately show "poll_base (CancelPoll env e p)"
    using assms q
    by (simp add: CancelPoll_def io_uring_get_sqe_def prep_def Let_def split: option.splits)
qed (auto simp: CancelPoll_def io_uring_get_sqe_def prep_def Let_def poll_live_def
    split: option.splits)

lemma poll_ModifyEventer:
  assumes ok: "ops_ok p seen" and bound: "next_key p < key_bound" and poll: "poll_base p"
  shows "poll_base (ModifyEventer env e m p)"
    and "poll_live {e} p \<Longrightarrow> (\<And>n. get_sqe env n) \<Longrightarrow> poll_live {} (ModifyEventer env e m p)"
proof -
  define st' where "st' = (case states p e of
      None \<Rightarrow> \<lparr>mask = m, armed = False, poll_key = 0\<rparr> | Some st \<Rightarrow> st\<lparr>mask := m\<rparr>)"
  define p1 where "p1 = p\<lparr>states := (states p)(e \<mapsto> st')\<rparr>"
  have "armed st' \<Longrightarrow> poll_rec p e (poll_key st')"
    using poll by (auto simp: st'_def poll_base_def split: option.splits)
  then have poll1: "poll_base p1" unfolding p1_def using poll by (intro poll_base_state)
  have ok1: "ops_ok p1 seen" using ok by (simp add: p1_def ops_ok_quiet)
  have live1: "poll_live {e} p \<Longrightarrow> poll_live {e} p1" by (auto simp: poll_live_def p1_def)
  have st: "states p1 e = Some st'" "mask st' = m" by (auto simp: p1_def st'_def split: option.splits)
  have zero: "poll_live {} (CancelPoll env e p1)" if "poll_live {e} p" "m = 0"
  proof -
    have "mask st2 = 0" if "states (CancelPoll env e p1) e = Some st2" for st2
      using poll_CancelPoll(4) [OF poll1, of env e] that st \<open>m = 0\<close> by simp
    then show ?thesis
      using poll_live_all [OF poll_CancelPoll(2) [OF poll1 live1 [OF that(1)]]] by blast
  qed
  have eq: "ModifyEventer env e m p =
      SubmitPending env (if m = 0 \<and> states p e \<noteq> None then CancelPoll env e p1 else SubmitPoll env e p1)"
    by (auto simp: ModifyEventer_def AddEventer_def p1_def st'_def Let_def split: option.splits)
  show "poll_base (ModifyEventer env e m p)"
    using poll_CancelPoll(1) [OF poll1] poll_base_SubmitPoll [OF ok1 poll1]
    by (simp add: eq poll_SubmitPending)
  show "poll_live {} (ModifyEventer env e m p)" if "poll_live {e} p" "\<And>n. get_sqe env n"
    using zero [OF that(1)] poll_live_SubmitPoll [OF ok1 live1 [OF that(1)] that(2)]
    by (simp add: eq poll_SubmitPending)
qed

lemma AddEventer_Modify:
  "AddEventer env e m p = ModifyEventer env e m (p\<lparr>states := (states p)(e := None)\<rparr>)"
  by (simp add: ModifyEventer_def AddEventer_def)

lemma poll_forget:
  "poll_base p \<Longrightarrow> poll_base (p\<lparr>states := (states p)(e := None)\<rparr>)"
  "poll_live E p \<Longrightarrow> poll_live E' (p\<lparr>states := (states p)(e := None)\<rparr>)" if "E \<subseteq> insert e E'"
proof -
  have "poll_rec (p\<lparr>states := s\<rparr>) = poll_rec p" for s by (simp add: fun_eq_iff poll_rec_def)
  then show "poll_base p \<Longrightarrow> poll_base (p\<lparr>states := (states p)(e := None)\<rparr>)"
    by (auto simp: poll_base_def)
  show "poll_live E p \<Longrightarrow> poll_live E' (p\<lparr>states := (states p)(e := None)\<rparr>)"
    using that by (auto simp: poll_live_def)
qed


lemma poll_api:
  assumes "poller_api env p q" and "ops_ok p seen" and "poll_base p" and "next_key p < key_bound"
  shows "poll_base q \<and> (poll_live {} p \<longrightarrow> (\<forall>n. get_sqe env n) \<longrightarrow> poll_live {} q)"
  using assms
proof (induction rule: poller_api.induct)
  case (add p e m)
  let ?p = "p\<lparr>states := (states p)(e := None)\<rparr>"
  have "ops_ok ?p seen" "next_key ?p < key_bound" "poll_base ?p"
    using add.prems poll_forget(1) [of "{}" e "{}" p] by (simp_all add: ops_ok_quiet)
  from poll_ModifyEventer [OF this] poll_forget(2) [of "{}" e "{e}" p] show ?case
    by (auto simp: AddEventer_Modify)
next
  case (modify p e m)
  have "poll_live {} p \<Longrightarrow> poll_live {e} p" by (simp add: poll_live_def)
  with poll_ModifyEventer [OF modify.prems(1,3,2)] show ?case by auto
next
  case (remove p e)
  have "poll_live {} p \<Longrightarrow> poll_live {e} p" by (simp add: poll_live_def)
  then have "poll_live {} p \<Longrightarrow> poll_live {e} (CancelPoll env e p)" "poll_base (CancelPoll env e p)"
    using poll_CancelPoll(1,2) [OF remove.prems(2)] by auto
  with poll_forget [of "{e}" e "{}" "CancelPoll env e p"] show ?case
    by (auto simp: RemoveEventer_def Let_def)
next
  case (multishot p e g fn ctx del)
  then show ?case using poll_submit_op [OF multishot.prems(1,2)]
    by (auto simp: SubmitReadMultishot_def mk_op_def)
next
  case (cancel p k)
  have "\<forall>op. ops p k = Some op \<longrightarrow> op_type op \<noteq> kPoll"
    using cancel.hyps cancel.prems(1) by (auto simp: safe_key_def poll_at_def ops_ok_def)
  then show ?case using poll_CancelOp [OF cancel.prems(2)] by auto
next
  case (limit p n)
  then show ?case by (auto simp: SetCqeBatchLimit_def poll_defs)
next
  case (budget p t)
  then show ?case by (auto simp: SetCqeTimeBudgetUs_def poll_defs)
next
  case (read_op p e fn ctx del)
  then show ?case using poll_submit_op [OF read_op.prems(1,2)] by (auto simp: SubmitRead_def mk_op_def)
next
  case (write_op p e fn ctx del)
  then show ?case using poll_submit_op [OF write_op.prems(1,2)] by (auto simp: SubmitWrite_def mk_op_def)
next
  case (accept_op p fd ctx fn ms del)
  then show ?case using poll_submit_op [OF accept_op.prems(1,2)] by (auto simp: SubmitAccept_def mk_op_def)
qed

lemma poll_apis:
  assumes "(poller_api env)\<^sup>*\<^sup>* p q" and "key_count p" and "few_calls q"
    and "ops_ok p seen" and "poll_base p"
  shows "poll_base q \<and> (poll_live {} p \<longrightarrow> (\<forall>n. get_sqe env n) \<longrightarrow> poll_live {} q)"
proof -
  have "ops_ok q seen \<and> poll_base q \<and> (poll_live {} p \<longrightarrow> (\<forall>n. get_sqe env n) \<longrightarrow> poll_live {} q)"
    using assms(1-3)
  proof (rule apis_induct)
    fix q r
    assume "poller_api env q r" "next_key q < key_bound"
      "ops_ok q seen \<and> poll_base q \<and> (poll_live {} p \<longrightarrow> (\<forall>n. get_sqe env n) \<longrightarrow> poll_live {} q)"
    then show "ops_ok r seen \<and> poll_base r \<and> (poll_live {} p \<longrightarrow> (\<forall>n. get_sqe env n) \<longrightarrow> poll_live {} r)"
      using ops_ok_api poll_api by blast
  qed (use assms in simp_all)
  then show ?thesis by blast
qed

text \<open>Keys are not used again.\<close>

lemma word_less_next: "k < next_key p \<Longrightarrow> next_key p < key_bound \<Longrightarrow> k < next_key p + 1 \<and> k \<noteq> next_key p"
  using key_succ(2) [of "next_key p" k] by auto

lemma submit_op_fresh:
  assumes "ops_ok p seen" and "next_key p < key_bound" and "k < next_key p" and "ops p k = None"
  shows "k < next_key (snd (submit_op env mo mk 0 p)) \<and> ops (snd (submit_op env mo mk 0 p)) k = None"
proof -
  have nz: "0 < next_key p" using assms(1) by (simp add: ops_ok_def)
  show ?thesis using word_less_next [OF assms(3,2)] assms(4) by (simp add: submit_op_fields [OF nz])
qed

lemma SubmitPoll_fresh:
  assumes "ops_ok p seen" and "next_key p < key_bound" and "k < next_key p" and "ops p k = None"
  shows "k < next_key (SubmitPoll env e p) \<and> ops (SubmitPoll env e p) k = None"
proof -
  have nz: "0 < next_key p" using assms(1) by (simp add: ops_ok_def)
  note k = word_less_next [OF assms(3,2)]
  show ?thesis
  proof (cases "\<exists>st. states p e = Some st \<and> mask st \<noteq> 0 \<and> \<not> armed st \<and> get_sqe env (sqe_calls p)")
    case True
    then obtain st where st: "states p e = Some st" "mask st \<noteq> 0" "\<not> armed st"
      "get_sqe env (sqe_calls p)" by blast
    show ?thesis using k assms(4) by (simp add: SubmitPoll_armed [OF st(1-3) nz st(4)])
  next
    case False
    show ?thesis using k assms(3,4) SubmitPoll_idle [OF nz False] by auto
  qed
qed

lemma CancelPoll_keys: "ops (CancelPoll env e p) = ops p" "next_key (CancelPoll env e p) = next_key p"
  by (auto simp: CancelPoll_def io_uring_get_sqe_def prep_def Let_def split: option.splits)

lemma SubmitPending_keys:
  "ops (SubmitPending env p) = ops p" "next_key (SubmitPending env p) = next_key p"
  by (simp_all add: SubmitPending_def Let_def)

lemma CancelOp_fresh:
  "ops p k = None \<Longrightarrow> ops (CancelOp env j p) k = None" "next_key (CancelOp env j p) = next_key p"
  by (auto simp: CancelOp_def io_uring_get_sqe_def prep_def SubmitPending_keys Let_def
      split: option.splits)

lemma api_fresh:
  assumes "poller_api env p q" and "ops_ok p seen" and "k < next_key p" and "ops p k = None"
    and "next_key p < key_bound"
  shows "k < next_key q \<and> ops q k = None"
  using assms
proof (induction rule: poller_api.induct)
  case (add p e m)
  then show ?case
    using SubmitPoll_fresh [of "p\<lparr>states := (states p)(e \<mapsto> \<lparr>mask = m, armed = False, poll_key = 0\<rparr>)\<rparr>" seen]
    by (simp add: AddEventer_def SubmitPending_keys ops_ok_quiet)
next
  case (modify p e m)
  have "k < next_key (SubmitPoll env e (p\<lparr>states := s\<rparr>)) \<and> ops (SubmitPoll env e (p\<lparr>states := s\<rparr>)) k = None"
    for s using SubmitPoll_fresh [of "p\<lparr>states := s\<rparr>" seen] modify by (simp add: ops_ok_quiet)
  then show ?case
    using modify by (auto simp: ModifyEventer_def AddEventer_def SubmitPending_keys CancelPoll_keys
        Let_def split: option.splits)
next
  case (multishot p e g fn ctx del)
  then show ?case using submit_op_fresh [of p seen k] by (auto simp: SubmitReadMultishot_def)
qed (auto simp: RemoveEventer_def CancelPoll_keys CancelOp_fresh SetCqeBatchLimit_def Let_def
    SetCqeTimeBudgetUs_def SubmitRead_def SubmitWrite_def SubmitAccept_def submit_op_fresh)

lemma apis_fresh:
  assumes "(poller_api env)\<^sup>*\<^sup>* p q" and "key_count p" and "few_calls q"
    and "ops_ok p seen" and "k < next_key p" and "ops p k = None"
  shows "k < next_key q \<and> ops q k = None"
proof -
  have "ops_ok q seen \<and> k < next_key q \<and> ops q k = None"
    using assms(1-3) by (rule apis_induct) (use assms in \<open>auto dest: ops_ok_api api_fresh\<close>)
  then show ?thesis by blast
qed

lemma poll_base_take:
  assumes "poll_base p" and "\<And>e st. states p e = Some st \<Longrightarrow> armed st \<Longrightarrow> poll_key st \<noteq> k"
  shows "poll_base (p\<lparr>ops := (ops p)(k := None)\<rparr>)"
  using assms by (auto simp: poll_defs)

lemma poll_key_rec:
  assumes "poll_base p" and "states p e = Some st" and "armed st" and "ops p (poll_key st) = Some op"
  shows "op_type op = kPoll \<and> op_eventer op = Some e"
  using assms by (auto simp: poll_defs split: option.splits)

lemma poll_other:
  assumes poll: "poll_base p" and op: "ops p k = Some op" and other: "op_type op \<noteq> kPoll"
  shows "poll_base (p\<lparr>ops := (ops p)(k := None)\<rparr>)"
proof (rule poll_base_take [OF poll])
  show "poll_key st \<noteq> k" if "states p e = Some st" "armed st" for e st
    using poll_key_rec [OF poll that, of op] op other by auto
qed

text \<open>A completed poll: its eventer is armed again.\<close>

lemma poll_dispatch_poll:
  assumes ok: "ops_ok (p\<lparr>ops := (ops p)(k := None)\<rparr>) seen" and poll: "poll_base p"
    and op: "ops p k = Some op" "op_type op = kPoll"
    and q: "states q = states p" "ops q = (ops p)(k := None)" "ops_ok q seen"
    and op': "op_type op' = kPoll" "op_eventer op' = op_eventer op"
  shows "poll_base (snd (dispatch env c op' q))"
    and "poll_live {} p \<Longrightarrow> (\<And>n. get_sqe env n) \<Longrightarrow> poll_live {} (snd (dispatch env c op' q))"
proof -
  have key: "poll_key st \<noteq> k" if "states p e = Some st" "armed st" "op_eventer op \<noteq> Some e" for e st
    using poll_key_rec [OF poll that(1,2), of op] op that(3) by auto
  define r where "r = (case op_eventer op of
      None \<Rightarrow> q
    | Some e \<Rightarrow> (case states p e of
        None \<Rightarrow> q | Some st \<Rightarrow> q\<lparr>states := (states q)(e \<mapsto> st\<lparr>armed := False\<rparr>)\<rparr>))"
  have r: "ops r = (ops p)(k := None)" "ops_ok r seen"
    using q by (auto simp: r_def ops_ok_quiet split: option.splits)
  have "states p e = Some st \<and> op_eventer op \<noteq> Some e" if "states r e = Some st" "armed st" for e st
    using that q(1) by (auto simp: r_def split: option.splits if_splits)
  then have "poll_key st \<noteq> k \<and> states p e = Some st" if "states r e = Some st" "armed st" for e st
    using that key by blast
  then have base: "poll_base r"
    using poll by (auto simp: poll_base_def poll_rec_def r(1) split: if_splits)
  have live: "poll_live (set_option (op_eventer op)) r" if "poll_live {} p"
    using that q(1) by (auto simp: r_def poll_live_def split: option.splits if_splits)
  have d: "snd (dispatch env c op' q) =
      (case op_eventer op of
         None \<Rightarrow> r
       | Some e \<Rightarrow> (case states p e of None \<Rightarrow> r | Some st \<Rightarrow> SubmitPoll env e r))"
    using op' q(1) by (auto simp: dispatch_def r_def split: option.splits)
  show "poll_base (snd (dispatch env c op' q))"
    using base poll_base_SubmitPoll [OF r(2) base] by (simp add: d split: option.splits)
  show "poll_live {} (snd (dispatch env c op' q))" if "poll_live {} p" "\<And>n. get_sqe env n"
  proof (cases "op_eventer op")
    case None
    then show ?thesis using live [OF that(1)] by (simp add: d)
  next
    case (Some e)
    have l: "poll_live {e} r" using live [OF that(1)] Some by simp
    show ?thesis
    proof (cases "states p e")
      case None
      then have "poll_live {} r" using l Some q(1) by (intro poll_live_all [OF l]) (simp add: r_def)
      then show ?thesis using Some None by (simp add: d)
    next
      case st: (Some st)
      then show ?thesis using poll_live_SubmitPoll [OF r(2) l that(2)] Some by (simp add: d)
    qed
  qed
qed

lemma dispatch_other:
  assumes "op_type op \<noteq> kPoll"
  shows "states (snd (dispatch env c op p)) = states p" "ops (snd (dispatch env c op p)) = ops p"
  using assms
  by (auto simp: dispatch_def ReleaseBufferFromCqe_def io_uring_get_sqe_def prep_def
      split: OpType.splits option.splits)

lemma Cleanup_fields:
  "states (snd (CleanupOpContext op p)) = states p" "ops (snd (CleanupOpContext op p)) = ops p"
  "op_type (fst (CleanupOpContext op p)) = op_type op"
  "op_eventer (fst (CleanupOpContext op p)) = op_eventer op"
  by (simp_all add: CleanupOpContext_def split: option.splits)


section \<open>Keys given out stay safe\<close>

definition keeps :: "('x, 'f) poller \<Rightarrow> ('x, 'f) poller \<Rightarrow> bool" where
  "keeps p q \<longleftrightarrow> next_key p \<le> next_key q \<and> (\<forall>k. poll_at q k \<longrightarrow> poll_at p k \<or> next_key p \<le> k)"

lemma keeps_trans: "keeps p q \<Longrightarrow> keeps q r \<Longrightarrow> keeps p r"
  unfolding keeps_def by (metis order_trans)

lemma keeps_safe: "keeps p q \<Longrightarrow> safe_key p k \<Longrightarrow> safe_key q k"
  unfolding keeps_def safe_key_def by (metis leD less_le_trans)

lemma keeps_same: "next_key q = next_key p \<Longrightarrow> (\<And>k. poll_at q k \<Longrightarrow> poll_at p k) \<Longrightarrow> keeps p q"
  by (simp add: keeps_def)

lemma prep_simps [simp]:
  "states (prep s p) = states p" "ops (prep s p) = ops p" "next_key (prep s p) = next_key p"
  "deleted (prep s p) = deleted p"
  by (simp_all add: prep_def)

lemma SubmitPending_simps [simp]:
  "states (SubmitPending env p) = states p" "ops (SubmitPending env p) = ops p"
  "next_key (SubmitPending env p) = next_key p" "deleted (SubmitPending env p) = deleted p"
  "sqe_calls (SubmitPending env p) = sqe_calls p"
  by (simp_all add: SubmitPending_def Let_def)

lemma keeps_submit_op:
  assumes "0 < next_key p" and "next_key p < key_bound"
  shows "keeps p (snd (submit_op env mo mk 0 p))"
  using submit_op_fields [OF assms(1), of env mo mk] key_succ(1) [OF assms(2)]
  by (auto simp: keeps_def poll_at_def split: if_splits)

lemma keeps_SubmitPoll:
  assumes nz: "0 < next_key p" and "next_key p < key_bound"
  shows "keeps p (SubmitPoll env e (p\<lparr>states := s\<rparr>))"
  using NormalizeKey_0 [of "p\<lparr>states := s\<rparr>"] nz key_succ(1) [OF assms(2)]
  by (auto simp: keeps_def poll_at_def SubmitPoll_def io_uring_get_sqe_def Let_def
      split: option.splits if_splits)

lemma keeps_pending: "keeps p (SubmitPending env q) = keeps p q"
  by (simp add: keeps_def poll_at_def)

lemma keeps_CancelPoll: "keeps p (CancelPoll env e (p\<lparr>states := s\<rparr>))"
  by (rule keeps_same) (auto simp: CancelPoll_keys poll_at_def)

lemma keeps_CancelOp: "keeps p (CancelOp env k p)"
  by (rule keeps_same)
    (auto simp: CancelOp_def io_uring_get_sqe_def poll_at_def Let_def split: option.splits if_splits)

lemma keeps_api:
  assumes "poller_api env p q" and ok: "ops_ok p seen" and "next_key p < key_bound"
  shows "keeps p q"
proof -
  have nz: "0 < next_key p" using ok by (simp add: ops_ok_def)
  note sub = keeps_submit_op [OF nz assms(3)] keeps_SubmitPoll [OF nz assms(3)]
  show ?thesis using assms(1)
  proof cases
    case (remove e)
    then show ?thesis
      using keeps_CancelPoll [of p env e "states p"]
      by (simp add: RemoveEventer_def Let_def keeps_def poll_at_def)
  qed (auto simp: AddEventer_def ModifyEventer_def SubmitRead_def SubmitReadMultishot_def SubmitWrite_def
      SubmitAccept_def SetCqeBatchLimit_def SetCqeTimeBudgetUs_def keeps_pending keeps_CancelPoll
      keeps_CancelOp sub Let_def poll_at_def split: option.splits intro: keeps_same)
qed


section \<open>The outcomes of a completion\<close>

abbreviation cqe_poller where
  "cqe_poller env complete c p w \<equiv> fst (snd (HandleCqe env complete c p w))"

abbreviation cqe_world where
  "cqe_world env complete c p w \<equiv> snd (snd (HandleCqe env complete c p w))"

definition cleaned ::
  "('x, 'f) IoUringOp \<Rightarrow> ('x, 'f) poller \<Rightarrow> ('x, 'f) IoUringOp \<times> ('x, 'f) poller" where
  "cleaned op p = (if op_context op \<noteq> None then CleanupOpContext op p else (op, p))"

definition taken :: "64 word \<Rightarrow> ('x, 'f) poller \<Rightarrow> ('x, 'f) poller" where
  "taken k p = p\<lparr>ops := (ops p)(k := None)\<rparr>"

lemma taken_fields [simp]:
  "states (taken k p) = states p" "ops (taken k p) = (ops p)(k := None)"
  "next_key (taken k p) = next_key p" "deleted (taken k p) = deleted p"
  "sqe_calls (taken k p) = sqe_calls p"
  by (simp_all add: taken_def)

lemma HandleCqe_cases:
  assumes "user_data c \<noteq> 0" and "ops p (user_data c) = Some op"
  obtains
    (plain) "op_completion op = None" "cqe_world env complete c p w = w"
      "cqe_poller env complete c p w =
        snd (dispatch env c (fst (cleaned op (taken (user_data c) p))) (snd (cleaned op (taken (user_data c) p))))"
  | (unowned) fn where "op_completion op = Some fn" "cqe_world env complete c p w = w"
      "cqe_poller env complete c p w =
        ReleaseBufferFromCqe env c (snd (CleanupOpContext op (taken (user_data c) p)))"
  | (called) fn op' p2 where "op_completion op = Some fn"
      "complete fn c op (taken (user_data c) p) w = (op', p2, cqe_world env complete c p w)"
      "cqe_poller env complete c p w =
        (let p3 = ReleaseBufferFromCqe env c p2
         in if cqe_more c \<and> op_context op' \<noteq> None
            then p3\<lparr>ops := (ops p3)(user_data c \<mapsto> op')\<rparr> else p3)"
proof -
  let ?p = "taken (user_data c) p"
  let ?dead = "(op_type op = kRead \<or> op_type op = kWrite) \<and> \<not> alive (op_eventer op) ?p"
  have look: "LookupOp (user_data c) p = (Some op, ?p)"
    using assms by (simp add: LookupOp_def taken_def)
  show thesis
  proof (cases "op_completion op")
    case None
    then show thesis
      using look assms(1) by (intro plain) (auto simp: HandleCqe_def cleaned_def Let_def case_prod_beta)
  next
    case (Some fn)
    obtain op' p2 w' where call: "complete fn c op ?p w = (op', p2, w')" by (metis surj_pair)
    show thesis
    proof (cases ?dead)
      case True
      then show thesis
        using look assms(1) Some by (intro unowned) (auto simp: HandleCqe_def Let_def)
    next
      case False
      then have "HandleCqe env complete c p w =
          ([], let p3 = ReleaseBufferFromCqe env c p2
               in if cqe_more c \<and> op_context op' \<noteq> None
                  then p3\<lparr>ops := (ops p3)(user_data c \<mapsto> op')\<rparr> else p3, w')"
        using look assms(1) Some call by (auto simp: HandleCqe_def Let_def)
      then show thesis using call Some by (intro called) simp_all
    qed
  qed
qed

lemma HandleCqe_unknown:
  assumes "user_data c = 0 \<or> ops p (user_data c) = None"
  shows "HandleCqe env complete c p w = ([], ReleaseBufferFromCqe env c p, w)"
  using assms by (auto simp: HandleCqe_def LookupOp_def Let_def)

lemma cleaned_fields:
  "states (snd (cleaned op p)) = states p" "ops (snd (cleaned op p)) = ops p"
  "op_type (fst (cleaned op p)) = op_type op" "op_eventer (fst (cleaned op p)) = op_eventer op"
  "next_key (snd (cleaned op p)) = next_key p" "sqe_calls (snd (cleaned op p)) = sqe_calls p"
  "ops_ok (snd (cleaned op p)) seen = ops_ok p seen"
  by (auto simp: cleaned_def Cleanup_fields ops_ok_Cleanup next_key_Cleanup CleanupOpContext_def
      ops_ok_quiet split: option.splits)

lemma ReleaseBuffer_fields:
  "states (ReleaseBufferFromCqe env c p) = states p" "ops (ReleaseBufferFromCqe env c p) = ops p"
  "next_key (ReleaseBufferFromCqe env c p) = next_key p"
  "deleted (ReleaseBufferFromCqe env c p) = deleted p"
  by (simp_all add: ReleaseBufferFromCqe_def io_uring_get_sqe_def)

lemma dispatch_counts: "counts p (snd (dispatch env c op p))"
  by (auto simp: dispatch_def SubmitPoll_counts counts_ReleaseBuffer counts_same
      split: OpType.splits option.splits)

lemma called_facts:
  assumes "callbacks_ok env held complete" and "key_count p" and "few_calls p2"
    and "\<forall>k \<in> held w. safe_key p k" and "complete fn c op p w = (op', p2, w')"
  obtains x where "(poller_api env)\<^sup>*\<^sup>* p p2" and "op' = op\<lparr>op_context := x\<rparr>"
    and "\<forall>k \<in> held w'. safe_key p2 k"
  using assms unfolding callbacks_ok_def by blast

lemma safe_taken: "\<forall>k \<in> K. safe_key p k \<Longrightarrow> \<forall>k \<in> K. safe_key (taken j p) k"
  by (auto simp: safe_key_def poll_at_def)

lemma key_count_taken [simp]: "key_count (taken k p) = key_count p"
  by (simp add: key_count_def few_calls_def)

lemma few_called:
  assumes "few_calls r"
    and "r = (let p3 = ReleaseBufferFromCqe env c p2 in if b then p3\<lparr>ops := x p3\<rparr> else p3)"
  shows "few_calls p2"
proof -
  have "sqe_calls p2 \<le> sqe_calls r"
    using counts_ReleaseBuffer [of p2 env c] assms(2) by (simp add: counts_def Let_def)
  then show ?thesis using assms(1) by (simp add: few_calls_def)
qed

section \<open>A recorded poll is in the ring\<close>

text \<open>
  \<open>poll_ring p seen\<close>: a poll that is recorded was handed to the ring, and its completion has
  not come back (polls are not multishot: the first completion is the last).
\<close>

definition poll_ring :: "('x, 'f) poller \<Rightarrow> 64 word set \<Rightarrow> bool" where
  "poll_ring p seen \<longleftrightarrow>
     (\<forall>k op. ops p k = Some op \<longrightarrow> op_type op = kPoll \<longrightarrow> k \<in> ring_keys p \<and> k \<notin> seen)"

text \<open>A step that keeps \<open>poll_ring\<close>: it takes nothing out of the ring, and a new poll is in it.\<close>

definition ring_grows :: "64 word set \<Rightarrow> ('x, 'f) poller \<Rightarrow> ('x, 'f) poller \<Rightarrow> bool" where
  "ring_grows seen p q \<longleftrightarrow> ring_keys p \<subseteq> ring_keys q \<and>
     (\<forall>k. poll_at q k \<longrightarrow> poll_at p k \<or> k \<in> ring_keys q \<and> k \<notin> seen)"

lemma poll_ring_at: "poll_ring p seen \<longleftrightarrow> (\<forall>k. poll_at p k \<longrightarrow> k \<in> ring_keys p \<and> k \<notin> seen)"
  by (auto simp: poll_ring_def poll_at_def split: option.splits)

lemma poll_ring_grows: "ring_grows seen p q \<Longrightarrow> poll_ring p seen \<Longrightarrow> poll_ring q seen"
  by (auto simp: ring_grows_def poll_ring_at)

lemma ring_grows_refl [intro]: "ring_grows seen p p"
  by (simp add: ring_grows_def)

lemma ring_grows_trans: "ring_grows seen p q \<Longrightarrow> ring_grows seen q r \<Longrightarrow> ring_grows seen p r"
  by (auto simp: ring_grows_def)

lemma ring_grows_eq: "ops q = ops p \<Longrightarrow> ring_keys p \<subseteq> ring_keys q \<Longrightarrow> ring_grows seen p q"
  by (simp add: ring_grows_def poll_at_def)

lemma ring_keys_simps [simp]:
  "ring_keys (p\<lparr>states := s\<rparr>) = ring_keys p" "ring_keys (p\<lparr>ops := o'\<rparr>) = ring_keys p"
  "ring_keys (p\<lparr>next_key := n\<rparr>) = ring_keys p" "ring_keys (p\<lparr>sqe_calls := c\<rparr>) = ring_keys p"
  "ring_keys (p\<lparr>cqe_batch_limit := n'\<rparr>) = ring_keys p"
  "ring_keys (p\<lparr>cqe_time_budget_us := t\<rparr>) = ring_keys p"
  "ring_keys (p\<lparr>deleted := d\<rparr>) = ring_keys p"
  "ring_keys (prep s' p) = set (ring_key s') \<union> ring_keys p"
  "ring_keys (SubmitPending env p) = ring_keys p"
  by (auto simp: ring_keys_def prep_def SubmitPending_def Let_def)

lemma ring_grows_submit_op:
  assumes "\<And>k. op_type (mo k) \<noteq> kPoll" and "0 < next_key p"
  shows "ring_grows seen p (snd (submit_op env mo mk 0 p))"
  using assms(1) NormalizeKey_0 [OF assms(2)]
  by (auto simp: ring_grows_def submit_op_def io_uring_get_sqe_def poll_at_def split: if_splits)

lemma ring_grows_SubmitPoll:
  assumes "ops_ok p seen"
  shows "ring_grows seen p (SubmitPoll env e p)"
proof -
  have nz: "0 < next_key p" and fresh: "next_key p \<notin> seen"
    using assms by (auto simp: ops_ok_def)
  show ?thesis
    using NormalizeKey_0 [OF nz] fresh
    by (auto simp: ring_grows_def SubmitPoll_def io_uring_get_sqe_def poll_at_def Let_def
        split: option.splits if_splits)
qed

lemma ring_grows_CancelPoll: "ring_grows seen p (CancelPoll env e p)"
  by (rule ring_grows_eq)
    (auto simp: CancelPoll_def io_uring_get_sqe_def Let_def split: option.splits)

lemma ring_grows_CancelOp: "ring_grows seen p (CancelOp env k p)"
  by (auto simp: ring_grows_def CancelOp_def io_uring_get_sqe_def poll_at_def Let_def
      split: option.splits if_splits)

lemma ring_grows_states: "ring_grows seen (p\<lparr>states := s\<rparr>) q = ring_grows seen p q"
  by (simp add: ring_grows_def poll_at_def)

lemma ring_grows_pending: "ring_grows seen p (SubmitPending env q) = ring_grows seen p q"
  by (simp add: ring_grows_def poll_at_def)

lemma ring_grows_ModifyEventer:
  assumes "ops_ok p seen"
  shows "ring_grows seen p (ModifyEventer env e m p)" and "ring_grows seen p (AddEventer env e m p)"
proof -
  have "ring_grows seen p (SubmitPoll env e (p\<lparr>states := s\<rparr>))" for s
    using ring_grows_SubmitPoll [of "p\<lparr>states := s\<rparr>" seen] assms
    by (simp add: ops_ok_quiet ring_grows_states)
  moreover have "ring_grows seen p (CancelPoll env e (p\<lparr>states := s\<rparr>))" for s
    using ring_grows_CancelPoll [of seen "p\<lparr>states := s\<rparr>"] by (simp add: ring_grows_states)
  ultimately show "ring_grows seen p (ModifyEventer env e m p)" "ring_grows seen p (AddEventer env e m p)"
    by (simp_all add: ModifyEventer_def AddEventer_def ring_grows_pending Let_def split: option.splits)
qed

lemma ring_grows_api:
  assumes "poller_api env p q" and "ops_ok p seen"
  shows "ring_grows seen p q"
proof -
  have nz: "0 < next_key p" using assms(2) by (simp add: ops_ok_def)
  show ?thesis
    using assms(1)
  proof cases
    case (remove e)
    then show ?thesis using ring_grows_CancelPoll [of seen p env e]
      by (simp add: RemoveEventer_def Let_def ring_grows_def poll_at_def)
  qed (auto simp: ring_grows_ModifyEventer [OF assms(2)] ring_grows_CancelOp SubmitRead_def
      SubmitReadMultishot_def SubmitWrite_def SubmitAccept_def mk_op_def SetCqeBatchLimit_def
      SetCqeTimeBudgetUs_def intro: ring_grows_submit_op nz ring_grows_eq)
qed

lemma poll_ring_apis:
  assumes "(poller_api env)\<^sup>*\<^sup>* p q" and "key_count p" and "few_calls q"
    and "ops_ok p seen" and "poll_ring p seen"
  shows "poll_ring q seen"
proof -
  have "ops_ok q seen \<and> poll_ring q seen"
    using assms(1-3) by (rule apis_induct)
      (use assms in \<open>auto dest: ops_ok_api poll_ring_grows [OF ring_grows_api]\<close>)
  then show ?thesis by blast
qed

lemma ring_grows_ReleaseBuffer: "ring_grows seen p (ReleaseBufferFromCqe env c p)"
  by (rule ring_grows_eq) (auto simp: ReleaseBufferFromCqe_def io_uring_get_sqe_def)

lemma ring_grows_cleaned:
  "ring_grows seen p (snd (CleanupOpContext op p))" "ring_grows seen p (snd (cleaned op p))"
  by (rule ring_grows_eq; simp add: cleaned_def CleanupOpContext_def split: option.splits)+

lemma ring_grows_dispatch:
  assumes "ops_ok p seen"
  shows "ring_grows seen p (snd (dispatch env c op p))"
proof -
  have "ring_grows seen p (SubmitPoll env e (p\<lparr>states := s\<rparr>))" for e s
    using ring_grows_SubmitPoll [of "p\<lparr>states := s\<rparr>" seen] assms
    by (simp add: ops_ok_quiet ring_grows_states)
  then show ?thesis
    by (auto simp: dispatch_def ring_grows_ReleaseBuffer split: OpType.splits option.splits)
qed

section \<open>Contexts live until their completion\<close>

definition ctx_kept :: "64 word \<Rightarrow> ('x, 'f) poller \<Rightarrow> ('x, 'f) poller \<Rightarrow> bool" where
  "ctx_kept k p q \<longleftrightarrow>
     (\<forall>op. ops p k = Some op \<longrightarrow> (\<exists>op'. ops q k = Some op' \<and> op_context op' = op_context op))"

lemma ctx_kept_trans: "ctx_kept k p q \<Longrightarrow> ctx_kept k q r \<Longrightarrow> ctx_kept k p r"
  unfolding ctx_kept_def by metis

lemma ctx_kept_ops: "ops q k = ops p k \<Longrightarrow> ctx_kept k p q"
  by (simp add: ctx_kept_def)

lemma submit_op_ctx:
  assumes "ops_ok p seen" and "k \<noteq> next_key p"
  shows "ops (snd (submit_op env mo mk 0 p)) k = ops p k"
    and "deleted (snd (submit_op env mo mk 0 p)) = deleted p"
proof -
  have "0 < next_key p" using assms(1) by (simp add: ops_ok_def)
  from submit_op_fields [OF this] assms(2)
  show "ops (snd (submit_op env mo mk 0 p)) k = ops p k"
    "deleted (snd (submit_op env mo mk 0 p)) = deleted p" by simp_all
qed

lemma SubmitPoll_ctx:
  assumes "ops_ok p seen" and "k \<noteq> next_key p"
  shows "ops (SubmitPoll env e (p\<lparr>states := s\<rparr>)) k = ops p k"
    and "deleted (SubmitPoll env e (p\<lparr>states := s\<rparr>)) = deleted p"
proof -
  have "0 < next_key (p\<lparr>states := s\<rparr>)" using assms(1) by (simp add: ops_ok_def)
  from NormalizeKey_0 [OF this] assms(2)
  show "ops (SubmitPoll env e (p\<lparr>states := s\<rparr>)) k = ops p k"
    "deleted (SubmitPoll env e (p\<lparr>states := s\<rparr>)) = deleted p"
    by (auto simp: SubmitPoll_def io_uring_get_sqe_def Let_def split: option.splits)
qed

lemma Cancel_ctx:
  "ops (CancelPoll env e q) = ops q" "deleted (CancelPoll env e q) = deleted q"
  "ctx_kept k p (CancelOp env j p)" "deleted (CancelOp env j p) = deleted p"
  by (auto simp: CancelPoll_def CancelOp_def io_uring_get_sqe_def ctx_kept_def Let_def
      split: option.splits)

lemma recorded_old: "ops_ok p seen \<Longrightarrow> ops p k = Some op \<Longrightarrow> k \<noteq> next_key p"
  by (auto simp: ops_ok_def)

lemma api_ctx:
  assumes "poller_api env p q" and ok: "ops_ok p seen" and k: "k \<noteq> next_key p"
  shows "ctx_kept k p q \<and> deleted q = deleted p"
  using assms(1)
proof cases
  case (add e m)
  then show ?thesis
    by (simp add: AddEventer_def SubmitPoll_ctx [OF ok k] ctx_kept_ops)
next
  case (modify e m)
  then show ?thesis
    by (simp add: ModifyEventer_def AddEventer_def SubmitPoll_ctx [OF ok k] ctx_kept_ops Cancel_ctx
        Let_def split: option.splits)
next
  case (cancel j)
  then show ?thesis by (simp add: Cancel_ctx)
qed (simp_all add: RemoveEventer_def SubmitRead_def SubmitWrite_def SubmitReadMultishot_def
    SubmitAccept_def SetCqeBatchLimit_def SetCqeTimeBudgetUs_def Let_def ctx_kept_ops
    submit_op_ctx [OF ok k] Cancel_ctx)

lemma apis_ctx:
  assumes "(poller_api env)\<^sup>*\<^sup>* p q" and "key_count p" and "few_calls q"
    and ok: "ops_ok p seen" and op: "ops p k = Some op"
  shows "deleted q = deleted p \<and> (\<exists>op'. ops q k = Some op' \<and> op_context op' = op_context op)"
proof -
  let ?P = "\<lambda>q. ops_ok q seen \<and> deleted q = deleted p \<and> (\<exists>op'. ops q k = Some op' \<and> op_context op' = op_context op)"
  have "?P q"
    using assms(1-3)
  proof (rule apis_induct)
    fix q r
    assume api: "poller_api env q r" "next_key q < key_bound" and P: "?P q"
    then obtain op' where op': "ops q k = Some op'" "op_context op' = op_context op" by blast
    have "ctx_kept k q r \<and> deleted r = deleted q"
      using api_ctx [OF api(1)] P recorded_old [OF _ op'(1)] by blast
    then show "?P r" using P op' ops_ok_api [OF api(1) _ api(2)] by (auto simp: ctx_kept_def)
  qed (use ok op in simp)
  then show ?thesis by blast
qed

lemma dispatch_ctx:
  assumes "ops_ok p seen" and "k \<noteq> next_key p"
  shows "ops (snd (dispatch env c op p)) k = ops p k \<and> deleted (snd (dispatch env c op p)) = deleted p"
  by (auto simp: dispatch_def SubmitPoll_ctx [OF assms] ReleaseBufferFromCqe_def io_uring_get_sqe_def
      split: OpType.splits option.splits)

definition frees_only :: "('x, 'f) IoUringOp \<Rightarrow> ('x, 'f) poller \<Rightarrow> ('x, 'f) poller \<Rightarrow> bool" where
  "frees_only op p q \<longleftrightarrow> deleted q = deleted p \<or>
     (\<exists>x. op_context op = Some x \<and> op_deleter op \<and> deleted q = deleted p @ [x])"

section \<open>Completions keep the invariants\<close>

text \<open>What holds between completions; \<open>seen\<close> are the keys of the completions handled.\<close>

definition poller_inv :: "('x, 'f) poller \<Rightarrow> 64 word set \<Rightarrow> bool" where
  "poller_inv p seen \<longleftrightarrow> ops_ok p seen \<and> poll_base p \<and> poll_ring p seen \<and> key_count p"

lemma poller_inv_apis:
  assumes "(poller_api env)\<^sup>*\<^sup>* p q" and "few_calls q" and "poller_inv p seen"
  shows "poller_inv q seen"
proof -
  have inv: "ops_ok p seen" "poll_base p" "poll_ring p seen" "key_count p"
    using assms(3) by (simp_all add: poller_inv_def)
  have "key_count q" using apis_counts [OF assms(1)] inv(4) by (simp add: counts_def)
  then show ?thesis
    using ops_ok_apis [OF assms(1) inv(4) assms(2) inv(1)] poll_ring_apis [OF assms(1) inv(4) assms(2) inv(1,3)]
      poll_apis [OF assms(1) inv(4) assms(2) inv(1,2)] by (simp add: poller_inv_def)
qed

text \<open>The operation is taken out of the record; what is left keeps the invariant unless it was a poll.\<close>

lemma poller_inv_taken:
  assumes "poller_inv p seen" and "ops p k = Some op" and "op_type op \<noteq> kPoll"
  shows "poller_inv (taken k p) (insert k seen)"
proof -
  have "poll_ring (taken k p) (insert k seen)"
    using assms(1) by (auto simp: poller_inv_def poll_ring_def taken_def)
  then show ?thesis
    using assms poll_other [of p k op] ops_ok_taken [of p seen k]
    by (simp add: poller_inv_def) (simp add: taken_def)
qed

lemma poller_inv_quiet:
  assumes "poller_inv p seen" and "states q = states p" and "ops q = ops p" and "counts p q"
    and "ring_keys p \<subseteq> ring_keys q" and "ops_ok q seen"
  shows "poller_inv q seen"
  using assms poll_quiet(1) [OF assms(2,3)] by (auto simp: poller_inv_def poll_ring_def counts_def)

lemma ReleaseBuffer_ring: "ring_keys p \<subseteq> ring_keys (ReleaseBufferFromCqe env c p)"
  by (auto simp: ReleaseBufferFromCqe_def io_uring_get_sqe_def)

lemma poller_inv_ReleaseBuffer: "poller_inv p seen \<Longrightarrow> poller_inv (ReleaseBufferFromCqe env c p) seen"
  by (rule poller_inv_quiet)
    (auto simp: ReleaseBuffer_fields counts_ReleaseBuffer ops_ok_ReleaseBuffer poller_inv_def
      dest: subsetD [OF ReleaseBuffer_ring])

lemma Cleanup_counts:
  "ring_keys (snd (CleanupOpContext op p)) = ring_keys p" "counts p (snd (CleanupOpContext op p))"
  by (auto simp: CleanupOpContext_def counts_def key_count_def few_calls_def split: option.splits)

lemma poller_inv_Cleanup:
  assumes "poller_inv p seen"
  shows "poller_inv (snd (CleanupOpContext op p)) seen"
proof (rule poller_inv_quiet [OF assms])
  show "ops_ok (snd (CleanupOpContext op p)) seen"
    using assms by (simp add: ops_ok_Cleanup poller_inv_def)
qed (simp_all add: Cleanup_fields Cleanup_counts)

lemma dispatch_keeps:
  assumes "0 < next_key p" and "next_key p < key_bound"
  shows "keeps p (snd (dispatch env c op p))"
  by (auto simp: dispatch_def keeps_SubmitPoll [OF assms] ReleaseBuffer_fields poll_at_def
      split: OpType.splits option.splits intro: keeps_same)

lemma keeps_taken: "ops q = ops (taken k p) \<Longrightarrow> next_key q = next_key p \<Longrightarrow> keeps p q"
  by (rule keeps_same) (auto simp: poll_at_def split: if_splits)

lemma counts_plain:
  "counts p (snd (dispatch env c op' (snd (cleaned op (taken k p)))))"
  by (rule counts_trans [OF _ dispatch_counts]) (rule counts_same; simp add: cleaned_fields)

lemma poller_inv_reinsert:
  assumes "poller_inv p (insert k seen)" and "ops p k = None" and "op_type op \<noteq> kPoll"
  shows "poller_inv (p\<lparr>ops := (ops p)(k \<mapsto> op)\<rparr>) (insert k seen)"
proof -
  have inv: "ops_ok p (insert k seen)" "poll_base p" "poll_ring p (insert k seen)" "key_count p"
    using assms(1) by (simp_all add: poller_inv_def)
  have "poll_key st \<noteq> k" if "states p e = Some st" "armed st" for e st
    using fresh_poll_key(1) [OF inv(1,2) that] assms(2) by auto
  then have "poll_base (p\<lparr>ops := (ops p)(k \<mapsto> op)\<rparr>)"
    using poll_base_insert [OF inv(2) assms(3)] by blast
  moreover have "poll_ring (p\<lparr>ops := (ops p)(k \<mapsto> op)\<rparr>) (insert k seen)"
    using inv(3) assms(3) by (auto simp: poll_ring_def)
  ultimately show ?thesis
    using ops_ok_kept [OF inv(1)] inv(4) by (simp add: poller_inv_def key_count_def few_calls_def)
qed

lemma poll_live_ops: "poll_live E (p\<lparr>ops := x\<rparr>) = poll_live E p"
  by (simp add: poll_live_def)

text \<open>The invariant, and the eventers armed, after a completion without a completion function.\<close>

lemma poller_inv_plain:
  assumes inv: "poller_inv p seen" and op: "ops p k = Some op" and bound: "next_key p < key_bound"
    and q_def: "q = snd (dispatch env c (fst (cleaned op (taken k p))) (snd (cleaned op (taken k p))))"
  shows "poller_inv q (insert k seen)" and "poll_live {} p \<Longrightarrow> (\<And>n. get_sqe env n) \<Longrightarrow> poll_live {} q"
    and "keeps p q"
proof -
  let ?d = "snd (cleaned op (taken k p))"
  have ok: "ops_ok ?d (insert k seen)"
    using inv op ops_ok_taken [of p seen k] by (simp add: cleaned_fields poller_inv_def taken_def)
  have d: "states ?d = states p" "ops ?d = (ops p)(k := None)" "counts p ?d" "next_key ?d < key_bound"
    using bound by (simp_all add: cleaned_fields counts_same)
  have ring: "poll_ring q (insert k seen)"
  proof -
    have "ring_keys ?d = ring_keys p" by (auto simp: cleaned_def CleanupOpContext_def taken_def split: option.splits)
    then have "poll_ring ?d (insert k seen)"
      using inv by (auto simp: poller_inv_def poll_ring_def d(2))
    then show ?thesis unfolding q_def by (rule poll_ring_grows [OF ring_grows_dispatch [OF ok]])
  qed
  have cnt: "counts p q" unfolding q_def by (rule counts_plain)
  have "0 < next_key ?d" using ok by (simp add: ops_ok_def)
  from dispatch_keeps [OF this d(4)] show "keeps p q"
    unfolding q_def by (rule keeps_trans [OF keeps_taken, rotated 2]) (simp_all add: cleaned_fields)
  have okq: "ops_ok q (insert k seen)" unfolding q_def by (rule ops_ok_dispatch [OF ok d(4)])
  have both: "poll_base q \<and> (poll_live {} p \<longrightarrow> (\<forall>n. get_sqe env n) \<longrightarrow> poll_live {} q)"
  proof (cases "op_type op = kPoll")
    case True
    have "ops_ok (p\<lparr>ops := (ops p)(k := None)\<rparr>) (insert k seen)"
      using inv op ops_ok_taken [of p seen k] by (simp add: poller_inv_def)
    from poll_dispatch_poll [OF this _ op True, of ?d "fst (cleaned op (taken k p))"]
    show ?thesis using inv ok d True by (simp add: q_def cleaned_fields poller_inv_def)
  next
    case False
    have eq: "states q = states (taken k p)" "ops q = ops (taken k p)"
      using False by (simp_all add: q_def dispatch_other cleaned_fields)
    have "poll_base (taken k p)" using poller_inv_taken [OF inv op False] by (simp add: poller_inv_def)
    then show ?thesis using poll_quiet [OF eq] by (simp add: taken_def poll_live_ops)
  qed
  show "poller_inv q (insert k seen)"
    using both ring okq cnt inv by (simp add: poller_inv_def counts_def)
  show "poll_live {} p \<Longrightarrow> (\<And>n. get_sqe env n) \<Longrightarrow> poll_live {} q" using both by blast
qed


text \<open>The invariant, and the eventers armed, after a completion function.\<close>

lemma poller_inv_called:
  assumes inv: "poller_inv p seen" and op: "ops p k = Some op" "op_completion op = Some fn"
    and api: "(poller_api env)\<^sup>*\<^sup>* (taken k p) p2" and few: "few_calls p2" and x: "op' = op\<lparr>op_context := x\<rparr>"
    and q: "q = (let p3 = ReleaseBufferFromCqe env c p2
       in if b \<and> op_context op' \<noteq> None then p3\<lparr>ops := (ops p3)(k \<mapsto> op')\<rparr> else p3)"
  shows "poller_inv q (insert k seen)" and "poll_live {} p \<Longrightarrow> (\<And>n. get_sqe env n) \<Longrightarrow> poll_live {} q"
    and "counts p q" and "keeps p2 q"
proof -
  have no: "op_type op \<noteq> kPoll" using inv op by (auto simp: poller_inv_def poll_base_def)
  have inv1: "poller_inv (taken k p) (insert k seen)" by (rule poller_inv_taken [OF inv op(1) no])
  note parts = inv1 [unfolded poller_inv_def]
  have inv2: "poller_inv p2 (insert k seen)" by (rule poller_inv_apis [OF api few inv1])
  have "k < next_key (taken k p)" using inv op(1) by (auto simp: poller_inv_def ops_ok_def)
  then have gone: "ops p2 k = None"
    using apis_fresh [OF api _ few, of "insert k seen" k] parts by simp
  let ?p3 = "ReleaseBufferFromCqe env c p2"
  have inv3: "poller_inv ?p3 (insert k seen)" by (rule poller_inv_ReleaseBuffer [OF inv2])
  have "poller_inv (?p3\<lparr>ops := (ops ?p3)(k \<mapsto> op')\<rparr>) (insert k seen)"
    using no x gone by (intro poller_inv_reinsert [OF inv3]) (simp_all add: ReleaseBuffer_fields)
  then show "poller_inv q (insert k seen)" using inv3 by (simp add: q Let_def)
  have live: "poll_live {} (taken k p) \<Longrightarrow> (\<And>n. get_sqe env n) \<Longrightarrow> poll_live {} p2"
    using poll_apis [OF api _ few] parts by blast
  show "poll_live {} p \<Longrightarrow> (\<And>n. get_sqe env n) \<Longrightarrow> poll_live {} q"
    using live by (simp add: q Let_def poll_live_ops poll_ReleaseBuffer) (simp add: taken_def poll_live_ops)
  have "counts (taken k p) ?p3" using counts_trans [OF apis_counts [OF api] counts_ReleaseBuffer] .
  then show "counts p q" by (simp add: q Let_def counts_def key_count_def few_calls_def)
  show "keeps p2 q"
    using no x by (intro keeps_same)
      (auto simp: q Let_def ReleaseBuffer_fields poll_at_def split: if_splits)
qed

lemma HandleCqe_inv:
  assumes inv: "poller_inv p seen" and cb: "callbacks_ok env held complete"
    and key: "user_data c \<noteq> 0" "user_data c \<in> ring_keys p"
    and safe: "\<forall>k \<in> held w. safe_key p k" and few: "few_calls (cqe_poller env complete c p w)"
  shows "poller_inv (cqe_poller env complete c p w) (insert (user_data c) seen) \<and>
    (poll_live {} p \<longrightarrow> (\<forall>n. get_sqe env n) \<longrightarrow> poll_live {} (cqe_poller env complete c p w)) \<and>
    counts p (cqe_poller env complete c p w) \<and>
    (\<forall>k \<in> held (cqe_world env complete c p w). safe_key (cqe_poller env complete c p w) k)"
    (is "?goal (cqe_poller env complete c p w) (cqe_world env complete c p w)")
proof (cases "ops p (user_data c)")
  case None
  have "ops_ok p (insert (user_data c) seen)"
    using ops_ok_seen inv key(2) by (auto simp: poller_inv_def)
  then have "poller_inv p (insert (user_data c) seen)"
    using inv None by (auto simp: poller_inv_def poll_ring_def)
  moreover have "keeps p (ReleaseBufferFromCqe env c p)"
    by (rule keeps_same) (simp_all add: ReleaseBuffer_fields poll_at_def)
  ultimately show ?thesis
    using None safe keeps_safe
    by (simp add: HandleCqe_unknown poller_inv_ReleaseBuffer poll_ReleaseBuffer counts_ReleaseBuffer)
      (blast intro: keeps_safe)
next
  case (Some op)
  let ?k = "user_data c" and ?q = "cqe_poller env complete c p w"
  show ?thesis
  proof (cases rule: HandleCqe_cases [OF key(1) Some, of env complete w])
    case 1
    have cnt: "counts p ?q" unfolding 1(3) by (rule counts_plain)
    then have "next_key p < key_bound"
      using inv few_bound(1) [OF _ counts_few [OF _ few]] by (simp add: poller_inv_def)
    from poller_inv_plain [OF inv Some this 1(3)] cnt show ?thesis
      using safe keeps_safe by (simp add: 1(2)) blast
  next
    case (2 fn)
    have no: "op_type op \<noteq> kPoll" using inv Some 2(1) by (auto simp: poller_inv_def poll_base_def)
    have "counts p ?q"
      unfolding 2(3) by (rule counts_trans [OF _ counts_ReleaseBuffer], rule counts_trans [OF _ Cleanup_counts(2)])
        (rule counts_same; simp)
    moreover have "keeps p ?q" unfolding 2(3)
      by (rule keeps_taken) (simp_all add: ReleaseBuffer_fields Cleanup_fields next_key_Cleanup)
    moreover have "poller_inv ?q (insert ?k seen)" unfolding 2(3)
      by (intro poller_inv_ReleaseBuffer poller_inv_Cleanup poller_inv_taken [OF inv Some no])
    moreover have "poll_live {} ?q = poll_live {} p"
      unfolding 2(3) by (simp add: poll_ReleaseBuffer poll_Cleanup taken_def poll_live_ops)
    ultimately show ?thesis using safe keeps_safe by (simp add: 2(2)) blast
  next
    case (3 fn op' p2)
    obtain x where x: "(poller_api env)\<^sup>*\<^sup>* (taken ?k p) p2" "op' = op\<lparr>op_context := x\<rparr>"
      "\<forall>k \<in> held (cqe_world env complete c p w). safe_key p2 k"
      using called_facts [OF cb _ few_called [OF few 3(3)] safe_taken [OF safe] 3(2)] inv
      by (auto simp: poller_inv_def)
    have "few_calls p2" by (rule few_called [OF few 3(3)])
    from poller_inv_called [OF inv Some 3(1) x(1) this x(2) 3(3)] x(3) show ?thesis
      using keeps_safe by blast
  qed
qed

lemma HandleCqe_counts:
  assumes cb: "callbacks_ok env held complete"
  shows "counts p (cqe_poller env complete c p w)"
proof (cases "user_data c = 0 \<or> ops p (user_data c) = None")
  case True
  then show ?thesis by (simp add: HandleCqe_unknown counts_ReleaseBuffer)
next
  case False
  then obtain op where op: "user_data c \<noteq> 0" "ops p (user_data c) = Some op" by blast
  show ?thesis
  proof (cases rule: HandleCqe_cases [OF op, of env complete w])
    case 1
    show ?thesis unfolding 1(3) by (rule counts_plain)
  next
    case (2 fn)
    show ?thesis
      unfolding 2(3) by (rule counts_trans [OF _ counts_ReleaseBuffer], rule counts_trans [OF _ Cleanup_counts(2)])
        (rule counts_same; simp)
  next
    case (3 fn op' p2)
    have "counts (taken (user_data c) p) p2" using cb 3(2) unfolding callbacks_ok_def by blast
    from counts_trans [OF this counts_ReleaseBuffer [of p2 env c]] show ?thesis
      unfolding 3(3) by (simp add: Let_def counts_def key_count_def few_calls_def)
  qed
qed

lemma HandleCqe_ctx:
  assumes inv: "poller_inv p seen" and cb: "callbacks_ok env held complete"
    and op: "ops p (user_data c) = Some op" and safe: "\<forall>k \<in> held w. safe_key p k"
    and few: "few_calls (cqe_poller env complete c p w)"
    and k: "k \<noteq> user_data c" "ops p k = Some op2"
  shows "(\<exists>op'. ops (cqe_poller env complete c p w) k = Some op' \<and> op_context op' = op_context op2) \<and>
    frees_only op p (cqe_poller env complete c p w)"
proof -
  let ?k = "user_data c" and ?q = "cqe_poller env complete c p w" and ?t = "taken (user_data c) p"
  have ok: "ops_ok p seen" using inv by (simp add: poller_inv_def)
  have nz: "?k \<noteq> 0" using ok op by (auto simp: ops_ok_def)
  have ok1: "ops_ok ?t (insert ?k seen)" using ops_ok_taken [OF ok, of ?k] op by (simp add: taken_def)
  have old: "k \<noteq> next_key p" using recorded_old [OF ok k(2)] .
  have clean: "frees_only op p (snd (CleanupOpContext op ?t))" "frees_only op p (snd (cleaned op ?t))"
    by (auto simp: frees_only_def cleaned_def CleanupOpContext_def split: option.splits)
  show ?thesis
  proof (cases rule: HandleCqe_cases [OF nz op, of env complete w])
    case 1
    have "ops_ok (snd (cleaned op ?t)) (insert ?k seen)" "k \<noteq> next_key (snd (cleaned op ?t))"
      using ok1 old by (simp_all add: cleaned_fields)
    from dispatch_ctx [OF this, of env c "fst (cleaned op ?t)"] clean(2) k show ?thesis
      by (simp add: 1(3) cleaned_fields frees_only_def)
  next
    case (2 fn)
    then show ?thesis using clean(1) k by (simp add: ReleaseBuffer_fields Cleanup_fields frees_only_def)
  next
    case (3 fn op' p2)
    have "key_count ?t" "ops ?t k = Some op2" using inv k by (simp_all add: poller_inv_def)
    moreover from this(1) have api: "(poller_api env)\<^sup>*\<^sup>* ?t p2"
      using called_facts [OF cb _ few_called [OF few 3(3)] safe_taken [OF safe] 3(2)] by blast
    ultimately show ?thesis using apis_ctx [OF api _ few_called [OF few 3(3)] ok1, of k op2] k(1)
      by (auto simp: 3(3) Let_def ReleaseBuffer_fields frees_only_def)
  qed
qed


section \<open>Reachable pollers\<close>

text \<open>
  The poller from its constructor on, the state of the completion functions, and the keys of the
  completions seen so far: public operations (the state of the callers changes as it likes, as long
  as the keys it holds are safe), completions of entries that were handed to the ring, completions
  without a key (of cancellations and buffers), and submissions.
\<close>

inductive uring_reach ::
  "uring_env \<Rightarrow> ('w \<Rightarrow> 64 word set) \<Rightarrow> ('x, 'f, 'w) completion \<Rightarrow> ('x, 'f) poller \<Rightarrow> 'w \<Rightarrow> 64 word set \<Rightarrow> bool"
  for env held complete
where
  start: "Poller env var queue_init supported waited = Some p \<Longrightarrow> \<forall>k \<in> held w. k = 0 \<Longrightarrow>
    uring_reach env held complete p w {}"
| call: "uring_reach env held complete p w seen \<Longrightarrow> poller_api env p q \<Longrightarrow>
    \<forall>k \<in> held w'. safe_key q k \<Longrightarrow> uring_reach env held complete q w' seen"
| completion: "uring_reach env held complete p w seen \<Longrightarrow> user_data c \<in> ring_keys p \<Longrightarrow>
    HandleCqe env complete c p w = (calls, q, w') \<Longrightarrow>
    uring_reach env held complete q w' (insert (user_data c) seen)"
| ignored: "uring_reach env held complete p w seen \<Longrightarrow> user_data c = 0 \<Longrightarrow>
    HandleCqe env complete c p w = (calls, q, w') \<Longrightarrow> uring_reach env held complete q w' seen"
| pending: "uring_reach env held complete p w seen \<Longrightarrow>
    uring_reach env held complete (SubmitPending env p) w seen"

lemma Poller_fields:
  assumes "Poller env var queue_init supported waited = Some p"
  shows "states p = Map.empty" "ops p = Map.empty" "next_key p = 1" "ring_keys p = {}" "io_keys p = {}"
    "deleted p = []"
proof -
  obtain a b where p: "p = RegisterBuffers env waited (empty_poller\<lparr>use_sqpoll := a, use_multishot_accept := b\<rparr>)"
    using assms by (auto simp: Poller_def Let_def split: if_splits)
  show "states p = Map.empty" "ops p = Map.empty" "next_key p = 1" "ring_keys p = {}" "io_keys p = {}"
    "deleted p = []"
    by (auto simp: p RegisterBuffers_def io_uring_get_sqe_def prep_def SubmitPending_def Let_def
        empty_poller_def ring_keys_def io_keys_def split: prod.splits)
qed

lemma poller_inv_pending: "poller_inv (SubmitPending env p) seen = poller_inv p seen"
  by (simp add: poller_inv_def ops_ok_SubmitPending poll_SubmitPending poll_ring_def)
    (simp add: key_count_def few_calls_def SubmitPending_def Let_def)

lemma safe_key_pending: "safe_key (SubmitPending env p) k = safe_key p k"
  by (simp add: safe_key_def poll_at_def)

lemma safe_key_ReleaseBuffer: "safe_key (ReleaseBufferFromCqe env c p) k = safe_key p k"
  by (simp add: safe_key_def poll_at_def ReleaseBuffer_fields)

lemma reach_invariants:
  assumes "uring_reach env held complete p w seen" and cb: "callbacks_ok env held complete"
  shows "few_calls p \<Longrightarrow> poller_inv p seen \<and> ((\<forall>n. get_sqe env n) \<longrightarrow> poll_live {} p) \<and>
    (\<forall>k \<in> held w. safe_key p k)"
  using assms(1)
proof (induction rule: uring_reach.induct)
  case (start var queue_init supported waited p w)
  note f = Poller_fields [OF start(1)]
  then show ?case
    using start(2) by (auto simp: poller_inv_def ops_ok_def poll_base_def poll_live_def poll_ring_def
        key_count_def few_calls_def safe_key_def)
next
  case (call p w seen q w')
  have few: "few_calls p" using counts_few [OF api_counts [OF call.hyps(2)] call.prems] .
  from call.IH [OF few] have inv: "poller_inv p seen" "(\<forall>n. get_sqe env n) \<longrightarrow> poll_live {} p" by blast+
  moreover have "poller_inv q seen"
    using poller_inv_apis [OF r_into_rtranclp [of "poller_api env", OF call.hyps(2)] call.prems inv(1)] .
  moreover have "poll_live {} p \<longrightarrow> (\<forall>n. get_sqe env n) \<longrightarrow> poll_live {} q"
    using poll_api [OF call.hyps(2), of seen] inv(1) few_bound(1) [OF _ few] by (simp add: poller_inv_def)
  ultimately show ?case using call.hyps(3) by blast
next
  case (completion p w seen c calls q w')
  have q: "q = cqe_poller env complete c p w" "w' = cqe_world env complete c p w"
    using completion.hyps(3) by simp_all
  have "few_calls p" using counts_few [OF HandleCqe_counts [OF cb]] completion.prems q(1) by blast
  from completion.IH [OF this] have inv: "poller_inv p seen" "(\<forall>n. get_sqe env n) \<longrightarrow> poll_live {} p"
    "\<forall>k \<in> held w. safe_key p k" by blast+
  have "user_data c \<noteq> 0" using inv(1) completion.hyps(2) by (auto simp: poller_inv_def ops_ok_def)
  from HandleCqe_inv [OF inv(1) cb this completion.hyps(2) inv(3)] completion.prems inv(2) q
  show ?case by blast
next
  case (ignored p w seen c calls q w')
  then have q: "q = ReleaseBufferFromCqe env c p" "w' = w" by (simp_all add: HandleCqe_unknown)
  have "few_calls p" using counts_few [OF counts_ReleaseBuffer] ignored.prems q(1) by blast
  from ignored.IH [OF this] show ?case
    by (simp add: q poller_inv_ReleaseBuffer poll_ReleaseBuffer safe_key_ReleaseBuffer)
next
  case (pending p w seen)
  have "few_calls p" using pending.prems by (simp add: few_calls_def)
  from pending.IH [OF this] show ?case
    by (simp add: poller_inv_pending poll_SubmitPending safe_key_pending)
qed

section \<open>A sample run\<close>

text \<open>A ring with an entry for every request, and callbacks that do nothing.\<close>

definition sample_env :: uring_env where
  "sample_env = \<lparr>get_sqe = (\<lambda>n. True), submit = (\<lambda>n. 1), recv_multishot = False,
     accept_multishot = True, Fd = (\<lambda>e. 7)\<rparr>"

definition sample_callback :: "(nat, nat, unit) completion" where
  "sample_callback fn c op p w = (op, p, w)"

definition sample_held :: "unit \<Rightarrow> 64 word set" where
  "sample_held w = {}"

definition sample_start :: "(nat, nat) poller" where
  "sample_start = the (Poller sample_env None (\<lambda>sq n. 0) None (0, 0))"

text \<open>A write of eventer 1 with the context 5, and eventer 2 waiting for the events 3.\<close>

definition sample_busy :: "(nat, nat) poller" where
  "sample_busy = AddEventer sample_env 2 3 (snd (SubmitWrite sample_env 1 None (Some 5) 0 True sample_start))"

lemma sample_callbacks_ok: "callbacks_ok sample_env sample_held sample_callback"
proof -
  have "op = op\<lparr>op_context := op_context op\<rparr>" for op :: "(nat, nat) IoUringOp" by simp
  then have "\<exists>x. op = op\<lparr>op_context := x\<rparr>" for op :: "(nat, nat) IoUringOp" by (rule exI)
  then show ?thesis by (auto simp: callbacks_ok_def sample_callback_def sample_held_def counts_def)
qed

lemma init_loop_ok: "init_loop (\<lambda>n. 0) 32768 r = 0"
  by (simp add: init_loop.simps ENOMEM_def kMinEntries_def)

lemma sample_start_eq: "Poller sample_env None (\<lambda>sq n. 0) None (0, 0) = Some sample_start"
  "sample_start = empty_poller\<lparr>use_sqpoll := True\<rparr>"
  by (simp_all add: sample_start_def Poller_def GetIoUringEntries_def kDefaultEntries_def
      init_loop_ok EPERM_def EINVAL_def RegisterBuffers_def sample_env_def empty_poller_def)

lemma sample_busy_eq:
  "states sample_busy = [2 \<mapsto> \<lparr>mask = 3, armed = True, poll_key = 2\<rparr>]"
  "ops sample_busy = [1 \<mapsto> mk_op kWrite (Some 1) (Some 5) 7 None True 1,
     2 \<mapsto> mk_op kPoll (Some 2) None 7 None False 2]"
  "submitted sample_busy = [Writev 7 1, PollAdd 7 3 2]" "prepared sample_busy = []"
  "cqe_batch_limit sample_busy = 1024" "deleted sample_busy = []" "next_key sample_busy = 3"
  by (simp_all add: sample_busy_def sample_start_eq AddEventer_def SubmitPoll_def SubmitWrite_def
      submit_op_def NormalizeKey_def io_uring_get_sqe_def prep_def SubmitPending_def Let_def
      empty_poller_def sample_env_def fun_eq_iff)

lemma sample_reach: "uring_reach sample_env sample_held sample_callback sample_busy () {}"
proof -
  have "uring_reach sample_env sample_held sample_callback sample_start () {}"
    by (rule start [OF sample_start_eq(1)]) (simp add: sample_held_def)
  then show ?thesis unfolding sample_busy_def
    by (intro uring_reach.call [OF _ poller_api.add] uring_reach.call [OF _ poller_api.write_op])
      (simp_all add: sample_held_def)
qed

lemma sample_few: "few_calls sample_busy"
  by (simp add: few_calls_def sample_busy_def sample_start_eq AddEventer_def SubmitPoll_def SubmitWrite_def
      submit_op_def NormalizeKey_def io_uring_get_sqe_def prep_def SubmitPending_def Let_def
      empty_poller_def sample_env_def)


section \<open>Properties\<close>

text \<open>
  C5. A read or write that was handed to the ring and has not completed is still recorded;
  whatever public operation runs next (cancelling it included), and whichever other completion is
  handled next, it stays recorded with its context, and no context is destroyed but that of the
  operation that completes. So the kernel never writes to a context that is gone.
\<close>

theorem context_outlives_operation:
  assumes "uring_reach env held complete p w seen" and "callbacks_ok env held complete"
    and "few_calls p" and "k \<in> io_keys p" and "k \<notin> seen"
  shows "\<exists>op. ops p k = Some op \<and>
    (\<forall>q. poller_api env p q \<longrightarrow>
       (\<exists>op'. ops q k = Some op' \<and> op_context op' = op_context op) \<and> deleted q = deleted p) \<and>
    (\<forall>c op2 calls q w'. HandleCqe env complete c p w = (calls, q, w') \<longrightarrow> user_data c \<noteq> k \<longrightarrow>
       ops p (user_data c) = Some op2 \<longrightarrow> few_calls q \<longrightarrow>
       (\<exists>op'. ops q k = Some op' \<and> op_context op' = op_context op) \<and>
       (deleted q = deleted p \<or> (\<exists>x. op_context op2 = Some x \<and> deleted q = deleted p @ [x])))"
proof -
  have inv: "poller_inv p seen" and safe: "\<forall>k \<in> held w. safe_key p k"
    using reach_invariants [OF assms(1-3)] by blast+
  then have ok: "ops_ok p seen" by (simp add: poller_inv_def)
  then obtain op where op: "ops p k = Some op" using assms(4,5) by (auto simp: ops_ok_def)
  have api: "(\<exists>op'. ops q k = Some op' \<and> op_context op' = op_context op) \<and> deleted q = deleted p"
    if "poller_api env p q" for q
    using api_ctx [OF that ok recorded_old [OF ok op]] op by (simp add: ctx_kept_def)
  have "(\<exists>op'. ops q k = Some op' \<and> op_context op' = op_context op) \<and>
      (deleted q = deleted p \<or> (\<exists>x. op_context op2 = Some x \<and> deleted q = deleted p @ [x]))"
    if "HandleCqe env complete c p w = (calls, q, w')" "user_data c \<noteq> k" "ops p (user_data c) = Some op2"
      "few_calls q" for c op2 calls q w'
    using HandleCqe_ctx [OF inv assms(2) that(3) safe, of k op] that op by (auto simp: frees_only_def)
  with op api show ?thesis by blast
qed

theorem context_outlives_operation_witness:
  "\<exists>op. ops sample_busy 1 = Some op \<and> op_context op = Some 5 \<and>
    (\<exists>op'. ops (CancelOp sample_env 1 sample_busy) 1 = Some op' \<and> op_context op' = Some 5)"
proof -
  have key: "1 \<in> io_keys sample_busy" by (simp add: io_keys_def sample_busy_eq)
  have cancel: "poller_api sample_env sample_busy (CancelOp sample_env 1 sample_busy)"
    by (rule poller_api.cancel) (simp add: safe_key_def poll_at_def sample_busy_eq mk_op_def)
  have op: "ops sample_busy 1 = Some (mk_op kWrite (Some 1) (Some 5) 7 None True 1)"
    by (simp add: sample_busy_eq)
  show ?thesis
    using context_outlives_operation [OF sample_reach sample_callbacks_ok sample_few key] cancel op
    by (auto simp: mk_op_def)
qed



text \<open>
  A new event mask for an eventer whose poll is armed is only remembered: nothing is handed to
  the ring, so the kernel goes on waiting for the old events until the old poll completes.
\<close>

theorem ModifyEventer_armed:
  assumes "states p e = Some st" and "armed st" and "m \<noteq> 0"
  shows "let q = ModifyEventer env e m p
    in states q = (states p)(e \<mapsto> st\<lparr>mask := m\<rparr>) \<and> ops q = ops p \<and>
       submitted q @ prepared q = submitted p @ prepared p"
  using assms by (simp add: ModifyEventer_def SubmitPoll_def Let_def) (simp add: SubmitPending_def Let_def)

theorem ModifyEventer_armed_witness:
  "submitted (ModifyEventer sample_env 2 5 sample_busy) = [Writev 7 1, PollAdd 7 3 2] \<and>
   prepared (ModifyEventer sample_env 2 5 sample_busy) = []"
proof -
  have "prepared (ModifyEventer sample_env 2 5 sample_busy) = []"
    by (simp add: ModifyEventer_def SubmitPoll_def SubmitPending_def sample_busy_eq sample_env_def Let_def)
  then show ?thesis
    using ModifyEventer_armed [of sample_busy 2 "\<lparr>mask = 3, armed = True, poll_key = 2\<rparr>" 5 sample_env]
    by (simp add: sample_busy_eq Let_def)
qed

lemma poll_loop_take:
  "limit \<noteq> 0 \<Longrightarrow> handled \<le> limit \<Longrightarrow>
   poll_loop env complete limit budget start rs handled p w =
   poll_loop env complete limit budget start (take (limit - handled) rs) handled p w"
proof (induction env complete limit budget start rs handled p w rule: poll_loop.induct)
  case (2 env complete limit budget start now r rs handled p w)
  show ?case
  proof (cases "handled = limit")
    case False
    then obtain n where n: "limit - handled = Suc n" and n': "limit - (handled + 1) = n"
      using 2(3) by (metis Suc_eq_plus1 Suc_diff_Suc diff_Suc_Suc le_neq_implies_less)
    have "poll_loop env complete limit budget start rs (handled + 1) p1 w1 =
        poll_loop env complete limit budget start (take n rs) (handled + 1) p1 w1"
      if "\<not> (0 < budget \<and> budget \<le> now - start)" "r = Inr c"
        "HandleCqe env complete c p w = (calls, p1, w1)" for c calls p1 w1
      using 2(1) [of c calls "(p1, w1)" p1 w1] 2(2,3) that False n' by simp
    then show ?thesis using n False 2(3) by (auto split: sum.split prod.split)
  qed (simp add: 2(2))
qed simp

text \<open>
  One round of \<open>Poll\<close> handles at most as many completions as the batch limit says: what the
  ring holds beyond them has no influence on the round.
\<close>

theorem Poll_batch_bound:
  assumes "HandleCqe env complete c p w = (calls, p1, w1)" and "cqe_batch_limit p1 = limit" and "limit \<noteq> 0"
  shows "Poll env complete (Inr c) start peeks p w =
    Poll env complete (Inr c) start (take (limit - 1) peeks) p w"
  using assms poll_loop_take [of limit 1 env complete "cqe_time_budget_us p1" start peeks p1 w1]
  by (simp add: Poll_def)

theorem Poll_batch_bound_witness:
  "Poll sample_env sample_callback (Inr \<lparr>user_data = 0, cqe_res = 0, cqe_flags = 0\<rparr>) 0
     (replicate 5000 (0, Inl (- 11))) sample_busy () =
   Poll sample_env sample_callback (Inr \<lparr>user_data = 0, cqe_res = 0, cqe_flags = 0\<rparr>) 0
     (take 1023 (replicate 5000 (0, Inl (- 11)))) sample_busy ()"
proof -
  have "HandleCqe sample_env sample_callback \<lparr>user_data = 0, cqe_res = 0, cqe_flags = 0\<rparr> sample_busy () =
      ([], sample_busy, ())"
    by (simp add: HandleCqe_def ReleaseBufferFromCqe_def sample_env_def)
  from Poll_batch_bound [OF this sample_busy_eq(5)] show ?thesis by (simp del: take_replicate)
qed

lemma init_loop_tries:
  "kMinEntries \<le> n \<Longrightarrow>
   \<exists>i. kMinEntries \<le> n div 2 ^ i \<and> init_loop q n r = q (n div 2 ^ i) \<and>
     (\<forall>j<i. q (n div 2 ^ j) = - ENOMEM) \<and>
     (q (n div 2 ^ i) \<noteq> - ENOMEM \<or> n div 2 ^ (i + 1) < kMinEntries)"
proof (induction q n r rule: init_loop.induct)
  case (1 q n r)
  show ?case
  proof (cases "q n = - ENOMEM \<and> kMinEntries < n \<and> kMinEntries \<le> n div 2")
    case True
    then obtain i where i: "kMinEntries \<le> n div 2 div 2 ^ i" "init_loop q (n div 2) (q n) = q (n div 2 div 2 ^ i)"
      "\<forall>j<i. q (n div 2 div 2 ^ j) = - ENOMEM"
      "q (n div 2 div 2 ^ i) \<noteq> - ENOMEM \<or> n div 2 div 2 ^ (i + 1) < kMinEntries"
      using 1 by auto
    have "q (n div 2 ^ j) = - ENOMEM" if "j < Suc i" for j
      using that i(3) True by (cases j) (auto simp: div_mult2_eq)
    moreover have "n div 2 div 2 = n div 4" by simp
    ultimately show ?thesis
      using i True 1(2) by (intro exI [of _ "Suc i"]) (simp add: init_loop.simps [of q n] div_mult2_eq Let_def)
  next
    case False
    have "init_loop q n r = q n"
      using False 1(2) init_loop.simps [of q "n div 2"] by (auto simp: init_loop.simps [of q n] Let_def)
    moreover have "q n \<noteq> - ENOMEM \<or> n div 2 < kMinEntries" using False 1(2) by (auto simp: kMinEntries_def)
    ultimately show ?thesis using 1(2) by (intro exI [of _ 0]) simp
  qed
qed

text \<open>
  The size asked of the ring is between 1,024 and 32,768 whatever the environment variable
  holds; the set-up loop ends, having tried that size and its halves in order as long as memory is
  short and the next one is not below 1,024.
\<close>

theorem ring_size_bounds:
  "kMinEntries \<le> GetIoUringEntries var \<and> GetIoUringEntries var \<le> kDefaultEntries \<and>
   (let n = GetIoUringEntries var in
    \<exists>i. kMinEntries \<le> n div 2 ^ i \<and> init_loop q n r = q (n div 2 ^ i) \<and>
      (\<forall>j<i. q (n div 2 ^ j) = - ENOMEM) \<and>
      (q (n div 2 ^ i) \<noteq> - ENOMEM \<or> n div 2 ^ (i + 1) < kMinEntries))"
proof -
  have b: "kMinEntries \<le> GetIoUringEntries var" "GetIoUringEntries var \<le> kDefaultEntries"
    by (auto simp: GetIoUringEntries_def kMinEntries_def kDefaultEntries_def
        split: option.splits prod.splits)
  then show ?thesis using init_loop_tries [OF b(1), of q r] by (simp add: Let_def)
qed

theorem ring_size_bounds_witness:
  "kMinEntries \<le> GetIoUringEntries None \<and> GetIoUringEntries None \<le> kDefaultEntries \<and>
   (\<exists>i. kMinEntries \<le> GetIoUringEntries None div 2 ^ i \<and>
      init_loop (\<lambda>n. if 20000 < n then - ENOMEM else 0) (GetIoUringEntries None) 0 =
        (if 20000 < GetIoUringEntries None div 2 ^ i then - ENOMEM else 0))"
  using ring_size_bounds [of None "\<lambda>n. if 20000 < n then - ENOMEM else 0" 0] unfolding Let_def by blast

end
