(* ===== verification/Poll_Eventer.thy ===== *)
theory Poll_Eventer
  imports Poller_Safety
begin

text \<open>
  The eventer (\<^verbatim>\<open>src/src/eventer.h\<close>, \<^verbatim>\<open>src/src/eventer.cc\<close>): a descriptor with the events it waits for and the
  four callbacks that handle them.

  An eventer is a record that holds the poller it belongs to; the objects that own an eventer extend
  the record. A callback is an effect on the extended record, so a callback may change anything its
  owner holds, the eventer included. Which callbacks are set is \<open>registered\<close>.
\<close>

section \<open>State\<close>

datatype evt_cb = ReadCallback | WriteCallback | CloseCallback | ErrorCallback

record ('x, 'f) eventer =
  ev_poller :: "('x, 'f) poller"
  ev_self :: evt
  ev_fd :: int
  in_events :: "32 word"
  out_events :: "32 word"
  is_handling :: bool
  registered :: "evt_cb \<Rightarrow> bool"

definition POLLIN :: "32 word" where "POLLIN = 1"
definition POLLPRI :: "32 word" where "POLLPRI = 2"
definition POLLOUT :: "32 word" where "POLLOUT = 4"
definition POLLERR :: "32 word" where "POLLERR = 8"
definition POLLHUP :: "32 word" where "POLLHUP = 16"
definition POLLNVAL :: "32 word" where "POLLNVAL = 32"
definition POLLRDHUP :: "32 word" where "POLLRDHUP = 8192"

lemmas poll_flags = POLLIN_def POLLPRI_def POLLOUT_def POLLERR_def POLLHUP_def POLLNVAL_def POLLRDHUP_def

definition kNoEvent :: "32 word" where "kNoEvent = 0"
definition kReadEvents :: "32 word" where "kReadEvents = POLLIN OR POLLPRI"
definition kWriteEvents :: "32 word" where "kWriteEvents = POLLOUT"

text \<open>The mask that \<open>RemoveMyself\<close> leaves behind.\<close>

definition removed_mask :: "32 word" where "removed_mask = 4294967290"

section \<open>Operations\<close>

type_synonym ('x, 'f, 'm) callback =
  "evt_cb \<Rightarrow> ('x, 'f, 'm) eventer_scheme \<Rightarrow> ('x, 'f, 'm) eventer_scheme res"

definition Eventer :: "uring_env \<Rightarrow> ('x, 'f) poller \<Rightarrow> evt \<Rightarrow> ('x, 'f) eventer" where
  "Eventer env p a =
     \<lparr>ev_poller = AddEventer env a 0 p, ev_self = a, ev_fd = Fd env a, in_events = 0, out_events = 0,
      is_handling = False, registered = (\<lambda>_. False)\<rparr>"

definition RegisterCallback ::
  "evt_cb \<Rightarrow> bool \<Rightarrow> ('x, 'f, 'm) eventer_scheme \<Rightarrow> ('x, 'f, 'm) eventer_scheme" where
  "RegisterCallback k is_set e = e\<lparr>registered := (registered e)(k := is_set)\<rparr>"

definition call_if ::
  "('x, 'f, 'm) callback \<Rightarrow> evt_cb \<Rightarrow> bool \<Rightarrow> ('x, 'f, 'm) eventer_scheme \<Rightarrow>
   ('x, 'f, 'm) eventer_scheme res" where
  "call_if run k b e = (if b \<and> registered e k then run k e else Inr e)"

text \<open>\<open>Work\<close>: each condition is read when its turn comes, after the callbacks before it.\<close>

definition Work ::
  "('x, 'f, 'm) callback \<Rightarrow> ('x, 'f, 'm) eventer_scheme \<Rightarrow> ('x, 'f, 'm) eventer_scheme res" where
  "Work run e =
     (let e0 = e\<lparr>is_handling := True\<rparr>
      in res_bind (call_if run CloseCallback
             (in_events e0 AND POLLHUP \<noteq> 0 \<and> in_events e0 AND POLLIN = 0) e0) (\<lambda>e1.
         res_bind (call_if run ErrorCallback (in_events e1 AND (POLLNVAL OR POLLERR) \<noteq> 0) e1) (\<lambda>e2.
         res_bind (call_if run ReadCallback
             (in_events e2 AND (POLLIN OR POLLPRI OR POLLRDHUP) \<noteq> 0) e2) (\<lambda>e3.
         res_bind (call_if run WriteCallback (in_events e3 AND POLLOUT \<noteq> 0) e3) (\<lambda>e4.
           Inr (e4\<lparr>is_handling := False\<rparr>))))))"

definition ReceiveEvents ::
  "32 word \<Rightarrow> ('x, 'f, 'm) eventer_scheme \<Rightarrow> ('x, 'f, 'm) eventer_scheme" where
  "ReceiveEvents events e = e\<lparr>in_events := events\<rparr>"

definition UpdateEvents ::
  "uring_env \<Rightarrow> ('x, 'f, 'm) eventer_scheme \<Rightarrow> ('x, 'f, 'm) eventer_scheme" where
  "UpdateEvents env e = e\<lparr>ev_poller := ModifyEventer env (ev_self e) (out_events e) (ev_poller e)\<rparr>"

definition EnableReadEvents ::
  "uring_env \<Rightarrow> ('x, 'f, 'm) eventer_scheme \<Rightarrow> ('x, 'f, 'm) eventer_scheme" where
  "EnableReadEvents env e = UpdateEvents env (e\<lparr>out_events := out_events e OR kReadEvents\<rparr>)"

definition DisableReadEvents ::
  "uring_env \<Rightarrow> ('x, 'f, 'm) eventer_scheme \<Rightarrow> ('x, 'f, 'm) eventer_scheme" where
  "DisableReadEvents env e = UpdateEvents env (e\<lparr>out_events := out_events e AND NOT kReadEvents\<rparr>)"

definition EnableWriteEvents ::
  "uring_env \<Rightarrow> ('x, 'f, 'm) eventer_scheme \<Rightarrow> ('x, 'f, 'm) eventer_scheme" where
  "EnableWriteEvents env e = UpdateEvents env (e\<lparr>out_events := out_events e OR kWriteEvents\<rparr>)"

definition DisableWriteEvents ::
  "uring_env \<Rightarrow> ('x, 'f, 'm) eventer_scheme \<Rightarrow> ('x, 'f, 'm) eventer_scheme" where
  "DisableWriteEvents env e = UpdateEvents env (e\<lparr>out_events := out_events e AND NOT kWriteEvents\<rparr>)"

definition DisableAllEvents ::
  "uring_env \<Rightarrow> ('x, 'f, 'm) eventer_scheme \<Rightarrow> ('x, 'f, 'm) eventer_scheme" where
  "DisableAllEvents env e = UpdateEvents env (e\<lparr>out_events := kNoEvent\<rparr>)"

definition HasNoEvent :: "('x, 'f, 'm) eventer_scheme \<Rightarrow> bool" where
  "HasNoEvent e \<longleftrightarrow> out_events e = kNoEvent"

definition HasReadEvents :: "('x, 'f, 'm) eventer_scheme \<Rightarrow> bool" where
  "HasReadEvents e \<longleftrightarrow> out_events e AND kReadEvents \<noteq> 0"

definition HasWriteEvents :: "('x, 'f, 'm) eventer_scheme \<Rightarrow> bool" where
  "HasWriteEvents e \<longleftrightarrow> out_events e AND kWriteEvents \<noteq> 0"

definition SetReadyDestroy :: "('x, 'f, 'm) eventer_scheme \<Rightarrow> ('x, 'f, 'm) eventer_scheme" where
  "SetReadyDestroy e = e\<lparr>is_handling := False\<rparr>"

definition RemoveMyself ::
  "uring_env \<Rightarrow> ('x, 'f, 'm) eventer_scheme \<Rightarrow> ('x, 'f, 'm) eventer_scheme" where
  "RemoveMyself env e =
     (if out_events e \<noteq> removed_mask
      then e\<lparr>ev_poller := RemoveEventer env (ev_self e) (ev_poller e), out_events := removed_mask\<rparr>
      else e)"

text \<open>The destructor waits until no callback is running: \<open>None\<close> is a wait that never ends.\<close>

definition destroy_eventer ::
  "uring_env \<Rightarrow> ('x, 'f, 'm) eventer_scheme \<Rightarrow> ('x, 'f) poller option" where
  "destroy_eventer env e = (if is_handling e then None else Some (ev_poller (RemoveMyself env e)))"

text \<open>\<open>EWOULDBLOCK\<close> is \<open>EAGAIN\<close>.\<close>

definition transient :: "int \<Rightarrow> bool" where
  "transient err \<longleftrightarrow> err = EAGAIN \<or> err = EINTR"

definition OnReadDone ::
  "('x, 'f, 'm) callback \<Rightarrow> int \<Rightarrow> int \<Rightarrow> ('x, 'f, 'm) eventer_scheme \<Rightarrow> ('x, 'f, 'm) eventer_scheme res" where
  "OnReadDone run bytes err e =
     (if 0 < bytes then call_if run ReadCallback True e
      else if bytes = 0 then call_if run CloseCallback True e
      else call_if run ErrorCallback (\<not> transient err) e)"

definition OnWriteDone ::
  "('x, 'f, 'm) callback \<Rightarrow> int \<Rightarrow> int \<Rightarrow> ('x, 'f, 'm) eventer_scheme \<Rightarrow> ('x, 'f, 'm) eventer_scheme res" where
  "OnWriteDone run bytes err e =
     (if err \<noteq> 0 then call_if run ErrorCallback (\<not> transient err) e
      else call_if run WriteCallback True e)"

definition OnAcceptDone ::
  "('x, 'f, 'm) callback \<Rightarrow> int \<Rightarrow> ('x, 'f, 'm) eventer_scheme \<Rightarrow> ('x, 'f, 'm) eventer_scheme res" where
  "OnAcceptDone run fd e =
     (if fd < 0 \<and> registered e ErrorCallback then run ErrorCallback e
      else call_if run ReadCallback True e)"

section \<open>The callbacks of a round\<close>

text \<open>The callbacks that a set of events calls for, in the order they run.\<close>

definition due_callbacks :: "32 word \<Rightarrow> evt_cb list" where
  "due_callbacks ev =
     (if ev AND POLLHUP \<noteq> 0 \<and> ev AND POLLIN = 0 then [CloseCallback] else []) @
     (if ev AND (POLLNVAL OR POLLERR) \<noteq> 0 then [ErrorCallback] else []) @
     (if ev AND (POLLIN OR POLLPRI OR POLLRDHUP) \<noteq> 0 then [ReadCallback] else []) @
     (if ev AND POLLOUT \<noteq> 0 then [WriteCallback] else [])"

fun run_all :: "('x, 'f, 'm) callback \<Rightarrow> evt_cb list \<Rightarrow> ('x, 'f, 'm) eventer_scheme \<Rightarrow>
    ('x, 'f, 'm) eventer_scheme res" where
  "run_all run [] e = Inr e"
| "run_all run (k # ks) e = res_bind (run k e) (run_all run ks)"

definition keeps_events :: "('x, 'f, 'm) callback \<Rightarrow> bool" where
  "keeps_events run \<longleftrightarrow>
     (\<forall>k e e'. run k e = Inr e' \<longrightarrow> in_events e' = in_events e \<and> registered e' = registered e)"

text \<open>Conditions and callbacks in turn, the conditions read as the callbacks go.\<close>

fun in_turn :: "('x, 'f, 'm) callback \<Rightarrow> (evt_cb \<times> (32 word \<Rightarrow> bool)) list \<Rightarrow>
    ('x, 'f, 'm) eventer_scheme \<Rightarrow> ('x, 'f, 'm) eventer_scheme res" where
  "in_turn run [] e = Inr e"
| "in_turn run ((k, b) # cs) e = res_bind (call_if run k (b (in_events e)) e) (in_turn run cs)"

definition work_turns :: "(evt_cb \<times> (32 word \<Rightarrow> bool)) list" where
  "work_turns =
     [(CloseCallback, \<lambda>ev. ev AND POLLHUP \<noteq> 0 \<and> ev AND POLLIN = 0),
      (ErrorCallback, \<lambda>ev. ev AND (POLLNVAL OR POLLERR) \<noteq> 0),
      (ReadCallback, \<lambda>ev. ev AND (POLLIN OR POLLPRI OR POLLRDHUP) \<noteq> 0),
      (WriteCallback, \<lambda>ev. ev AND POLLOUT \<noteq> 0)]"

lemma in_turn_run_all:
  assumes keep: "keeps_events run"
  shows "in_turn run cs e = run_all run (filter (registered e) (map fst (filter (\<lambda>c. snd c (in_events e)) cs))) e"
proof (induction cs arbitrary: e)
  case (Cons c cs)
  obtain k b where c: "c = (k, b)" by fastforce
  show ?case
  proof (cases "b (in_events e) \<and> registered e k")
    case True
    show ?thesis
    proof (cases "run k e")
      case (Inr e')
      then have "in_events e' = in_events e" "registered e' = registered e"
        using keep by (simp_all add: keeps_events_def)
      then show ?thesis using True Inr Cons [of e'] by (simp add: c call_if_def)
    qed (use True c in \<open>simp add: call_if_def\<close>)
  next
    case False
    then show ?thesis using Cons [of e] by (auto simp: c call_if_def)
  qed
qed simp

lemma due_callbacks_turns: "due_callbacks ev = map fst (filter (\<lambda>c. snd c ev) work_turns)"
  by (simp add: due_callbacks_def work_turns_def)

lemma Work_in_turn:
  "Work run e = res_bind (in_turn run work_turns (e\<lparr>is_handling := True\<rparr>)) (\<lambda>e'. Inr (e'\<lparr>is_handling := False\<rparr>))"
  by (simp add: Work_def work_turns_def Let_def res_bind_assoc)

section \<open>The mask that the poller knows\<close>

text \<open>
  The poller's record for an eventer holds its current mask; an eventer that removed itself has
  none.
\<close>

definition synced :: "('x, 'f, 'm) eventer_scheme \<Rightarrow> bool" where
  "synced e \<longleftrightarrow>
     (case states (ev_poller e) (ev_self e) of
        None \<Rightarrow> out_events e = removed_mask
      | Some st \<Rightarrow> mask st = out_events e \<and> out_events e \<noteq> removed_mask)"

text \<open>The operations of the owner; \<open>DisableAllEvents\<close> brings a removed eventer back.\<close>

inductive evt_step ::
  "uring_env \<Rightarrow> ('x, 'f, 'm) eventer_scheme \<Rightarrow> ('x, 'f, 'm) eventer_scheme \<Rightarrow> bool" for env where
  enable_read: "out_events e \<noteq> removed_mask \<Longrightarrow> evt_step env e (EnableReadEvents env e)"
| disable_read: "out_events e \<noteq> removed_mask \<Longrightarrow> evt_step env e (DisableReadEvents env e)"
| enable_write: "out_events e \<noteq> removed_mask \<Longrightarrow> evt_step env e (EnableWriteEvents env e)"
| disable_write: "out_events e \<noteq> removed_mask \<Longrightarrow> evt_step env e (DisableWriteEvents env e)"
| disable_all: "evt_step env e (DisableAllEvents env e)"
| remove: "evt_step env e (RemoveMyself env e)"
| receive: "evt_step env e (ReceiveEvents ev e)"
| register: "evt_step env e (RegisterCallback k b e)"

lemma SubmitPoll_mask:
  "map_option mask (states (SubmitPoll env a p) b) = map_option mask (states p b)"
proof -
  obtain k q where n: "NormalizeKey 0 p = (k, q)" by fastforce
  have "states q = states p" using n by (auto simp: NormalizeKey_def Let_def split: if_splits)
  then show ?thesis
    by (auto simp: SubmitPoll_def n io_uring_get_sqe_def Let_def split: option.splits)
qed

lemma CancelPoll_mask:
  "map_option mask (states (CancelPoll env a p) b) = map_option mask (states p b)"
  by (auto simp: CancelPoll_def io_uring_get_sqe_def Let_def split: option.splits)

lemma ModifyEventer_mask: "map_option mask (states (ModifyEventer env a m p) a) = Some m"
proof (cases "states p a")
  case None
  then have "states (ModifyEventer env a m p) = states (SubmitPoll env a
      (p\<lparr>states := (states p)(a \<mapsto> \<lparr>mask = m, armed = False, poll_key = 0\<rparr>)\<rparr>))"
    by (simp add: ModifyEventer_def AddEventer_def)
  then show ?thesis by (simp only: SubmitPoll_mask) simp
next
  case (Some st)
  let ?q = "p\<lparr>states := (states p)(a \<mapsto> st\<lparr>mask := m\<rparr>)\<rparr>"
  have "states (ModifyEventer env a m p) =
      (if m = 0 then states (CancelPoll env a ?q) else states (SubmitPoll env a ?q))"
    using Some by (simp add: ModifyEventer_def Let_def)
  then show ?thesis
    using SubmitPoll_mask [of env a ?q a] CancelPoll_mask [of env a ?q a] by (simp split: if_splits)
qed

lemma UpdateEvents_synced: "out_events e \<noteq> removed_mask \<Longrightarrow> synced (UpdateEvents env e)"
  using ModifyEventer_mask [of env "ev_self e" "out_events e" "ev_poller e"]
  by (auto simp: synced_def UpdateEvents_def split: option.splits)

text \<open>A mask of read and write events only.\<close>

definition small_mask :: "32 word \<Rightarrow> bool" where
  "small_mask m \<longleftrightarrow> m AND NOT (kReadEvents OR kWriteEvents) = 0"

definition evt_ok :: "('x, 'f, 'm) eventer_scheme \<Rightarrow> bool" where
  "evt_ok e \<longleftrightarrow> synced e \<and> (out_events e = removed_mask \<or> small_mask (out_events e))"

lemma small_mask_OR: "small_mask (a OR b) \<longleftrightarrow> small_mask a \<and> small_mask b"
  by (auto simp: small_mask_def bit_eq_iff bit_simps)

lemma small_mask_simps [simp]:
  "small_mask m \<Longrightarrow> small_mask (m OR kReadEvents)" "small_mask m \<Longrightarrow> small_mask (m OR kWriteEvents)"
  "small_mask m \<Longrightarrow> small_mask (m AND x)" "small_mask kNoEvent" "\<not> small_mask removed_mask"
proof -
  have "small_mask kReadEvents" "small_mask kWriteEvents"
    by (simp_all add: small_mask_def kReadEvents_def kWriteEvents_def poll_flags)
  then show "small_mask m \<Longrightarrow> small_mask (m OR kReadEvents)" "small_mask m \<Longrightarrow> small_mask (m OR kWriteEvents)"
    by (simp_all add: small_mask_OR)
  show "small_mask m \<Longrightarrow> small_mask (m AND x)" by (auto simp: small_mask_def bit_eq_iff bit_simps)
qed (simp_all add: small_mask_def kReadEvents_def kWriteEvents_def poll_flags kNoEvent_def removed_mask_def)

lemma small_not_removed: "small_mask m \<Longrightarrow> m \<noteq> removed_mask"
  by auto

lemma UpdateEvents_fields [simp]:
  "out_events (UpdateEvents env e) = out_events e" "ev_self (UpdateEvents env e) = ev_self e"
  by (simp_all add: UpdateEvents_def)

lemma UpdateEvents_ok: "small_mask (out_events e) \<Longrightarrow> evt_ok (UpdateEvents env e)"
  by (simp add: evt_ok_def UpdateEvents_synced small_not_removed)

lemma RemoveEventer_states: "states (RemoveEventer env a p) a = None"
  by (simp add: RemoveEventer_def Let_def)

lemma evt_step_ok:
  assumes "evt_step env e e'" and "evt_ok e"
  shows "evt_ok e' \<and> ev_self e' = ev_self e"
proof -
  have small: "out_events e \<noteq> removed_mask \<Longrightarrow> small_mask (out_events e)"
    using assms(2) by (simp add: evt_ok_def)
  show ?thesis
    using assms
  proof cases
    case remove
    then show ?thesis using assms(2)
      by (auto simp: evt_ok_def synced_def RemoveMyself_def RemoveEventer_states split: option.splits)
  next
    case (receive ev)
    then show ?thesis using assms(2) by (auto simp: ReceiveEvents_def evt_ok_def synced_def split: option.splits)
  next
    case (register k b)
    then show ?thesis using assms(2) by (auto simp: RegisterCallback_def evt_ok_def synced_def split: option.splits)
  qed (use small in \<open>simp_all add: EnableReadEvents_def DisableReadEvents_def EnableWriteEvents_def
      DisableWriteEvents_def DisableAllEvents_def UpdateEvents_ok\<close>)
qed

lemma evt_steps_ok:
  "(evt_step env)\<^sup>*\<^sup>* e e' \<Longrightarrow> evt_ok e \<Longrightarrow> evt_ok e' \<and> ev_self e' = ev_self e"
  by (induction rule: rtranclp_induct) (auto dest: evt_step_ok)

lemma Eventer_ok: "evt_ok (Eventer env p a)"
proof -
  have "map_option mask (states (AddEventer env a 0 p) a) = Some 0"
    using SubmitPoll_mask [of env a "p\<lparr>states := (states p)(a \<mapsto> \<lparr>mask = 0, armed = False, poll_key = 0\<rparr>)\<rparr>" a]
    by (simp add: AddEventer_def)
  then show ?thesis
    using small_mask_simps(4) by (auto simp: evt_ok_def synced_def Eventer_def kNoEvent_def removed_mask_def
        split: option.splits)
qed

section \<open>Properties\<close>

text \<open>
  Callbacks that leave the received events alone run in the order close, error, read, write:
  each one that is set and that the events call for runs exactly once, and handling is over
  afterwards.
\<close>

theorem Work_sequence:
  assumes "keeps_events run"
  shows "Work run e = res_bind
    (run_all run (filter (registered e) (due_callbacks (in_events e))) (e\<lparr>is_handling := True\<rparr>))
    (\<lambda>e'. Inr (e'\<lparr>is_handling := False\<rparr>))"
  using in_turn_run_all [OF assms, of work_turns "e\<lparr>is_handling := True\<rparr>"]
  by (simp add: Work_in_turn due_callbacks_turns)

text \<open>A hang-up with data left to read: the data is read before anything is closed.\<close>

theorem Work_sequence_witness:
  "Work (\<lambda>k e. Inr (e\<lparr>ev_fd := ev_fd e * 10 + (if k = ReadCallback then 3 else 1)\<rparr>))
     ((Eventer sample_env sample_start 1)\<lparr>in_events := POLLIN OR POLLHUP, registered := (\<lambda>k. True)\<rparr>) =
   Inr ((Eventer sample_env sample_start 1)\<lparr>ev_fd := 73, in_events := POLLIN OR POLLHUP, registered := (\<lambda>k. True)\<rparr>)"
proof -
  have "keeps_events (\<lambda>k e. Inr (e\<lparr>ev_fd := ev_fd e * 10 + (if k = ReadCallback then 3 else 1)\<rparr>))"
    by (auto simp: keeps_events_def)
  from Work_sequence [OF this, of "(Eventer sample_env sample_start 1)\<lparr>in_events := POLLIN OR POLLHUP,
      registered := (\<lambda>k. True)\<rparr>"]
  show ?thesis
    by (simp add: due_callbacks_def poll_flags Eventer_def sample_env_def)
qed

text \<open>
  Whatever its owner does with an eventer, the poller's record of it holds its current mask, and
  an eventer that removed itself has no record; destroying it while no callback runs leaves no
  record, and destroying it from inside its own callback never returns.
\<close>

theorem eventer_registered:
  assumes "(evt_step env)\<^sup>*\<^sup>* (Eventer env p a) e"
  shows "synced e \<and>
    (if is_handling e then destroy_eventer env e = None
     else (\<exists>q. destroy_eventer env e = Some q \<and> states q a = None))"
proof -
  have ok: "evt_ok e" and self: "ev_self e = a"
    using evt_steps_ok [OF assms Eventer_ok] by (simp_all add: Eventer_def)
  have "states (ev_poller (RemoveMyself env e)) a = None"
    using ok self by (auto simp: RemoveMyself_def RemoveEventer_states evt_ok_def synced_def split: option.splits)
  then show ?thesis using ok by (simp add: evt_ok_def destroy_eventer_def)
qed

theorem eventer_registered_witness:
  "\<exists>q. destroy_eventer sample_env (EnableReadEvents sample_env (Eventer sample_env sample_start 1)) = Some q \<and>
     states q 1 = None"
proof -
  let ?e = "EnableReadEvents sample_env (Eventer sample_env sample_start 1)"
  have "out_events (Eventer sample_env sample_start 1) \<noteq> removed_mask"
    by (simp add: Eventer_def removed_mask_def)
  then have "(evt_step sample_env)\<^sup>*\<^sup>* (Eventer sample_env sample_start 1) ?e"
    by (intro r_into_rtranclp enable_read)
  moreover have "\<not> is_handling ?e" by (simp add: EnableReadEvents_def UpdateEvents_def Eventer_def)
  ultimately show ?thesis using eventer_registered [of sample_env sample_start 1 ?e] by simp
qed

end
