(* ===== verification/Io_Buffer.thy ===== *)
theory Io_Buffer
  imports Taotu_Prelude
begin

text \<open>
  The I/O buffer (\<^verbatim>\<open>src/src/io_buffer.h\<close>, \<^verbatim>\<open>src/src/io_buffer.cc\<close>): one block of bytes with a
  reading and a writing index, the bytes between them waiting to be read, and the bytes before
  the reading index kept for an optional message header.

  A pointer and a length passed to an operation are one list of bytes; a pointer into the
  block is its offset. Every copy into or out of the block checks the bounds of the block
  (\<open>vector::size()\<close>) and gives \<open>OutOfBounds\<close> outside them. What a system call delivers is an
  argument of the operation that makes it.

  \<open>contents\<close> is what a client sees of a buffer; the refinement lemmas state each operation
  on \<open>contents\<close>, and \<open>append_overruns\<close> marks the requests that \<open>Append\<close> cannot serve.
\<close>

section \<open>State and accessors\<close>

record io_buffer =
  buffer :: "byte list"
  reading_index :: nat
  writing_index :: nat

definition kReservedCapacity :: nat where
  "kReservedCapacity = 8"

definition kInitialCapacity :: nat where
  "kInitialCapacity = 1024"

definition vector_new :: "nat \<Rightarrow> byte list res" where
  "vector_new n = (if n \<le> vector_max_size then Inr (replicate n 0) else Inl LengthError)"

definition vector_resize :: "nat \<Rightarrow> byte list \<Rightarrow> byte list res" where
  "vector_resize n xs =
     (if n \<le> vector_max_size then Inr (take n xs @ replicate (n - length xs) 0)
      else Inl LengthError)"

definition IoBuffer :: "nat \<Rightarrow> io_buffer res" where
  "IoBuffer initial_capacity =
     res_bind (vector_new (size_add kReservedCapacity initial_capacity)) (\<lambda>v.
       Inr \<lparr>buffer = v, reading_index = kReservedCapacity, writing_index = kReservedCapacity\<rparr>)"

definition Swap :: "io_buffer \<Rightarrow> io_buffer \<Rightarrow> io_buffer \<times> io_buffer" where
  "Swap a b =
     (a\<lparr>buffer := buffer b, reading_index := reading_index b,
        writing_index := writing_index b\<rparr>,
      b\<lparr>buffer := buffer a, reading_index := reading_index a,
        writing_index := writing_index a\<rparr>)"

definition GetReadableBytes :: "io_buffer \<Rightarrow> nat" where
  "GetReadableBytes b = size_sub (writing_index b) (reading_index b)"

definition GetWritableBytes :: "io_buffer \<Rightarrow> nat" where
  "GetWritableBytes b = size_sub (length (buffer b)) (writing_index b)"

definition GetReservedBytes :: "io_buffer \<Rightarrow> nat" where
  "GetReservedBytes b = reading_index b"


section \<open>Searching\<close>

definition kCrlf :: "byte list" where
  "kCrlf = [13, 10]"

text \<open>The searches give the offset of the match in the block (\<open>None\<close>: a null pointer).\<close>

definition FindCrlf :: "io_buffer \<Rightarrow> nat option res" where
  "FindCrlf b =
     res_bind (mem_read (reading_index b) (GetReadableBytes b) (buffer b)) (\<lambda>hay.
       Inr (map_option (\<lambda>i. reading_index b + i) (memmem kCrlf hay)))"

definition FindCrlf_from :: "nat \<Rightarrow> io_buffer \<Rightarrow> nat option res" where
  "FindCrlf_from start_position b =
     res_bind (mem_read start_position (size_sub (writing_index b) start_position) (buffer b))
       (\<lambda>hay. Inr (map_option (\<lambda>i. start_position + i) (memmem kCrlf hay)))"

definition FindEof :: "io_buffer \<Rightarrow> nat option res" where
  "FindEof b =
     res_bind (mem_read (reading_index b) (GetReadableBytes b) (buffer b)) (\<lambda>hay.
       Inr (map_option (\<lambda>i. reading_index b + i) (memchr 10 hay)))"

definition FindEof_from :: "nat \<Rightarrow> io_buffer \<Rightarrow> nat option res" where
  "FindEof_from start_position b =
     res_bind (mem_read start_position (size_sub (writing_index b) start_position) (buffer b))
       (\<lambda>hay. Inr (map_option (\<lambda>i. start_position + i) (memchr 10 hay)))"


section \<open>Moving the indexes\<close>

definition RefreshRW :: "io_buffer \<Rightarrow> io_buffer" where
  "RefreshRW b = b\<lparr>reading_index := kReservedCapacity, writing_index := kReservedCapacity\<rparr>"

definition RefreshW :: "nat \<Rightarrow> io_buffer \<Rightarrow> io_buffer" where
  "RefreshW len b = b\<lparr>writing_index := size_add (writing_index b) len\<rparr>"

definition Refresh :: "nat \<Rightarrow> io_buffer \<Rightarrow> io_buffer" where
  "Refresh len b =
     (if len < GetReadableBytes b then b\<lparr>reading_index := size_add (reading_index b) len\<rparr>
      else RefreshRW b)"


section \<open>Reading\<close>

definition RetrieveAString :: "nat \<Rightarrow> io_buffer \<Rightarrow> (byte list \<times> io_buffer) res" where
  "RetrieveAString len b =
     (if GetReadableBytes b < len then Inr ([], b)
      else res_bind (mem_read (reading_index b) len (buffer b)) (\<lambda>ret. Inr (ret, Refresh len b)))"

definition RetrieveAllAsString :: "io_buffer \<Rightarrow> (byte list \<times> io_buffer) res" where
  "RetrieveAllAsString b = RetrieveAString (GetReadableBytes b) b"

definition RetrieveAByteArray :: "nat \<Rightarrow> io_buffer \<Rightarrow> (byte list \<times> io_buffer) res" where
  "RetrieveAByteArray len b =
     (if GetReadableBytes b < len then Inr ([], b)
      else res_bind (mem_read (reading_index b) len (buffer b)) (\<lambda>ret. Inr (ret, Refresh len b)))"

definition RetrieveAllAsByteArray :: "io_buffer \<Rightarrow> (byte list \<times> io_buffer) res" where
  "RetrieveAllAsByteArray b = RetrieveAByteArray (GetReadableBytes b) b"

text \<open>
  The integer readers copy the object out of the buffer and convert it from big-endian;
  \<open>le\<close> is the byte order of the host.
\<close>

definition GetReadableInt8 :: "io_buffer \<Rightarrow> 8 word res" where
  "GetReadableInt8 b =
     (if GetReadableBytes b < 1 then Inr 0
      else res_bind (mem_read (reading_index b) 1 (buffer b)) (\<lambda>bs. Inr (hd bs)))"

definition GetReadableInt16 :: "bool \<Rightarrow> io_buffer \<Rightarrow> 16 word res" where
  "GetReadableInt16 le b =
     (if GetReadableBytes b < 2 then Inr 0
      else res_bind (mem_read (reading_index b) 2 (buffer b)) (\<lambda>bs.
        Inr (htobe le 2 (of_host_image le bs))))"

definition GetReadableInt32 :: "bool \<Rightarrow> io_buffer \<Rightarrow> 32 word res" where
  "GetReadableInt32 le b =
     (if GetReadableBytes b < 4 then Inr 0
      else res_bind (mem_read (reading_index b) 4 (buffer b)) (\<lambda>bs.
        Inr (htobe le 4 (of_host_image le bs))))"

definition GetReadableInt64 :: "bool \<Rightarrow> io_buffer \<Rightarrow> 64 word res" where
  "GetReadableInt64 le b =
     (if GetReadableBytes b < 8 then Inr 0
      else res_bind (mem_read (reading_index b) 8 (buffer b)) (\<lambda>bs.
        Inr (htobe le 8 (of_host_image le bs))))"

definition RetrieveInt8 :: "io_buffer \<Rightarrow> (8 word \<times> io_buffer) res" where
  "RetrieveInt8 b = res_bind (GetReadableInt8 b) (\<lambda>x. Inr (x, Refresh 1 b))"

definition RetrieveInt16 :: "bool \<Rightarrow> io_buffer \<Rightarrow> (16 word \<times> io_buffer) res" where
  "RetrieveInt16 le b = res_bind (GetReadableInt16 le b) (\<lambda>x. Inr (x, Refresh 2 b))"

definition RetrieveInt32 :: "bool \<Rightarrow> io_buffer \<Rightarrow> (32 word \<times> io_buffer) res" where
  "RetrieveInt32 le b = res_bind (GetReadableInt32 le b) (\<lambda>x. Inr (x, Refresh 4 b))"

definition RetrieveInt64 :: "bool \<Rightarrow> io_buffer \<Rightarrow> (64 word \<times> io_buffer) res" where
  "RetrieveInt64 le b = res_bind (GetReadableInt64 le b) (\<lambda>x. Inr (x, Refresh 8 b))"


section \<open>Header\<close>

definition SetHeadContent :: "byte list \<Rightarrow> io_buffer \<Rightarrow> io_buffer res" where
  "SetHeadContent str b =
     (if GetReservedBytes b < length str then Inr b
      else
        let b1 = b\<lparr>reading_index := size_sub (reading_index b) (length str)\<rparr>
        in res_bind (mem_write (reading_index b1) str (buffer b1)) (\<lambda>m. Inr (b1\<lparr>buffer := m\<rparr>)))"

definition SetHeadContentInt8 :: "8 word \<Rightarrow> io_buffer \<Rightarrow> io_buffer res" where
  "SetHeadContentInt8 x b = SetHeadContent [x] b"

definition SetHeadContentInt16 :: "bool \<Rightarrow> 16 word \<Rightarrow> io_buffer \<Rightarrow> io_buffer res" where
  "SetHeadContentInt16 le x b = SetHeadContent (host_image le 2 (htobe le 2 x)) b"

definition SetHeadContentInt32 :: "bool \<Rightarrow> 32 word \<Rightarrow> io_buffer \<Rightarrow> io_buffer res" where
  "SetHeadContentInt32 le x b = SetHeadContent (host_image le 4 (htobe le 4 x)) b"

definition SetHeadContentInt64 :: "bool \<Rightarrow> 64 word \<Rightarrow> io_buffer \<Rightarrow> io_buffer res" where
  "SetHeadContentInt64 le x b = SetHeadContent (host_image le 8 (htobe le 8 x)) b"


section \<open>Writing\<close>

text \<open>
  In the second branch the source assigns \<open>reading_index_\<close> before it computes
  \<open>writing_index_ = reading_index_ + GetReadableBytes()\<close>, so the readable bytes are counted
  with the new reading index.
\<close>

definition ReserveWritableSpace :: "nat \<Rightarrow> io_buffer \<Rightarrow> io_buffer res" where
  "ReserveWritableSpace len b =
     (if size_sub (size_add (GetWritableBytes b) (GetReservedBytes b)) kReservedCapacity < len
      then res_bind (vector_resize (size_add (writing_index b) len) (buffer b)) (\<lambda>v.
             Inr (b\<lparr>buffer := v\<rparr>))
      else res_bind (mem_read (reading_index b) (GetReadableBytes b) (buffer b)) (\<lambda>src.
             res_bind (mem_write kReservedCapacity src (buffer b)) (\<lambda>m.
               let b1 = b\<lparr>buffer := m, reading_index := kReservedCapacity\<rparr>
               in Inr (b1\<lparr>writing_index := size_add (reading_index b1) (GetReadableBytes b1)\<rparr>))))"

definition EnsureWritableSpace :: "nat \<Rightarrow> io_buffer \<Rightarrow> io_buffer res" where
  "EnsureWritableSpace len b =
     (if GetWritableBytes b < len then ReserveWritableSpace len b else Inr b)"

definition Append :: "byte list \<Rightarrow> io_buffer \<Rightarrow> io_buffer res" where
  "Append str b =
     res_bind (EnsureWritableSpace (length str) b) (\<lambda>b1.
       res_bind (mem_write (writing_index b1) str (buffer b1)) (\<lambda>m.
         Inr (RefreshW (length str) (b1\<lparr>buffer := m\<rparr>))))"

definition AppendInt8 :: "8 word \<Rightarrow> io_buffer \<Rightarrow> io_buffer res" where
  "AppendInt8 x b = Append [x] b"

definition AppendInt16 :: "bool \<Rightarrow> 16 word \<Rightarrow> io_buffer \<Rightarrow> io_buffer res" where
  "AppendInt16 le x b = Append (host_image le 2 (htobe le 2 x)) b"

definition AppendInt32 :: "bool \<Rightarrow> 32 word \<Rightarrow> io_buffer \<Rightarrow> io_buffer res" where
  "AppendInt32 le x b = Append (host_image le 4 (htobe le 4 x)) b"

definition AppendInt64 :: "bool \<Rightarrow> 64 word \<Rightarrow> io_buffer \<Rightarrow> io_buffer res" where
  "AppendInt64 le x b = Append (host_image le 8 (htobe le 8 x)) b"

definition ShrinkWritableSpace :: "nat \<Rightarrow> io_buffer \<Rightarrow> io_buffer res" where
  "ShrinkWritableSpace len b =
     (if len \<le> 32 then Inr b
      else res_bind (IoBuffer kInitialCapacity) (\<lambda>n0.
        res_bind (EnsureWritableSpace
                    (size_add (size_add kReservedCapacity (GetReadableBytes b)) len) n0) (\<lambda>n1.
          res_bind (mem_read (reading_index b) (GetReadableBytes b) (buffer b)) (\<lambda>src.
            res_bind (Append src n1) (\<lambda>n2. Inr (fst (Swap b n2)))))))"


section \<open>File descriptors\<close>

text \<open>
  \<open>recvmsg\<close> either fails with an errno (\<open>Inl\<close>) or delivers bytes (\<open>Inr\<close>), first into the
  writable part of the buffer and then into the 64 KiB extra buffer on the stack. The result is
  the return value, the errno stored in \<open>*tmp_errno\<close> and the buffer. \<open>iov_writable\<close> is
  \<open>iov_len\<close> of the first segment: the writable bytes narrowed to \<open>int\<close> and widened again.
\<close>

type_synonym recv_result = "int + byte list"

definition iov_writable :: "io_buffer \<Rightarrow> nat" where
  "iov_writable b = nat (to_int32 (int (GetWritableBytes b)) mod 2 ^ 64)"

definition recv_capacity :: "io_buffer \<Rightarrow> nat" where
  "recv_capacity b =
     (if to_int32 (int (GetWritableBytes b)) < 64 * 1024 then iov_writable b + 64 * 1024
      else iov_writable b)"

definition ReadFromFd :: "recv_result \<Rightarrow> io_buffer \<Rightarrow> (int \<times> int option \<times> io_buffer) res" where
  "ReadFromFd r b =
     (case r of
        Inl e \<Rightarrow> Inr (- 1, Some e, b)
      | Inr received \<Rightarrow>
          let n = length received; writable_bytes = iov_writable b
          in res_bind (mem_write (writing_index b) (take writable_bytes received) (buffer b)) (\<lambda>m.
               let b1 = b\<lparr>buffer := m\<rparr>
               in if n \<le> writable_bytes
                  then Inr (int n, None,
                            b1\<lparr>writing_index := size_add (writing_index b1) n\<rparr>)
                  else res_bind (Append (drop writable_bytes received)
                                        (b1\<lparr>writing_index := length (buffer b1)\<rparr>)) (\<lambda>b2.
                         Inr (int n, None, b2))))"

text \<open>
  The second overload loops on \<open>recv\<close> until \<open>read_len\<close> is zero. The list holds the results of
  the successive calls; the results that are left over are returned, and \<open>None\<close> is a loop that
  has used them all and calls \<open>recv\<close> again. A
  failed call returns -1, which the source subtracts from \<open>read_len\<close> and adds to
  \<open>writing_index_\<close>.
\<close>

fun recv_loop ::
  "recv_result list \<Rightarrow> nat \<Rightarrow> int \<Rightarrow> io_buffer \<Rightarrow>
   (int \<times> recv_result list \<times> io_buffer) option res"
where
  "recv_loop rs read_len n b =
     (if read_len = 0 then Inr (Some (n, rs, b))
      else case rs of
        [] \<Rightarrow> Inr None
      | Inl e # rs' \<Rightarrow>
          recv_loop rs' (size_add read_len 1) (n - 1)
            (b\<lparr>writing_index := size_sub (writing_index b) 1\<rparr>)
      | Inr received # rs' \<Rightarrow>
          res_bind (mem_write (writing_index b) received (buffer b)) (\<lambda>m.
            recv_loop rs' (size_sub read_len (length received)) (n + int (length received))
              (b\<lparr>buffer := m, writing_index := size_add (writing_index b) (length received)\<rparr>)))"

definition ReadFromFd_len ::
  "recv_result list \<Rightarrow> nat \<Rightarrow> io_buffer \<Rightarrow> (int \<times> recv_result list \<times> io_buffer) option res" where
  "ReadFromFd_len rs read_len b =
     res_bind (EnsureWritableSpace read_len b) (\<lambda>b1. recv_loop rs read_len 0 b1)"

text \<open>
  \<open>send\<close> fails (\<open>Inl\<close>) or accepts a number of bytes (\<open>Inr\<close>). The result is the return value,
  the bytes handed to the kernel and the buffer.
\<close>

definition WriteToFd :: "int + nat \<Rightarrow> io_buffer \<Rightarrow> (int \<times> byte list \<times> io_buffer) res" where
  "WriteToFd r b =
     res_bind (mem_read (reading_index b) (GetReadableBytes b) (buffer b)) (\<lambda>src.
       case r of
         Inl e \<Rightarrow> Inr (- 1, [], b)
       | Inr n \<Rightarrow> Inr (int n, take n src, if 0 < n then Refresh n b else b))"

declare recv_loop.simps [simp del]


section \<open>Well-formed buffers\<close>

named_theorems buf_simps \<open>accessors of a well-formed buffer\<close>

definition io_buffer_ok :: "io_buffer \<Rightarrow> bool" where
  "io_buffer_ok b \<longleftrightarrow>
     reading_index b \<le> writing_index b \<and> writing_index b \<le> length (buffer b) \<and>
     kReservedCapacity \<le> length (buffer b) \<and> length (buffer b) \<le> vector_max_size"

definition contents :: "io_buffer \<Rightarrow> byte list" where
  "contents b = take (writing_index b - reading_index b) (drop (reading_index b) (buffer b))"

definition writable :: "io_buffer \<Rightarrow> nat" where
  "writable b = length (buffer b) - writing_index b"

lemma io_buffer_okD:
  assumes "io_buffer_ok b"
  shows "reading_index b \<le> writing_index b" and "writing_index b \<le> length (buffer b)"
    and "kReservedCapacity \<le> length (buffer b)" and "length (buffer b) \<le> vector_max_size"
  using assms by (auto simp: io_buffer_ok_def)

lemma GetReadableBytes_ok [buf_simps]:
  "io_buffer_ok b \<Longrightarrow> GetReadableBytes b = writing_index b - reading_index b"
  using io_buffer_okD [of b] by (simp add: GetReadableBytes_def size_sub_max)

lemma GetWritableBytes_ok [buf_simps]: "io_buffer_ok b \<Longrightarrow> GetWritableBytes b = writable b"
  using io_buffer_okD [of b] by (simp add: GetWritableBytes_def writable_def size_sub_max)

lemma length_contents: "io_buffer_ok b \<Longrightarrow> length (contents b) = writing_index b - reading_index b"
  by (auto simp: contents_def io_buffer_ok_def)

lemma GetReadableBytes_contents: "io_buffer_ok b \<Longrightarrow> GetReadableBytes b = length (contents b)"
  by (simp add: GetReadableBytes_ok length_contents)

lemma mem_read_contents [buf_simps]:
  "io_buffer_ok b \<Longrightarrow> n \<le> length (contents b) \<Longrightarrow>
   mem_read (reading_index b) n (buffer b) = Inr (take n (contents b))"
  using io_buffer_okD(1,2) [of b]
  by (simp add: length_contents) (simp add: contents_def mem_read_def min_absorb1)

lemma IoBuffer_ok:
  assumes "IoBuffer c = Inr b" and "8 + c \<le> vector_max_size"
  shows "io_buffer_ok b \<and> contents b = [] \<and> writable b = c"
proof -
  have "size_add kReservedCapacity c = 8 + c"
    using assms(2) by (simp add: size_add_max kReservedCapacity_def)
  with assms show ?thesis
    by (auto simp: IoBuffer_def vector_new_def res_bind_Inr_iff io_buffer_ok_def contents_def
        writable_def kReservedCapacity_def split: if_splits)
qed


subsection \<open>The indexes\<close>

lemma RefreshRW_ok [simp]: "io_buffer_ok b \<Longrightarrow> io_buffer_ok (RefreshRW b)"
  by (simp add: io_buffer_ok_def RefreshRW_def)

lemma contents_RefreshRW [simp]: "contents (RefreshRW b) = []"
  by (simp add: contents_def RefreshRW_def)

lemma writing_index_add:
  "io_buffer_ok b \<Longrightarrow> n \<le> writable b \<Longrightarrow> size_add (writing_index b) n = writing_index b + n"
  using io_buffer_okD(2,4) [of b] by (intro size_add_max) (simp add: writable_def)

lemma RefreshW_eq:
  "io_buffer_ok b \<Longrightarrow> n \<le> writable b \<Longrightarrow>
   RefreshW n b = b\<lparr>writing_index := writing_index b + n\<rparr>"
  by (simp add: RefreshW_def writing_index_add)

lemma RefreshW_ok: "io_buffer_ok b \<Longrightarrow> n \<le> writable b \<Longrightarrow> io_buffer_ok (RefreshW n b)"
  using io_buffer_okD(1,2) [of b]
  by (simp add: RefreshW_eq) (simp add: io_buffer_ok_def writable_def)

lemma reading_index_add:
  "io_buffer_ok b \<Longrightarrow> n \<le> writing_index b - reading_index b \<Longrightarrow>
   size_add (reading_index b) n = reading_index b + n"
  using io_buffer_okD [of b] by (intro size_add_max) simp

lemma Refresh_ok: "io_buffer_ok b \<Longrightarrow> io_buffer_ok (Refresh n b)"
  using reading_index_add [of b n]
  by (cases "n < writing_index b - reading_index b")
    (auto simp: Refresh_def GetReadableBytes_ok io_buffer_ok_def RefreshRW_def)

lemma contents_Refresh:
  assumes "io_buffer_ok b"
  shows "contents (Refresh n b) = drop n (contents b)"
proof (cases "n < writing_index b - reading_index b")
  case True
  then have "contents (Refresh n b) =
      take (writing_index b - (reading_index b + n)) (drop (reading_index b + n) (buffer b))"
    using assms by (simp add: Refresh_def GetReadableBytes_ok reading_index_add contents_def)
  then show ?thesis by (simp add: contents_def drop_take add.commute)
next
  case False
  then show ?thesis
    using assms by (simp add: Refresh_def GetReadableBytes_ok length_contents)
qed

lemma buffer_Refresh [simp]: "buffer (Refresh n b) = buffer b"
  by (simp add: Refresh_def RefreshRW_def)

lemma Refresh_room:
  "kReservedCapacity \<le> writing_index b \<Longrightarrow>
   kReservedCapacity \<le> writing_index (Refresh n b) \<and> writable b \<le> writable (Refresh n b)"
  by (auto simp: Refresh_def RefreshRW_def writable_def)

text \<open>
  What \<open>Refresh\<close> leaves readable, for any indexes at all: the loops that consume a buffer end.
\<close>

lemma GetReadableBytes_Refresh: "GetReadableBytes (Refresh n b) = GetReadableBytes b - n"
  by (auto simp: GetReadableBytes_def Refresh_def RefreshRW_def size_sub_add
      size_sub_small kReservedCapacity_def)


subsection \<open>Reading\<close>

lemma RetrieveAString_ok:
  assumes "io_buffer_ok b"
  shows "RetrieveAString n b =
    Inr (if n \<le> length (contents b) then (take n (contents b), Refresh n b) else ([], b))"
  using assms by (simp add: RetrieveAString_def GetReadableBytes_contents mem_read_contents)

lemma RetrieveAByteArray_eq: "RetrieveAByteArray n b = RetrieveAString n b"
  by (simp add: RetrieveAByteArray_def RetrieveAString_def)

lemma RetrieveAllAsString_ok:
  "io_buffer_ok b \<Longrightarrow> RetrieveAllAsString b = Inr (contents b, Refresh (length (contents b)) b)"
  by (simp add: RetrieveAllAsString_def RetrieveAString_ok GetReadableBytes_contents)

lemma GetReadableInt8_ok:
  assumes "io_buffer_ok b"
  shows "GetReadableInt8 b = Inr (if contents b = [] then 0 else hd (contents b))"
  using assms by (cases "contents b")
    (auto simp: GetReadableInt8_def GetReadableBytes_contents mem_read_contents)

lemma GetReadableInt16_ok:
  assumes "io_buffer_ok b"
  shows "GetReadableInt16 le b =
    Inr (if length (contents b) < 2 then 0 else be_word (take 2 (contents b)))"
  using assms by (auto simp: GetReadableInt16_def GetReadableBytes_contents mem_read_contents
      htobe_of_host_image)

lemma GetReadableInt32_ok:
  assumes "io_buffer_ok b"
  shows "GetReadableInt32 le b =
    Inr (if length (contents b) < 4 then 0 else be_word (take 4 (contents b)))"
  using assms by (auto simp: GetReadableInt32_def GetReadableBytes_contents mem_read_contents
      htobe_of_host_image)

lemma GetReadableInt64_ok:
  assumes "io_buffer_ok b"
  shows "GetReadableInt64 le b =
    Inr (if length (contents b) < 8 then 0 else be_word (take 8 (contents b)))"
  using assms by (auto simp: GetReadableInt64_def GetReadableBytes_contents mem_read_contents
      htobe_of_host_image)

lemmas GetReadableInt_ok =
  GetReadableInt8_ok GetReadableInt16_ok GetReadableInt32_ok GetReadableInt64_ok

lemmas RetrieveInt_defs =
  RetrieveInt8_def RetrieveInt16_def RetrieveInt32_def RetrieveInt64_def


subsection \<open>Writing\<close>

text \<open>
  The requests that \<open>ReserveWritableSpace\<close> answers by moving the readable bytes to the front
  instead of growing the block. The move does not lower \<open>writing_index_\<close>, so no space is won.
\<close>

definition append_overruns :: "io_buffer \<Rightarrow> nat \<Rightarrow> bool" where
  "append_overruns b n \<longleftrightarrow>
     writable b < n \<and>
     (reading_index b + writable b < kReservedCapacity \<or>
      n + kReservedCapacity \<le> reading_index b + writable b)"

lemma writable_plus: "io_buffer_ok b \<Longrightarrow> writing_index b + writable b = length (buffer b)"
  using io_buffer_okD [of b] by (simp add: writable_def)

lemma reserve_sum:
  assumes "io_buffer_ok b"
  shows "size_add (GetWritableBytes b) (GetReservedBytes b) = reading_index b + writable b"
    and "reading_index b + writable b \<le> vector_max_size"
proof -
  show le: "reading_index b + writable b \<le> vector_max_size"
    using io_buffer_okD [OF assms] writable_plus [OF assms] by linarith
  show "size_add (GetWritableBytes b) (GetReservedBytes b) = reading_index b + writable b"
    using le by (simp add: GetWritableBytes_ok [OF assms] GetReservedBytes_def size_add_max
        add.commute)
qed

lemma reserve_guard:
  assumes "io_buffer_ok b" and "kReservedCapacity \<le> reading_index b + writable b"
  shows "size_sub (size_add (GetWritableBytes b) (GetReservedBytes b)) kReservedCapacity =
    reading_index b + writable b - kReservedCapacity"
  using assms reserve_sum [OF assms(1)] by (simp add: size_sub_max)

lemma reserve_guard_wraps:
  assumes "io_buffer_ok b" and "reading_index b + writable b < kReservedCapacity"
    and "n \<le> vector_max_size"
  shows "n \<le> size_sub (size_add (GetWritableBytes b) (GetReservedBytes b)) kReservedCapacity"
proof -
  have "size_sub (size_add (GetWritableBytes b) (GetReservedBytes b)) kReservedCapacity =
      2 ^ 64 - (kReservedCapacity - (reading_index b + writable b))"
    using assms(2) unfolding reserve_sum(1) [OF assms(1)]
    by (rule size_sub_wrap) (simp add: kReservedCapacity_def)
  moreover have "kReservedCapacity - (reading_index b + writable b) \<le> 8"
    by (simp add: kReservedCapacity_def)
  moreover have "n + 8 \<le> 2 ^ 64"
    using assms(3) by (simp add: vector_max_size_def)
  ultimately show ?thesis by linarith
qed

lemma reserve_guard_iff:
  assumes "io_buffer_ok b" and "writable b < n" and "n \<le> vector_max_size"
  shows "size_sub (size_add (GetWritableBytes b) (GetReservedBytes b)) kReservedCapacity < n
    \<longleftrightarrow> \<not> append_overruns b n"
proof (cases "kReservedCapacity \<le> reading_index b + writable b")
  case True
  then show ?thesis
    unfolding reserve_guard [OF assms(1) True] append_overruns_def using assms(2) by linarith
next
  case False
  then have "append_overruns b n" using assms(2) by (simp add: append_overruns_def)
  moreover have "n \<le> size_sub (size_add (GetWritableBytes b) (GetReservedBytes b)) kReservedCapacity"
    using False assms(1,3) by (intro reserve_guard_wraps) simp_all
  ultimately show ?thesis by simp
qed

lemma ReserveWritableSpace_grow:
  assumes ok: "io_buffer_ok b" and "writable b < n" and "\<not> append_overruns b n"
    and "writing_index b + n \<le> vector_max_size"
  shows "ReserveWritableSpace n b =
    Inr (b\<lparr>buffer := buffer b @ replicate (n - writable b) 0\<rparr>)"
proof -
  have len: "length (buffer b) \<le> writing_index b + n"
    "writing_index b + n - length (buffer b) = n - writable b"
    using writable_plus [OF ok] assms(2) by linarith+
  have "n \<le> vector_max_size" using assms(4) by linarith
  then show ?thesis
    using len assms(4) reserve_guard_iff [OF ok assms(2)] assms(3)
    by (simp add: ReserveWritableSpace_def size_add_max vector_resize_def)
qed

lemma ReserveWritableSpace_no_room:
  assumes ok: "io_buffer_ok b" and "writable b < n" and "\<not> append_overruns b n"
    and "n \<le> vector_max_size" and "vector_max_size < writing_index b + n"
  shows "ReserveWritableSpace n b = Inl LengthError"
proof -
  have "writing_index b + n \<le> vector_max_size + vector_max_size"
    using io_buffer_okD [OF ok] assms(4) by linarith
  then have "writing_index b + n < 2 ^ 64" by (simp add: vector_max_size_def)
  then have "size_add (writing_index b) n = writing_index b + n" by (rule size_add_small)
  then show ?thesis
    using assms(5) reserve_guard_iff [OF ok assms(2,4)] assms(3)
    by (simp add: ReserveWritableSpace_def vector_resize_def)
qed

lemma ReserveWritableSpace_overrun:
  assumes ok: "io_buffer_ok b" and over: "append_overruns b n" and "n \<le> vector_max_size"
  shows "ReserveWritableSpace n b = Inl OutOfBounds \<or>
    (\<exists>b'. ReserveWritableSpace n b = Inr b' \<and> writing_index b' = writing_index b \<and>
          length (buffer b') = length (buffer b))"
proof -
  define m where "m = take kReservedCapacity (buffer b) @ contents b @
    drop (kReservedCapacity + length (contents b)) (buffer b)"
  define b1 where "b1 = b\<lparr>buffer := m, reading_index := kReservedCapacity\<rparr>"
  have g: "writable b < n" using over by (simp add: append_overruns_def)
  have eq: "ReserveWritableSpace n b =
      res_bind (mem_write kReservedCapacity (contents b) (buffer b)) (\<lambda>m.
        let b1 = b\<lparr>buffer := m, reading_index := kReservedCapacity\<rparr>
        in Inr (b1\<lparr>writing_index := size_add (reading_index b1) (GetReadableBytes b1)\<rparr>))"
    using reserve_guard_iff [OF ok g assms(3)] over
    by (simp add: ReserveWritableSpace_def GetReadableBytes_contents [OF ok]
        mem_read_contents [OF ok])
  show ?thesis
  proof (cases "kReservedCapacity \<le> reading_index b")
    case False
    then have "length (buffer b) < kReservedCapacity + length (contents b)"
      using over g writable_plus [OF ok] io_buffer_okD [OF ok]
      by (simp add: append_overruns_def length_contents [OF ok])
    then show ?thesis by (simp add: eq mem_write_out)
  next
    case True
    then have fits: "kReservedCapacity + length (contents b) \<le> length (buffer b)"
      using io_buffer_okD [OF ok] by (simp add: length_contents [OF ok])
    have lm: "length m = length (buffer b)" using fits by (simp add: m_def)
    have ok1: "io_buffer_ok b1"
      using io_buffer_okD [OF ok] True lm by (simp add: io_buffer_ok_def b1_def)
    have "mem_write kReservedCapacity (contents b) (buffer b) = Inr m"
      using fits by (simp add: mem_write_in m_def)
    moreover have "size_add (reading_index b1) (GetReadableBytes b1) = writing_index b"
      using reading_index_add [OF ok1] GetReadableBytes_ok [OF ok1] io_buffer_okD [OF ok1]
      by (simp add: b1_def)
    ultimately show ?thesis by (simp add: eq b1_def lm)
  qed
qed

lemma contents_extend:
  "io_buffer_ok b \<Longrightarrow> contents (b\<lparr>buffer := buffer b @ zs\<rparr>) = contents b"
  using io_buffer_okD [of b] by (simp add: contents_def)

text \<open>A copy into the writable bytes followed by \<open>RefreshW\<close>.\<close>

lemma write_contents:
  assumes ok: "io_buffer_ok b" and "length xs \<le> writable b"
  shows "\<exists>m. mem_write (writing_index b) xs (buffer b) = Inr m \<and>
    io_buffer_ok (RefreshW (length xs) (b\<lparr>buffer := m\<rparr>)) \<and>
    contents (RefreshW (length xs) (b\<lparr>buffer := m\<rparr>)) = contents b @ xs \<and>
    length m = length (buffer b)"
proof -
  let ?w = "writing_index b" and ?r = "reading_index b"
  define m where "m = take ?w (buffer b) @ xs @ drop (?w + length xs) (buffer b)"
  note bounds = io_buffer_okD [OF ok]
  have fits: "?w + length xs \<le> length (buffer b)"
    using assms(2) writable_plus [OF ok] by linarith
  have lm: "length m = length (buffer b)" using fits by (simp add: m_def)
  have ok1: "io_buffer_ok (b\<lparr>buffer := m\<rparr>)" using ok lm by (simp add: io_buffer_ok_def)
  have room: "length xs \<le> writable (b\<lparr>buffer := m\<rparr>)"
    using assms(2) lm by (simp add: writable_def)
  have "contents (RefreshW (length xs) (b\<lparr>buffer := m\<rparr>)) =
      take (?w + length xs - ?r) (drop ?r m)"
    using RefreshW_eq [OF ok1 room] by (simp add: contents_def)
  also have "\<dots> = drop ?r (take (?w + length xs) m)" by (simp add: drop_take)
  also have "take (?w + length xs) m = take ?w (buffer b) @ xs"
    using bounds by (simp add: m_def)
  also have "drop ?r (take ?w (buffer b) @ xs) = contents b @ xs"
    using bounds by (simp add: contents_def drop_take)
  finally show ?thesis
    using fits lm RefreshW_ok [OF ok1 room] by (auto simp: mem_write_in m_def)
qed

lemma Append_fits:
  assumes ok: "io_buffer_ok b" and "length xs \<le> writable b"
  shows "\<exists>b'. Append xs b = Inr b' \<and> io_buffer_ok b' \<and> contents b' = contents b @ xs \<and>
    reading_index b' = reading_index b"
  using write_contents [OF assms] assms(2)
  by (auto simp: Append_def EnsureWritableSpace_def GetWritableBytes_ok [OF ok] RefreshW_def)

lemma Append_grows:
  assumes ok: "io_buffer_ok b" and "writable b < length xs" and "\<not> append_overruns b (length xs)"
    and max: "writing_index b + length xs \<le> vector_max_size"
  shows "\<exists>b'. Append xs b = Inr b' \<and> io_buffer_ok b' \<and> contents b' = contents b @ xs \<and>
    reading_index b' = reading_index b"
proof -
  define b1 where "b1 = b\<lparr>buffer := buffer b @ replicate (length xs - writable b) 0\<rparr>"
  note bounds = io_buffer_okD [OF ok] and plus = writable_plus [OF ok]
  have len: "length (buffer b1) = writing_index b + length xs"
    using plus assms(2) by (simp add: b1_def)
  have ok1: "io_buffer_ok b1"
    using bounds len max assms(2) plus by (simp add: io_buffer_ok_def b1_def)
  have "length xs \<le> writable b1" using len by (simp add: writable_def b1_def)
  from write_contents [OF ok1 this] obtain m where
    m: "mem_write (writing_index b1) xs (buffer b1) = Inr m"
      "io_buffer_ok (RefreshW (length xs) (b1\<lparr>buffer := m\<rparr>))"
      "contents (RefreshW (length xs) (b1\<lparr>buffer := m\<rparr>)) = contents b1 @ xs" by blast
  have "EnsureWritableSpace (length xs) b = Inr b1"
    using ReserveWritableSpace_grow [OF ok assms(2-4)] assms(2)
    by (simp add: EnsureWritableSpace_def GetWritableBytes_ok [OF ok] b1_def)
  with m show ?thesis
    using contents_extend [OF ok] by (auto simp: Append_def RefreshW_def b1_def)
qed


lemma Append_ok:
  assumes "io_buffer_ok b" and "\<not> append_overruns b (length xs)"
    and "writing_index b + length xs \<le> vector_max_size"
  shows "\<exists>b'. Append xs b = Inr b' \<and> io_buffer_ok b' \<and> contents b' = contents b @ xs \<and>
    reading_index b' = reading_index b"
  using Append_fits [OF assms(1)] Append_grows [OF assms(1) _ assms(2,3)]
  by (cases "length xs \<le> writable b") auto

lemma Append_overrun:
  assumes ok: "io_buffer_ok b" and over: "append_overruns b (length xs)"
    and max: "length xs \<le> vector_max_size"
  shows "Append xs b = Inl OutOfBounds"
proof -
  have g: "writable b < length xs" using over by (simp add: append_overruns_def)
  then have "length (buffer b) < writing_index b + length xs"
    using writable_plus [OF ok] by linarith
  with ReserveWritableSpace_overrun [OF ok over max] g show ?thesis
    by (auto simp: Append_def EnsureWritableSpace_def GetWritableBytes_ok [OF ok] mem_write_out)
qed

lemma Append_too_long:
  assumes ok: "io_buffer_ok b" and "\<not> append_overruns b (length xs)"
    and "length xs \<le> vector_max_size" and "vector_max_size < writing_index b + length xs"
  shows "Append xs b = Inl LengthError"
proof -
  have g: "writable b < length xs"
    using assms(4) writable_plus [OF ok] io_buffer_okD [OF ok] by linarith
  with ReserveWritableSpace_no_room [OF ok g assms(2-4)] show ?thesis
    by (simp add: Append_def EnsureWritableSpace_def GetWritableBytes_ok [OF ok])
qed

lemma Append_Inr:
  assumes ok: "io_buffer_ok b" and max: "length xs \<le> vector_max_size" and r: "Append xs b = Inr b'"
  shows "io_buffer_ok b' \<and> contents b' = contents b @ xs \<and> reading_index b' = reading_index b"
proof -
  have no: "\<not> append_overruns b (length xs)"
    using Append_overrun [OF ok _ max] r by auto
  have "writing_index b + length xs \<le> vector_max_size"
    using Append_too_long [OF ok no max] r by (cases "vector_max_size < writing_index b + length xs") auto
  from Append_ok [OF ok no this] r show ?thesis by auto
qed

lemma EnsureWritableSpace_ok:
  assumes ok: "io_buffer_ok b" and max: "n \<le> vector_max_size"
    and "\<not> append_overruns b n" and r: "EnsureWritableSpace n b = Inr b'"
  shows "io_buffer_ok b' \<and> contents b' = contents b \<and> reading_index b' = reading_index b \<and>
    writing_index b' = writing_index b \<and> n \<le> writable b'"
proof (cases "writable b < n")
  case False
  then show ?thesis using ok r by (simp add: EnsureWritableSpace_def GetWritableBytes_ok)
next
  case True
  have le: "writing_index b + n \<le> vector_max_size"
    using ReserveWritableSpace_no_room [OF ok True assms(3) max] r True
    by (cases "vector_max_size < writing_index b + n")
      (auto simp: EnsureWritableSpace_def GetWritableBytes_ok [OF ok])
  have b': "b' = b\<lparr>buffer := buffer b @ replicate (n - writable b) 0\<rparr>"
    using ReserveWritableSpace_grow [OF ok True assms(3) le] r True
    by (simp add: EnsureWritableSpace_def GetWritableBytes_ok [OF ok])
  have "length (buffer b') = writing_index b + n"
    using writable_plus [OF ok] True by (simp add: b')
  then show ?thesis
    using io_buffer_okD [OF ok] le contents_extend [OF ok] writable_plus [OF ok] True
    by (simp add: io_buffer_ok_def b' writable_def)
qed

lemma EnsureWritableSpace_Inr_ok:
  assumes ok: "io_buffer_ok b" and max: "n \<le> vector_max_size"
    and r: "EnsureWritableSpace n b = Inr b'"
  shows "io_buffer_ok b'"
proof (cases "append_overruns b n")
  case False
  then show ?thesis using EnsureWritableSpace_ok [OF ok max _ r] by simp
next
  case True
  then have g: "writable b < n" by (simp add: append_overruns_def)
  from ReserveWritableSpace_overrun [OF ok True max] r g
  have w: "writing_index b' = writing_index b" "length (buffer b') = length (buffer b)"
    by (auto simp: EnsureWritableSpace_def GetWritableBytes_ok [OF ok])
  have "reading_index b' = kReservedCapacity"
    using r g reserve_guard_iff [OF ok g max] True
    by (auto simp: EnsureWritableSpace_def GetWritableBytes_ok [OF ok] ReserveWritableSpace_def
        res_bind_Inr_iff Let_def)
  moreover have "kReservedCapacity \<le> writing_index b"
  proof (rule ccontr)
    assume "\<not> kReservedCapacity \<le> writing_index b"
    then have "length (buffer b) < kReservedCapacity + length (contents b)"
      using True g io_buffer_okD [OF ok] writable_plus [OF ok]
      by (simp add: append_overruns_def length_contents [OF ok])
    then have "ReserveWritableSpace n b = Inl OutOfBounds"
      using reserve_guard_iff [OF ok g max] True
      by (simp add: ReserveWritableSpace_def GetReadableBytes_contents [OF ok]
          mem_read_contents [OF ok] mem_write_out)
    with r g show False by (simp add: EnsureWritableSpace_def GetWritableBytes_ok [OF ok])
  qed
  ultimately show ?thesis using w io_buffer_okD [OF ok] by (simp add: io_buffer_ok_def)
qed

text \<open>A buffer that has not been read in part (its reading index is 8) never overruns.\<close>

lemma fresh_no_overrun: "reading_index b = kReservedCapacity \<Longrightarrow> \<not> append_overruns b n"
  by (auto simp: append_overruns_def)

lemma Append_fresh:
  assumes "io_buffer_ok b" and "reading_index b = kReservedCapacity"
    and "kReservedCapacity + length (contents b) + length xs \<le> vector_max_size"
  shows "\<exists>b'. Append xs b = Inr b' \<and> io_buffer_ok b' \<and> contents b' = contents b @ xs \<and>
    reading_index b' = kReservedCapacity"
proof -
  have "writing_index b = kReservedCapacity + length (contents b)"
    using length_contents [OF assms(1)] assms(2) io_buffer_okD(1) [OF assms(1)] by simp
  then show ?thesis
    using Append_ok [OF assms(1) fresh_no_overrun [OF assms(2)], of xs] assms(2,3) by simp
qed


subsection \<open>Header\<close>

lemma SetHeadContent_short:
  "reading_index b < length str \<Longrightarrow> SetHeadContent str b = Inr b"
  by (simp add: SetHeadContent_def GetReservedBytes_def)

lemma SetHeadContent_ok:
  assumes ok: "io_buffer_ok b" and "length str \<le> reading_index b"
  shows "\<exists>b'. SetHeadContent str b = Inr b' \<and> io_buffer_ok b' \<and> contents b' = str @ contents b \<and>
    writable b' = writable b \<and> reading_index b' = reading_index b - length str"
proof -
  let ?r = "reading_index b - length str"
  define m where "m = take ?r (buffer b) @ str @ drop (reading_index b) (buffer b)"
  note bounds = io_buffer_okD [OF ok]
  have sub: "size_sub (reading_index b) (length str) = ?r"
    using assms(2) bounds by (intro size_sub_max) linarith+
  have lm: "length m = length (buffer b)" using assms(2) bounds by (simp add: m_def)
  define b' where "b' = b\<lparr>reading_index := ?r, buffer := m\<rparr>"
  have "SetHeadContent str b = Inr b'"
    using assms(2) bounds
    by (simp add: SetHeadContent_def GetReservedBytes_def sub mem_write_in m_def b'_def)
  moreover have "drop ?r m = str @ drop (reading_index b) (buffer b)"
    using assms(2) bounds by (simp add: m_def)
  then have "contents b' = str @ contents b"
    using assms(2) bounds by (simp add: b'_def contents_def)
  moreover have "io_buffer_ok b'" "writable b' = writable b"
    using bounds lm by (auto simp: b'_def io_buffer_ok_def writable_def)
  ultimately show ?thesis by (auto simp: b'_def)
qed


subsection \<open>Shrinking\<close>

lemma IoBuffer_initial:
  "\<exists>n0. IoBuffer kInitialCapacity = Inr n0 \<and> io_buffer_ok n0 \<and> contents n0 = [] \<and>
     writable n0 = 1024 \<and> reading_index n0 = kReservedCapacity"
proof -
  have "IoBuffer kInitialCapacity = Inr \<lparr>buffer = replicate 1032 0, reading_index = 8, writing_index = 8\<rparr>"
    by (simp add: IoBuffer_def vector_new_def size_add_def kReservedCapacity_def
        kInitialCapacity_def vector_max_size_def)
  then show ?thesis
    by (simp add: io_buffer_ok_def contents_def writable_def kReservedCapacity_def
        vector_max_size_def)
qed

lemma Swap_fst: "fst (Swap a b) = b"
  by (simp add: Swap_def)

lemma Swap_snd: "snd (Swap a b) = a"
  by (simp add: Swap_def)

lemma writable_Append:
  assumes "io_buffer_ok b" and "length xs \<le> writable b" and "Append xs b = Inr b'"
  shows "writable b' = writable b - length xs"
  using assms writable_plus [OF assms(1)] writing_index_add [OF assms(1,2)]
  by (auto simp: Append_def EnsureWritableSpace_def GetWritableBytes_ok res_bind_Inr_iff
      RefreshW_def writable_def dest!: mem_write_length)

lemma Append_length:
  assumes "io_buffer_ok b" and "length xs \<le> writable b" and "Append xs b = Inr b'"
  shows "length (buffer b') = length (buffer b)"
  using assms by (auto simp: Append_def EnsureWritableSpace_def GetWritableBytes_ok res_bind_Inr_iff
      RefreshW_def dest!: mem_write_length)

lemma ShrinkWritableSpace_ok:
  assumes ok: "io_buffer_ok b" and n: "32 < n"
    and max: "16 + length (contents b) + n \<le> vector_max_size"
  shows "\<exists>b'. ShrinkWritableSpace n b = Inr b' \<and> io_buffer_ok b' \<and> contents b' = contents b \<and>
    n \<le> writable b' \<and> reading_index b' = kReservedCapacity"
proof -
  let ?c = "contents b"
  let ?need = "kReservedCapacity + length ?c + n"
  obtain n0 where n0: "IoBuffer kInitialCapacity = Inr n0" "io_buffer_ok n0" "contents n0 = []"
    "writable n0 = 1024" "reading_index n0 = kReservedCapacity"
    using IoBuffer_initial by blast
  have w0: "writing_index n0 = kReservedCapacity"
    using length_contents [OF n0(2)] n0(3,5) io_buffer_okD(1) [OF n0(2)] by simp
  have need: "size_add (size_add kReservedCapacity (length ?c)) n = ?need"
    using max by (simp add: size_add_max kReservedCapacity_def)
  have le: "?need \<le> vector_max_size" "kReservedCapacity + ?need \<le> vector_max_size"
    using max by (simp_all add: kReservedCapacity_def)
  have no: "\<not> append_overruns n0 ?need" using n0(5) by (rule fresh_no_overrun)
  obtain n1 where n1: "EnsureWritableSpace ?need n0 = Inr n1"
    using ReserveWritableSpace_grow [OF n0(2) _ no] le w0
    by (cases "writable n0 < ?need") (auto simp: EnsureWritableSpace_def GetWritableBytes_ok [OF n0(2)])
  note n1_ok = EnsureWritableSpace_ok [OF n0(2) le(1) no n1]
  then have ok1: "io_buffer_ok n1" and room: "length ?c \<le> writable n1" by auto
  obtain n2 where n2: "Append ?c n1 = Inr n2" "io_buffer_ok n2" "contents n2 = contents n1 @ ?c"
    "reading_index n2 = reading_index n1"
    using Append_fits [OF ok1 room] by blast
  have "writable n2 = writable n1 - length ?c" by (rule writable_Append [OF ok1 room n2(1)])
  moreover have "ShrinkWritableSpace n b = Inr n2"
    using n by (simp add: ShrinkWritableSpace_def n0(1) GetReadableBytes_contents [OF ok] need n1
        mem_read_contents [OF ok] n2(1) Swap_fst)
  ultimately show ?thesis using n1_ok n0(3,5) n2 by auto
qed


subsection \<open>File descriptors\<close>

lemma iov_writable_ok:
  assumes "io_buffer_ok b" and "writable b < 2 ^ 31"
  shows "iov_writable b = writable b"
proof -
  have "to_int32 (int (writable b)) = int (writable b)"
    using assms(2) by (intro to_int32_small) auto
  moreover have "int (writable b) mod 2 ^ 64 = int (writable b)"
    using assms(2) by (intro mod_pos_pos_trivial) auto
  ultimately show ?thesis by (simp add: iov_writable_def GetWritableBytes_ok [OF assms(1)])
qed

lemma recv_capacity_eq:
  assumes "io_buffer_ok b" and "GetWritableBytes b < 2 ^ 31"
  shows "recv_capacity b = (if writable b < 65536 then writable b + 65536 else writable b)"
proof -
  have w: "writable b < 2 ^ 31" using assms by (simp add: GetWritableBytes_ok)
  then have "to_int32 (int (writable b)) = int (writable b)" by (intro to_int32_small) auto
  then show ?thesis
    by (simp add: recv_capacity_def iov_writable_ok [OF assms(1) w] GetWritableBytes_ok [OF assms(1)])
qed

lemma recv_capacity_le:
  assumes "io_buffer_ok b" and "GetWritableBytes b < 2 ^ 31"
  shows "recv_capacity b \<le> vector_max_size"
  using assms(2) unfolding recv_capacity_eq [OF assms] GetWritableBytes_ok [OF assms(1)]
  by (simp add: vector_max_size_def)

lemma ReadFromFd_fits:
  assumes ok: "io_buffer_ok b" and small: "writable b < 2 ^ 31"
    and le: "length received \<le> writable b"
  shows "\<exists>b'. ReadFromFd (Inr received) b = Inr (int (length received), None, b') \<and>
    io_buffer_ok b' \<and> contents b' = contents b @ received"
proof -
  obtain m where m: "mem_write (writing_index b) received (buffer b) = Inr m"
    "io_buffer_ok (RefreshW (length received) (b\<lparr>buffer := m\<rparr>))"
    "contents (RefreshW (length received) (b\<lparr>buffer := m\<rparr>)) = contents b @ received"
    using write_contents [OF ok le] by blast
  have "ReadFromFd (Inr received) b =
      Inr (int (length received), None, RefreshW (length received) (b\<lparr>buffer := m\<rparr>))"
    using le m(1) by (simp add: ReadFromFd_def iov_writable_ok [OF ok small] RefreshW_def Let_def)
  with m(2,3) show ?thesis by blast
qed

text \<open>When more arrives than the writable bytes, the buffer is filled and the rest appended.\<close>

definition spilled :: "byte list \<Rightarrow> io_buffer \<Rightarrow> io_buffer" where
  "spilled received b =
     b\<lparr>buffer := take (writing_index b) (buffer b) @ take (writable b) received,
       writing_index := length (buffer b)\<rparr>"

lemma spilled_ok:
  assumes ok: "io_buffer_ok b" and more: "writable b \<le> length received"
  shows "io_buffer_ok (spilled received b)"
    and "contents (spilled received b) = contents b @ take (writable b) received"
    and "writable (spilled received b) = 0"
    and "reading_index (spilled received b) = reading_index b"
proof -
  note bounds = io_buffer_okD [OF ok] and plus = writable_plus [OF ok]
  have len: "length (buffer (spilled received b)) = length (buffer b)"
    using more bounds plus by (simp add: spilled_def)
  show "io_buffer_ok (spilled received b)" "writable (spilled received b) = 0"
    "reading_index (spilled received b) = reading_index b"
    using bounds len by (auto simp: io_buffer_ok_def writable_def spilled_def)
  have "contents (spilled received b) = drop (reading_index b) (buffer (spilled received b))"
  proof -
    have "writing_index (spilled received b) = length (buffer (spilled received b))"
      "reading_index (spilled received b) = reading_index b"
      using len by (simp_all add: spilled_def)
    then show ?thesis by (simp add: contents_def)
  qed
  also have "\<dots> = contents b @ take (writable b) received"
    using bounds by (simp add: spilled_def contents_def drop_take)
  finally show "contents (spilled received b) = contents b @ take (writable b) received" .
qed

lemma ReadFromFd_spill:
  assumes ok: "io_buffer_ok b" and small: "writable b < 2 ^ 31"
    and more: "writable b < length received"
  shows "ReadFromFd (Inr received) b =
    res_bind (Append (drop (writable b) received) (spilled received b)) (\<lambda>b'.
      Inr (int (length received), None, b'))"
proof -
  have len: "writing_index b + length (take (writable b) received) = length (buffer b)"
    using more writable_plus [OF ok] by simp
  then have "mem_write (writing_index b) (take (writable b) received) (buffer b) =
      Inr (take (writing_index b) (buffer b) @ take (writable b) received)"
    by (subst mem_write_in) simp_all
  then show ?thesis
    using more len io_buffer_okD [OF ok]
    by (simp add: ReadFromFd_def iov_writable_ok [OF ok small] spilled_def Let_def)
qed

text \<open>
  \<open>recv_ok rs n\<close>: no call failed or found the end of the stream, and each delivered at most
  what was still asked for.
\<close>

fun recv_ok :: "recv_result list \<Rightarrow> nat \<Rightarrow> bool" where
  "recv_ok [] n = True"
| "recv_ok (Inl e # rs) n = False"
| "recv_ok (Inr d # rs) n = (d \<noteq> [] \<and> length d \<le> n \<and> recv_ok rs (n - length d))"

fun received_bytes :: "recv_result list \<Rightarrow> byte list" where
  "received_bytes [] = []"
| "received_bytes (Inl e # rs) = received_bytes rs"
| "received_bytes (Inr d # rs) = d @ received_bytes rs"

lemma recv_loop_step:
  assumes ok: "io_buffer_ok b" and len: "read_len \<le> writable b" and d: "length d \<le> read_len"
    and more: "0 < read_len"
  shows "\<exists>b1. recv_loop (Inr d # rs) read_len n b =
      recv_loop rs (read_len - length d) (n + int (length d)) b1 \<and>
    io_buffer_ok b1 \<and> contents b1 = contents b @ d \<and> read_len - length d \<le> writable b1 \<and>
    reading_index b1 = reading_index b"
proof -
  have room: "length d \<le> writable b" using d len by simp
  obtain m where m: "mem_write (writing_index b) d (buffer b) = Inr m"
    "io_buffer_ok (RefreshW (length d) (b\<lparr>buffer := m\<rparr>))"
    "contents (RefreshW (length d) (b\<lparr>buffer := m\<rparr>)) = contents b @ d"
    "length m = length (buffer b)"
    using write_contents [OF ok room] by blast
  let ?b = "RefreshW (length d) (b\<lparr>buffer := m\<rparr>)"
  have "writable ?b = writable b - length d"
    using writing_index_add [OF ok room] m(4) by (simp add: RefreshW_def writable_def)
  then have "read_len - length d \<le> writable ?b" using len by simp
  moreover have "read_len \<le> vector_max_size"
    using len io_buffer_okD [OF ok] by (simp add: writable_def)
  then have "size_sub read_len (length d) = read_len - length d"
    using d by (intro size_sub_max)
  then have "recv_loop (Inr d # rs) read_len n b =
      recv_loop rs (read_len - length d) (n + int (length d)) ?b"
    using more m(1) by (subst recv_loop.simps) (simp add: RefreshW_def)
  moreover have "reading_index ?b = reading_index b" by (simp add: RefreshW_def)
  ultimately show ?thesis using m(2,3) by blast
qed

lemma recv_loop_ok:
  assumes "io_buffer_ok b" and "read_len \<le> writable b" and "recv_ok rs read_len"
    and "length (received_bytes rs) = read_len"
  shows "\<exists>b'. recv_loop (rs @ rs') read_len n b = Inr (Some (n + int read_len, rs', b')) \<and>
    io_buffer_ok b' \<and> contents b' = contents b @ received_bytes rs \<and>
    reading_index b' = reading_index b"
  using assms
proof (induction rs read_len arbitrary: n b rule: recv_ok.induct)
  case (3 d rs read_len)
  then have d: "d \<noteq> []" "length d \<le> read_len" "recv_ok rs (read_len - length d)"
    "length (received_bytes rs) = read_len - length d" by auto
  then have "0 < read_len" by (cases d) auto
  then obtain b1 where b1: "recv_loop (Inr d # rs @ rs') read_len n b =
      recv_loop (rs @ rs') (read_len - length d) (n + int (length d)) b1"
    "io_buffer_ok b1" "contents b1 = contents b @ d" "read_len - length d \<le> writable b1"
    "reading_index b1 = reading_index b"
    using recv_loop_step [OF "3.prems"(1,2) d(2)] by blast
  show ?case using "3.IH" [OF b1(2,4) d(3,4), of "n + int (length d)"] b1(1,3,5) d(2) by auto
qed (auto simp: recv_loop.simps)

text \<open>Fewer bytes than asked for, and then nothing but empty deliveries: the loop goes on.\<close>

lemma recv_loop_eof: "0 < read_len \<Longrightarrow> io_buffer_ok b \<Longrightarrow> read_len \<le> writable b \<Longrightarrow>
   recv_loop (replicate k (Inr [])) read_len n b = Inr None"
proof (induction k arbitrary: n b)
  case 0
  then show ?case by (subst recv_loop.simps) simp
next
  case (Suc k)
  then obtain b1 where "recv_loop (replicate (Suc k) (Inr [])) read_len n b =
      recv_loop (replicate k (Inr [])) read_len n b1" "io_buffer_ok b1" "read_len \<le> writable b1"
    using recv_loop_step [of b read_len "[]" "replicate k (Inr [])" n] by auto
  with Suc.IH [of b1 n] Suc.prems(1) show ?case by simp
qed

lemma recv_loop_starved:
  assumes "io_buffer_ok b" and "read_len \<le> writable b" and "recv_ok rs read_len"
    and "length (received_bytes rs) \<noteq> read_len"
  shows "recv_loop (rs @ replicate k (Inr [])) read_len n b = Inr None"
  using assms
proof (induction rs read_len arbitrary: n b rule: recv_ok.induct)
  case (1 read_len)
  then show ?case by (simp add: recv_loop_eof)
next
  case (3 d rs read_len)
  then have d: "length d \<le> read_len" "recv_ok rs (read_len - length d)"
    "length (received_bytes rs) \<noteq> read_len - length d" by auto
  have "0 < read_len" using "3.prems"(3) by (cases d) auto
  then obtain b1 where b1: "recv_loop (Inr d # rs @ replicate k (Inr [])) read_len n b =
      recv_loop (rs @ replicate k (Inr [])) (read_len - length d) (n + int (length d)) b1"
    "io_buffer_ok b1" "read_len - length d \<le> writable b1"
    using recv_loop_step [OF "3.prems"(1,2) d(1)] by blast
  show ?case using "3.IH" [OF b1(2,3) d(2,3), of "n + int (length d)"] b1(1) by simp
qed auto

lemma WriteToFd_ok:
  assumes "io_buffer_ok b"
  shows "WriteToFd (Inr n) b = Inr (int n, take n (contents b), if 0 < n then Refresh n b else b)"
    and "WriteToFd (Inl e) b = Inr (- 1, [], b)"
  using assms by (simp_all add: WriteToFd_def GetReadableBytes_contents mem_read_contents)


subsection \<open>Every operation keeps a buffer well-formed\<close>

text \<open>
  One step of a client: any public operation, called within the contract of the calls it
  makes (\<open>RefreshW\<close> within the writable bytes, \<open>recv\<close>/\<open>recvmsg\<close>/\<open>send\<close> as the kernel
  documents them, byte strings that fit in memory).
\<close>

inductive buf_step :: "io_buffer \<Rightarrow> io_buffer \<Rightarrow> bool" where
  refresh_rw: "buf_step b (RefreshRW b)"
| refresh_w: "n \<le> GetWritableBytes b \<Longrightarrow> buf_step b (RefreshW n b)"
| refresh: "buf_step b (Refresh n b)"
| retrieve_string: "RetrieveAString n b = Inr (s, b') \<Longrightarrow> buf_step b b'"
| retrieve_bytes: "RetrieveAByteArray n b = Inr (s, b') \<Longrightarrow> buf_step b b'"
| retrieve_int8: "RetrieveInt8 b = Inr (x8, b') \<Longrightarrow> buf_step b b'"
| retrieve_int16: "RetrieveInt16 le b = Inr (x16, b') \<Longrightarrow> buf_step b b'"
| retrieve_int32: "RetrieveInt32 le b = Inr (x32, b') \<Longrightarrow> buf_step b b'"
| retrieve_int64: "RetrieveInt64 le b = Inr (x64, b') \<Longrightarrow> buf_step b b'"
| set_head: "SetHeadContent str b = Inr b' \<Longrightarrow> buf_step b b'"
| append: "length str \<le> vector_max_size \<Longrightarrow> Append str b = Inr b' \<Longrightarrow> buf_step b b'"
| ensure: "n \<le> vector_max_size \<Longrightarrow> EnsureWritableSpace n b = Inr b' \<Longrightarrow> buf_step b b'"
| shrink: "16 + length (contents b) + n \<le> vector_max_size \<Longrightarrow>
    ShrinkWritableSpace n b = Inr b' \<Longrightarrow> buf_step b b'"
| read_fd: "GetWritableBytes b < 2 ^ 31 \<Longrightarrow> length received \<le> vector_max_size \<Longrightarrow>
    ReadFromFd (Inr received) b = Inr (n', err, b') \<Longrightarrow> buf_step b b'"
| read_len: "n \<le> vector_max_size \<Longrightarrow> \<not> append_overruns b n \<Longrightarrow> recv_ok rs n \<Longrightarrow>
    length (received_bytes rs) = n \<Longrightarrow> ReadFromFd_len (rs @ rs') n b = Inr (Some (n', rs', b')) \<Longrightarrow>
    buf_step b b'"
| write_fd: "WriteToFd r b = Inr (n', sent, b') \<Longrightarrow> buf_step b b'"

inductive buf_reach :: "io_buffer \<Rightarrow> bool" where
  new: "8 + c \<le> vector_max_size \<Longrightarrow> IoBuffer c = Inr b \<Longrightarrow> buf_reach b"
| step: "buf_reach b \<Longrightarrow> buf_step b b' \<Longrightarrow> buf_reach b'"

lemma RetrieveInt_step_ok:
  assumes "io_buffer_ok b"
  shows "RetrieveInt8 b = Inr (x8, b') \<Longrightarrow> io_buffer_ok b'"
    and "RetrieveInt16 le b = Inr (x16, b') \<Longrightarrow> io_buffer_ok b'"
    and "RetrieveInt32 le b = Inr (x32, b') \<Longrightarrow> io_buffer_ok b'"
    and "RetrieveInt64 le b = Inr (x64, b') \<Longrightarrow> io_buffer_ok b'"
  using assms by (auto simp: RetrieveInt_defs res_bind_Inr_iff Refresh_ok)

lemma SetHeadContent_Inr_ok:
  "io_buffer_ok b \<Longrightarrow> SetHeadContent str b = Inr b' \<Longrightarrow> io_buffer_ok b'"
  using SetHeadContent_ok [of b str] SetHeadContent_short [of b str]
  by (cases "length str \<le> reading_index b") auto

lemma ShrinkWritableSpace_Inr_ok:
  "io_buffer_ok b \<Longrightarrow> 16 + length (contents b) + n \<le> vector_max_size \<Longrightarrow>
   ShrinkWritableSpace n b = Inr b' \<Longrightarrow> io_buffer_ok b'"
  using ShrinkWritableSpace_ok [of b n] by (cases "32 < n") (auto simp: ShrinkWritableSpace_def)

lemma ReadFromFd_Inr_ok:
  assumes ok: "io_buffer_ok b" and "writable b < 2 ^ 31" and "length received \<le> vector_max_size"
    and r: "ReadFromFd (Inr received) b = Inr (n', err, b')"
  shows "io_buffer_ok b' \<and> contents b' = contents b @ received \<and>
    n' = int (length received) \<and> err = None"
proof (cases "length received \<le> writable b")
  case True
  then show ?thesis using ReadFromFd_fits [OF assms(1,2) True] r by auto
next
  case False
  then have more: "writable b < length received" by simp
  note sp = spilled_ok [OF ok less_imp_le [OF more]]
  obtain b1 where "Append (drop (writable b) received) (spilled received b) = Inr b1"
    "n' = int (length received)" "err = None" "b' = b1"
    using r ReadFromFd_spill [OF assms(1,2) more] by (auto simp: res_bind_Inr_iff)
  with Append_Inr [OF sp(1), of "drop (writable b) received" b1] assms(3) sp(2) show ?thesis
    by simp
qed

lemma ReadFromFd_len_ok:
  assumes ok: "io_buffer_ok b" and "n \<le> vector_max_size" and "\<not> append_overruns b n"
    and "recv_ok rs n" and "length (received_bytes rs) = n"
    and ens: "EnsureWritableSpace n b = Inr b1"
  shows "\<exists>b'. ReadFromFd_len (rs @ rs') n b = Inr (Some (int n, rs', b')) \<and> io_buffer_ok b' \<and>
    contents b' = contents b @ received_bytes rs \<and> reading_index b' = reading_index b"
proof -
  note e = EnsureWritableSpace_ok [OF ok assms(2,3) ens]
  then show ?thesis
    using recv_loop_ok [of b1 n rs rs' 0] assms(4,5) by (auto simp: ReadFromFd_len_def ens)
qed

lemma buf_step_ok: "buf_step b b' \<Longrightarrow> io_buffer_ok b \<Longrightarrow> io_buffer_ok b'"
proof (induction rule: buf_step.induct)
  case (read_len n b rs rs' n' b')
  then obtain b1 where "EnsureWritableSpace n b = Inr b1"
    by (auto simp: ReadFromFd_len_def res_bind_Inr_iff)
  with ReadFromFd_len_ok [OF read_len.prems read_len.hyps(1-4), of _ rs'] read_len.hyps(5) show ?case
    by auto
next
  case (write_fd r b n' sent b')
  then show ?case by (cases r) (auto simp: WriteToFd_ok Refresh_ok split: if_splits)
next
  case (read_fd b received n' err b')
  then show ?case using ReadFromFd_Inr_ok [of b received n' err b'] by (simp add: GetWritableBytes_ok)
next
  case (retrieve_bytes n b s b')
  then show ?case by (auto simp: RetrieveAByteArray_eq RetrieveAString_ok Refresh_ok split: if_splits)
next
  case (retrieve_string n b s b')
  then show ?case by (auto simp: RetrieveAString_ok Refresh_ok split: if_splits)
qed (auto simp: Refresh_ok RefreshW_ok GetWritableBytes_ok
    intro: RetrieveInt_step_ok SetHeadContent_Inr_ok EnsureWritableSpace_Inr_ok
      ShrinkWritableSpace_Inr_ok dest: Append_Inr)

lemma buf_reach_ok: "buf_reach b \<Longrightarrow> io_buffer_ok b"
  by (induction rule: buf_reach.induct) (auto dest: IoBuffer_ok buf_step_ok)



section \<open>Searches\<close>

lemma FindCrlf_ok:
  assumes "io_buffer_ok b"
  shows "FindCrlf b = Inr (map_option (\<lambda>i. reading_index b + i) (memmem kCrlf (contents b)))"
  using assms by (simp add: FindCrlf_def GetReadableBytes_contents mem_read_contents)

lemma FindEof_ok:
  assumes "io_buffer_ok b"
  shows "FindEof b = Inr (map_option (\<lambda>i. reading_index b + i) (memchr 10 (contents b)))"
  using assms by (simp add: FindEof_def GetReadableBytes_contents mem_read_contents)


section \<open>Integers on the wire\<close>

lemma AppendInt_eq:
  "AppendInt8 x8 b = Append [x8] b"
  "AppendInt16 le x16 b = Append (be_bytes 2 x16) b"
  "AppendInt32 le x32 b = Append (be_bytes 4 x32) b"
  "AppendInt64 le x64 b = Append (be_bytes 8 x64) b"
  by (simp_all add: AppendInt8_def AppendInt16_def AppendInt32_def AppendInt64_def host_image_htobe)

lemma SetHeadContentInt_eq:
  "SetHeadContentInt8 x8 b = SetHeadContent [x8] b"
  "SetHeadContentInt16 le x16 b = SetHeadContent (be_bytes 2 x16) b"
  "SetHeadContentInt32 le x32 b = SetHeadContent (be_bytes 4 x32) b"
  "SetHeadContentInt64 le x64 b = SetHeadContent (be_bytes 8 x64) b"
  by (simp_all add: SetHeadContentInt8_def SetHeadContentInt16_def SetHeadContentInt32_def
      SetHeadContentInt64_def host_image_htobe)

text \<open>Reading an integer that stands, big-endian, at the front of the readable bytes.\<close>

lemma RetrieveInt_front:
  assumes "io_buffer_ok b"
  shows "contents b = x8 # rest \<Longrightarrow> RetrieveInt8 b = Inr (x8, Refresh 1 b)"
    and "contents b = be_bytes 2 x16 @ rest \<Longrightarrow> RetrieveInt16 le b = Inr (x16, Refresh 2 b)"
    and "contents b = be_bytes 4 x32 @ rest \<Longrightarrow> RetrieveInt32 le b = Inr (x32, Refresh 4 b)"
    and "contents b = be_bytes 8 x64 @ rest \<Longrightarrow> RetrieveInt64 le b = Inr (x64, Refresh 8 b)"
  using assms by (simp_all add: RetrieveInt_defs GetReadableInt_ok be_word_be_bytes)

lemma Append_Refresh:
  assumes "io_buffer_ok b" and "length str \<le> vector_max_size" and "Append str b = Inr b'"
  shows "io_buffer_ok (Refresh (length (contents b)) b')"
    and "contents (Refresh (length (contents b)) b') = str"
  using Append_Inr [OF assms] by (simp_all add: Refresh_ok contents_Refresh)

lemma small_buffer_ok:
  "r \<le> w \<Longrightarrow> w \<le> length m \<Longrightarrow> 8 \<le> length m \<Longrightarrow> length m \<le> 2000 \<Longrightarrow>
   io_buffer_ok \<lparr>buffer = m, reading_index = r, writing_index = w\<rparr>"
  by (simp add: io_buffer_ok_def kReservedCapacity_def vector_max_size_def)

lemma small_le_max: "n \<le> 64 \<Longrightarrow> n \<le> vector_max_size"
  by (simp add: vector_max_size_def)


section \<open>Correctness\<close>

text \<open>
  C11. On a well-formed buffer and a string of at most \<open>max_size()\<close> bytes, \<open>Append\<close> has exactly
  three outcomes. If the request is one that \<open>ReserveWritableSpace\<close> answers by moving the
  readable bytes (\<open>append_overruns\<close>), the copy leaves the block; otherwise it throws
  \<open>length_error\<close> when the block cannot grow that far, and else the readable bytes are the old
  ones followed by the string and the reading index is unchanged.
\<close>

theorem Append_outcomes:
  assumes "io_buffer_ok b" and "length str \<le> vector_max_size"
  shows "if append_overruns b (length str) then Append str b = Inl OutOfBounds
    else if vector_max_size < writing_index b + length str then Append str b = Inl LengthError
    else \<exists>b'. Append str b = Inr b' \<and> io_buffer_ok b' \<and> contents b' = contents b @ str \<and>
      reading_index b' = reading_index b"
  using Append_overrun [OF assms(1) _ assms(2)] Append_too_long [OF assms(1) _ assms(2)]
    Append_ok [OF assms(1)] by simp

theorem Append_outcomes_witness:
  "append_overruns \<lparr>buffer = replicate 40 0, reading_index = 30, writing_index = 36\<rparr> 10 \<and>
   Append (replicate 10 1) \<lparr>buffer = replicate 40 0, reading_index = 30, writing_index = 36\<rparr> =
     Inl OutOfBounds"
  using Append_outcomes [of "\<lparr>buffer = replicate 40 0, reading_index = 30, writing_index = 36\<rparr>"
      "replicate 10 1"]
  by (simp add: io_buffer_ok_def append_overruns_def writable_def kReservedCapacity_def
      vector_max_size_def)

text \<open>
  C12. Whatever sequence of public operations is run on a new buffer, the buffer is well-formed:
  the reading index is at most the writing index, which is inside the block, and the block has
  at least the reserved bytes.
\<close>

theorem buffer_invariant:
  assumes "buf_reach b"
  shows "io_buffer_ok b \<and> GetReadableBytes b = length (contents b) \<and>
    GetReservedBytes b + GetReadableBytes b + GetWritableBytes b = length (buffer b)"
proof -
  have ok: "io_buffer_ok b" using assms by (rule buf_reach_ok)
  then show ?thesis
    using GetReadableBytes_contents [OF ok] length_contents [OF ok] io_buffer_okD [OF ok]
    by (simp add: GetReservedBytes_def GetWritableBytes_ok writable_def)
qed

theorem buffer_invariant_witness:
  "io_buffer_ok (Refresh 1 (RefreshW 3 \<lparr>buffer = replicate 12 0, reading_index = 8, writing_index = 8\<rparr>))"
proof -
  let ?b = "\<lparr>buffer = replicate 12 0, reading_index = 8, writing_index = 8\<rparr>"
  have "buf_reach ?b"
    by (rule buf_reach.new [of 4]) (simp_all add: IoBuffer_def vector_new_def size_add_def
        kReservedCapacity_def vector_max_size_def)
  moreover have "3 \<le> GetWritableBytes ?b" by (simp add: GetWritableBytes_def size_sub_def)
  ultimately have "buf_reach (RefreshW 3 ?b)" by (rule buf_reach.step [OF _ refresh_w])
  then have "buf_reach (Refresh 1 (RefreshW 3 ?b))" by (rule buf_reach.step [OF _ refresh])
  from buffer_invariant [OF this] show ?thesis by simp
qed

text \<open>
  Integers survive the wire: a 64-bit integer appended by a host of one byte order is
  retrieved unchanged by a host of any byte order, once the bytes in front of it have been
  consumed, and retrieving it consumes exactly its eight bytes. (The narrower widths are
  \<open>Int32_roundtrip\<close> and \<open>Int16_roundtrip\<close>.)
\<close>

theorem Int64_roundtrip:
  assumes "io_buffer_ok b" and "AppendInt64 le x b = Inr b1"
    and "b2 = Refresh (GetReadableBytes b) b1"
  shows "contents b2 = be_bytes 8 x \<and>
    (\<exists>b3. RetrieveInt64 le' b2 = Inr (x, b3) \<and> io_buffer_ok b3 \<and> contents b3 = [])"
proof -
  have c: "io_buffer_ok b2" "contents b2 = be_bytes 8 x"
    using Append_Refresh [OF assms(1), of "be_bytes 8 x" b1] assms(2,3)
    by (simp_all add: AppendInt_eq GetReadableBytes_contents assms(1) small_le_max)
  then show ?thesis
    using RetrieveInt_front(4) [OF c(1), of x "[]" le'] by (simp add: Refresh_ok contents_Refresh)
qed

theorem Int64_roundtrip_witness:
  "\<exists>b3. RetrieveInt64 True (Refresh 0
     \<lparr>buffer = replicate 8 0 @ be_bytes 8 (258 :: 64 word), reading_index = 8, writing_index = 16\<rparr>)
   = Inr (258, b3) \<and> contents b3 = []"
  using Int64_roundtrip [of "\<lparr>buffer = replicate 16 0, reading_index = 8, writing_index = 8\<rparr>"
      False 258
      "\<lparr>buffer = replicate 8 0 @ be_bytes 8 (258 :: 64 word), reading_index = 8, writing_index = 16\<rparr>"
      _ True, OF _ _ refl]
  by (auto simp: io_buffer_ok_def kReservedCapacity_def vector_max_size_def AppendInt64_def
      Append_def EnsureWritableSpace_def GetWritableBytes_def GetReadableBytes_def size_sub_def
      size_add_def RefreshW_def host_image_htobe mem_write_in)

lemma Int32_roundtrip:
  assumes "io_buffer_ok b" and "AppendInt32 le x b = Inr b1"
  shows "\<exists>b3. RetrieveInt32 le' (Refresh (GetReadableBytes b) b1) = Inr (x, b3) \<and> contents b3 = []"
  using Append_Refresh [OF assms(1), of "be_bytes 4 x" b1] assms
    RetrieveInt_front(3) [of "Refresh (GetReadableBytes b) b1" x "[]" le']
  by (simp add: AppendInt_eq GetReadableBytes_contents small_le_max contents_Refresh)

lemma Int16_roundtrip:
  assumes "io_buffer_ok b" and "AppendInt16 le x b = Inr b1"
  shows "\<exists>b3. RetrieveInt16 le' (Refresh (GetReadableBytes b) b1) = Inr (x, b3) \<and> contents b3 = []"
  using Append_Refresh [OF assms(1), of "be_bytes 2 x" b1] assms
    RetrieveInt_front(2) [of "Refresh (GetReadableBytes b) b1" x "[]" le']
  by (simp add: AppendInt_eq GetReadableBytes_contents small_le_max contents_Refresh)

text \<open>
  C13. \<open>ReadFromFd\<close> loses nothing and keeps the order: when \<open>recvmsg\<close> delivers bytes to a
  well-formed buffer with less than 2 GiB of writable bytes (no more than its two segments
  hold), either they are all appended, in
  order, to the readable bytes and their number is returned, or the spill that does not fit
  in the writable bytes cannot be appended to the filled block. The latter happens exactly when
  the spill is not empty and is an overrunning request for the filled block, or makes the
  block longer than a vector can be.
\<close>

theorem ReadFromFd_outcomes:
  assumes "io_buffer_ok b" and "GetWritableBytes b < 2 ^ 31"
    and cap: "length received \<le> recv_capacity b"
    and "spill = length received - GetWritableBytes b"
  shows "if 0 < spill \<and>
      (reading_index b < kReservedCapacity \<or> spill + kReservedCapacity \<le> reading_index b)
    then ReadFromFd (Inr received) b = Inl OutOfBounds
    else if vector_max_size < length (buffer b) + spill
    then ReadFromFd (Inr received) b = Inl LengthError
    else \<exists>b'. ReadFromFd (Inr received) b = Inr (int (length received), None, b') \<and>
      io_buffer_ok b' \<and> contents b' = contents b @ received"
proof (cases "length received \<le> writable b")
  case True
  then show ?thesis
    using ReadFromFd_fits [OF assms(1) _ True] assms io_buffer_okD(4) [OF assms(1)]
    by (simp add: GetWritableBytes_ok)
next
  case False
  let ?s = "spilled received b" and ?d = "drop (writable b) received"
  have max: "length received \<le> vector_max_size"
    using recv_capacity_le [OF assms(1,2)] cap by linarith
  note sp = spilled_ok [OF assms(1), of received]
  have w: "writing_index ?s = length (buffer b)" by (simp add: spilled_def)
  have over: "append_overruns ?s (length ?d) \<longleftrightarrow>
      reading_index b < kReservedCapacity \<or> spill + kReservedCapacity \<le> reading_index b"
    using False sp assms(4) by (auto simp: append_overruns_def GetWritableBytes_ok [OF assms(1)])
  have eq: "ReadFromFd (Inr received) b =
      res_bind (Append ?d ?s) (\<lambda>b'. Inr (int (length received), None, b'))"
    using ReadFromFd_spill [OF assms(1)] False assms(2) by (simp add: GetWritableBytes_ok assms(1))
  have "contents b @ take (writable b) received @ ?d = contents b @ received" by simp
  then show ?thesis
    using Append_overrun [of ?s ?d] Append_too_long [of ?s ?d] Append_ok [of ?s ?d] over sp w False
      max assms(4) by (auto simp: eq GetWritableBytes_ok [OF assms(1)])
qed

theorem ReadFromFd_outcomes_witness:
  "ReadFromFd (Inr (replicate 8 1)) \<lparr>buffer = replicate 40 0, reading_index = 30, writing_index = 36\<rparr>
     = Inl OutOfBounds \<and>
   (\<exists>b'. ReadFromFd (Inr [1, 2, 3, 4, 5]) \<lparr>buffer = replicate 16 0, reading_index = 8, writing_index = 12\<rparr>
     = Inr (5, None, b') \<and> contents b' = replicate 4 0 @ [1, 2, 3, 4, 5])"
proof -
  let ?a = "\<lparr>buffer = replicate 40 (0 :: byte), reading_index = 30, writing_index = 36\<rparr>"
  let ?b = "\<lparr>buffer = replicate 16 (0 :: byte), reading_index = 8, writing_index = 12\<rparr>"
  have ok: "io_buffer_ok ?a" "io_buffer_ok ?b" by (simp_all add: small_buffer_ok)
  have w: "GetWritableBytes ?a = 4" "GetWritableBytes ?b = 4"
    by (simp_all add: GetWritableBytes_ok [OF ok(1)] GetWritableBytes_ok [OF ok(2)] writable_def)
  have "contents ?b = replicate 4 0" by (simp add: contents_def)
  moreover have "21 \<le> vector_max_size" by (simp add: small_le_max)
  moreover have "recv_capacity ?a = 65540" "recv_capacity ?b = 65540"
    using recv_capacity_eq [OF ok(1)] recv_capacity_eq [OF ok(2)] w by (simp_all add: writable_def)
  ultimately show ?thesis
    using ReadFromFd_outcomes [OF ok(1) _ _ refl, of "replicate 8 1"]
      ReadFromFd_outcomes [OF ok(2) _ _ refl, of "[1, 2, 3, 4, 5]"]
    by (auto simp: w kReservedCapacity_def)
qed

text \<open>
  The blocking overload \<open>ReadFromFd(fd, len)\<close>: when the calls to \<open>recv\<close> all succeed and
  deliver exactly \<open>len\<close> bytes in all, however they are cut, it returns \<open>len\<close> with those bytes
  appended and makes no further call; but when the peer closes before that (every further call delivers nothing), the loop
  has not returned after any number of calls.
\<close>

theorem ReadFromFd_len_outcomes:
  assumes "io_buffer_ok b" and "n \<le> vector_max_size" and "\<not> append_overruns b n"
    and "EnsureWritableSpace n b = Inr b1" and "recv_ok rs n"
  shows "if length (received_bytes rs) = n
    then \<exists>b'. ReadFromFd_len (rs @ rs') n b = Inr (Some (int n, rs', b')) \<and> io_buffer_ok b' \<and>
      contents b' = contents b @ received_bytes rs
    else ReadFromFd_len (rs @ replicate k (Inr [])) n b = Inr None"
proof (cases "length (received_bytes rs) = n")
  case True
  from ReadFromFd_len_ok [OF assms(1-3,5) True assms(4), of rs'] True show ?thesis by auto
next
  case False
  note e = EnsureWritableSpace_ok [OF assms(1-4)]
  then show ?thesis
    using False recv_loop_starved [of b1 n rs k 0] assms(5) by (simp add: ReadFromFd_len_def assms(4))
qed

theorem ReadFromFd_len_outcomes_witness:
  "\<exists>b'. ReadFromFd_len [Inr [7], Inr [8, 9]] 3
      \<lparr>buffer = replicate 16 0, reading_index = 8, writing_index = 8\<rparr> = Inr (Some (3, [], b')) \<and>
    contents b' = [7, 8, 9]"
  using ReadFromFd_len_outcomes [of "\<lparr>buffer = replicate 16 0, reading_index = 8, writing_index = 8\<rparr>"
      3 "\<lparr>buffer = replicate 16 0, reading_index = 8, writing_index = 8\<rparr>" "[Inr [7], Inr [8, 9]]" "[]"]
  by (auto simp: io_buffer_ok_def kReservedCapacity_def vector_max_size_def GetWritableBytes_def
      size_sub_def append_overruns_def writable_def EnsureWritableSpace_def contents_def)

text \<open>
  The header space: a header no longer than the reserved bytes is put directly in front of
  the readable bytes and nothing else changes; a longer one leaves the buffer as it was.
\<close>

theorem SetHeadContent_outcomes:
  assumes "io_buffer_ok b"
  shows "if length str \<le> GetReservedBytes b
    then \<exists>b'. SetHeadContent str b = Inr b' \<and> io_buffer_ok b' \<and> contents b' = str @ contents b \<and>
      GetReservedBytes b' = GetReservedBytes b - length str \<and>
      GetWritableBytes b' = GetWritableBytes b
    else SetHeadContent str b = Inr b"
  using SetHeadContent_short [of b str] SetHeadContent_ok [OF assms, of str]
  by (auto simp: GetReservedBytes_def GetWritableBytes_ok assms)

theorem SetHeadContent_outcomes_witness:
  "\<exists>b'. SetHeadContent [0, 5] \<lparr>buffer = replicate 8 0 @ [9], reading_index = 8, writing_index = 9\<rparr> = Inr b'
     \<and> contents b' = [0, 5, 9]"
  using SetHeadContent_outcomes [of "\<lparr>buffer = replicate 8 0 @ [9], reading_index = 8, writing_index = 9\<rparr>"
      "[0, 5]"]
  by (auto simp: io_buffer_ok_def kReservedCapacity_def vector_max_size_def GetReservedBytes_def
      contents_def)

text \<open>
  \<open>ShrinkWritableSpace\<close> with more than 32 bytes rebuilds the buffer around the same readable
  bytes, with the reserved bytes in front of them and at least the requested space behind.
\<close>

theorem ShrinkWritableSpace_refines:
  assumes "io_buffer_ok b" and "32 < n" and "16 + GetReadableBytes b + n \<le> vector_max_size"
  shows "\<exists>b'. ShrinkWritableSpace n b = Inr b' \<and> io_buffer_ok b' \<and> contents b' = contents b \<and>
    n \<le> GetWritableBytes b' \<and> GetReservedBytes b' = kReservedCapacity"
  using ShrinkWritableSpace_ok [OF assms(1,2)] assms(3)
  by (auto simp: GetReservedBytes_def GetReadableBytes_contents [OF assms(1)] GetWritableBytes_ok)

theorem ShrinkWritableSpace_refines_witness:
  "\<exists>b'. ShrinkWritableSpace 40 \<lparr>buffer = replicate 100 0 @ [4, 2], reading_index = 100, writing_index = 102\<rparr>
     = Inr b' \<and> contents b' = [4, 2]"
  using ShrinkWritableSpace_refines [of
      "\<lparr>buffer = replicate 100 0 @ [4, 2], reading_index = 100, writing_index = 102\<rparr>" 40]
  by (auto simp: io_buffer_ok_def kReservedCapacity_def vector_max_size_def GetReadableBytes_def
      size_sub_def contents_def)

text \<open>
  \<open>FindCrlf\<close> never reads outside the readable bytes and is exact: the offset it gives is the
  first CRLF of the readable bytes, and a null pointer means that there is none.
\<close>

theorem FindCrlf_first:
  assumes "io_buffer_ok b"
  shows "case FindCrlf b of
      Inl e \<Rightarrow> False
    | Inr None \<Rightarrow> (\<forall>i. take 2 (drop i (contents b)) \<noteq> kCrlf)
    | Inr (Some p) \<Rightarrow> reading_index b \<le> p \<and> p + 2 \<le> writing_index b \<and>
        take 2 (drop p (buffer b)) = kCrlf \<and>
        (\<forall>i < p - reading_index b. take 2 (drop i (contents b)) \<noteq> kCrlf)"
proof (cases "memmem kCrlf (contents b)")
  case None
  have "length kCrlf = 2" by (simp add: kCrlf_def)
  then show ?thesis using memmem_None [OF None] None by (simp add: FindCrlf_ok [OF assms])
next
  case (Some i)
  note m = memmem_Some [OF Some]
  have two: "length kCrlf = 2" by (simp add: kCrlf_def)
  have le: "i + 2 \<le> writing_index b - reading_index b"
    using m by (simp add: two length_contents [OF assms])
  have "take 2 (drop i (contents b)) = take 2 (drop (reading_index b + i) (buffer b))"
    using le by (simp add: contents_def drop_take add.commute min_absorb1)
  then show ?thesis using m le by (simp add: FindCrlf_ok [OF assms] Some two)
qed

theorem FindCrlf_first_witness:
  "FindCrlf \<lparr>buffer = replicate 8 0 @ [13, 65, 13, 10, 13, 10], reading_index = 8, writing_index = 14\<rparr>
     = Inr (Some 10) \<and>
   io_buffer_ok \<lparr>buffer = replicate 8 0 @ [13, 65, 13, 10, 13, 10], reading_index = 8, writing_index = 14\<rparr>"
  using FindCrlf_first [of
      "\<lparr>buffer = replicate 8 0 @ [13, 65, 13, 10, 13, 10], reading_index = 8, writing_index = 14\<rparr>"]
  by (simp add: io_buffer_ok_def kReservedCapacity_def vector_max_size_def FindCrlf_def
      GetReadableBytes_def size_sub_def mem_read_def kCrlf_def)

end
