(* ===== verification/Tcp_Connection.thy ===== *)
theory Tcp_Connection
  imports Poll_Eventer Io_Buffer
begin

text \<open>
  The connection (\<^verbatim>\<open>src/src/connecting.h\<close>, \<^verbatim>\<open>src/src/connecting.cc\<close>) on top of the poller and the
  I/O buffer: reading and writing through the ring, sending, half-closing and closing.

  The record \<open>connecting\<close> extends the record of its eventer, which holds the poller. The
  contexts that the connection allocates with \<open>new\<close> are a heap (\<open>contexts\<close>, addresses are
  numbers), so that a use after \<open>delete\<close> and a second \<open>delete\<close> are the errors \<open>UseAfterFree\<close>
  and \<open>DoubleFree\<close>. \<open>closed_fds\<close> is the set of the event manager that \<open>DeleteConnection\<close> adds
  to. Two fields are history and are never read: \<open>accepted\<close>, the bytes that \<open>Send\<close> took, and
  \<open>wire\<close>, the bytes that the kernel took from the output buffer.

  The callbacks of the user are the argument \<open>u\<close>: effects on the connection, which may call any of
  its operations. The bytes that a read delivers are an argument of its completion.
\<close>

section \<open>State\<close>

datatype ConnectionState = kDisconnected | kConnecting | kConnected | kDisconnecting

text \<open>The two completion functions that the connection passes to the poller.\<close>

datatype io_fn = ReadDoneFn | WriteDoneFn

text \<open>Where an \<open>iovec\<close> points: into the input buffer, or at the extra buffer of the context.\<close>

datatype iov_base = InputAt nat | ExtraBuffer

record ReadContext =
  rc_iov :: "(iov_base \<times> nat) list"
  rc_writable :: nat
  rc_key :: "64 word"
  rc_multishot :: bool
  rc_buf_id :: nat

record WriteContext =
  wc_iov :: "nat \<times> nat"
  wc_to_send :: nat
  wc_key :: "64 word"

datatype io_ctx = RCtx ReadContext | WCtx WriteContext

text \<open>Calls that leave the connection, in order.\<close>

datatype conn_effect =
    SocketShutdownWrite
  | SocketSetKeepAlive bool
  | SocketSetTcpNoDelay bool
  | RunForceCloseAfter int

record connecting = "(nat, io_fn) eventer" +
  contexts :: "nat \<rightharpoonup> io_ctx"
  next_context :: nat
  closed_fds :: "int set"
  conn_state :: ConnectionState
  high_water_mark :: nat
  input_buffer :: io_buffer
  output_buffer :: io_buffer
  pending_output_buffer :: io_buffer
  read_in_flight :: bool
  write_in_flight :: bool
  read_cancel_key :: "64 word"
  write_cancel_key :: "64 word"
  pending_io_wait_ms :: int
  pending_io_retries :: int
  effects :: "conn_effect list"
  accepted :: "byte list"
  wire :: "byte list"
  crashed :: "cpp_error option"

type_synonym conn_cb = "connecting \<Rightarrow> connecting res"

record conn_user =
  OnConnectionCallback :: "conn_cb option"
  OnMessageCallback :: "conn_cb option"
  WriteCompleteCallback :: "conn_cb option"
  HighWaterMarkCallback :: "(nat \<Rightarrow> conn_cb) option"
  UserCloseCallback :: "conn_cb option"

definition call_opt :: "conn_cb option \<Rightarrow> conn_cb" where
  "call_opt f w = (case f of None \<Rightarrow> Inr w | Some g \<Rightarrow> g w)"

definition call_required :: "conn_cb option \<Rightarrow> conn_cb" where
  "call_required f w = (case f of None \<Rightarrow> Inl BadFunctionCall | Some g \<Rightarrow> g w)"

definition emit :: "conn_effect \<Rightarrow> connecting \<Rightarrow> connecting" where
  "emit x w = w\<lparr>effects := effects w @ [x]\<rparr>"

definition kExtraBufferSize :: nat where
  "kExtraBufferSize = 65536"

definition new_context :: "io_ctx \<Rightarrow> connecting \<Rightarrow> nat \<times> connecting" where
  "new_context x w =
     (next_context w, w\<lparr>contexts := (contexts w)(next_context w \<mapsto> x), next_context := next_context w + 1\<rparr>)"

definition delete_context :: "nat \<Rightarrow> connecting \<Rightarrow> connecting res" where
  "delete_context a w =
     (case contexts w a of
        None \<Rightarrow> Inl DoubleFree
      | Some _ \<Rightarrow> Inr (w\<lparr>contexts := (contexts w)(a := None)\<rparr>))"

section \<open>Submitting\<close>

definition read_iov :: "connecting \<Rightarrow> (iov_base \<times> nat) list" where
  "read_iov w =
     (let writable = GetWritableBytes (input_buffer w);
          iov0 = (InputAt (writing_index (input_buffer w)), writable);
          iov1 = (ExtraBuffer, kExtraBufferSize)
      in if writable = 0 then [iov1]
         else if writable < kExtraBufferSize then [iov0, iov1] else [iov0])"

text \<open>The tail that both ways of submitting a read share: a key of 0 undoes the submission.\<close>

definition finish_read :: "nat \<Rightarrow> ReadContext \<Rightarrow> 64 word \<Rightarrow> connecting \<Rightarrow> connecting" where
  "finish_read a ctx key w =
     (if key = 0
      then w\<lparr>read_in_flight := False, read_cancel_key := 0, contexts := (contexts w)(a := None)\<rparr>
      else w\<lparr>contexts := (contexts w)(a \<mapsto> RCtx (ctx\<lparr>rc_key := key\<rparr>)), read_cancel_key := key\<rparr>)"

definition SubmitReadOnce :: "uring_env \<Rightarrow> connecting \<Rightarrow> connecting" where
  "SubmitReadOnce env w =
     (if read_in_flight w then w
      else
        let multishot = recv_multishot env \<and> buffers_registered (ev_poller w);
            ctx = \<lparr>rc_iov = read_iov w, rc_writable = GetWritableBytes (input_buffer w), rc_key = 0,
                   rc_multishot = multishot, rc_buf_id = 0\<rparr>
        in case new_context (RCtx ctx) w of (a, w1) \<Rightarrow>
             case (if multishot
                   then SubmitReadMultishot env (ev_self w) kBufferGroupId (Some ReadDoneFn) (Some a) 0 True (ev_poller w)
                   else SubmitRead env (ev_self w) (Some ReadDoneFn) (Some a) 0 True (ev_poller w)) of
               (key, p) \<Rightarrow> finish_read a ctx key (w1\<lparr>read_in_flight := True, ev_poller := p\<rparr>))"

definition SubmitWriteOnce :: "uring_env \<Rightarrow> connecting \<Rightarrow> connecting" where
  "SubmitWriteOnce env w =
     (if write_in_flight w \<or> GetReadableBytes (output_buffer w) = 0 then w
      else
        let n = GetReadableBytes (output_buffer w);
            ctx = \<lparr>wc_iov = (reading_index (output_buffer w), n), wc_to_send = n, wc_key = 0\<rparr>
        in case new_context (WCtx ctx) w of (a, w1) \<Rightarrow>
             case SubmitWrite env (ev_self w) (Some WriteDoneFn) (Some a) 0 True (ev_poller w) of
               (key, p) \<Rightarrow>
                 let w2 = w1\<lparr>write_in_flight := True, ev_poller := p\<rparr>
                 in if key = 0
                    then w2\<lparr>write_in_flight := False, write_cancel_key := 0, contexts := (contexts w2)(a := None)\<rparr>
                    else w2\<lparr>contexts := (contexts w2)(a \<mapsto> WCtx (ctx\<lparr>wc_key := key\<rparr>)), write_cancel_key := key\<rparr>)"

definition CancelPendingIo :: "uring_env \<Rightarrow> connecting \<Rightarrow> connecting" where
  "CancelPendingIo env w =
     (let w1 = (if read_in_flight w
                then (if read_cancel_key w \<noteq> 0
                      then w\<lparr>ev_poller := CancelOp env (read_cancel_key w) (ev_poller w), read_cancel_key := 0\<rparr>
                      else w)\<lparr>read_in_flight := False\<rparr>
                else w)
      in if write_in_flight w1
         then (if write_cancel_key w1 \<noteq> 0
               then w1\<lparr>ev_poller := CancelOp env (write_cancel_key w1) (ev_poller w1), write_cancel_key := 0\<rparr>
               else w1)\<lparr>write_in_flight := False\<rparr>
         else w1)"

definition StartReading :: "uring_env \<Rightarrow> connecting \<Rightarrow> connecting" where
  "StartReading env w = SubmitReadOnce env w"

definition StartWriting :: "uring_env \<Rightarrow> connecting \<Rightarrow> connecting" where
  "StartWriting env w = SubmitWriteOnce env w"

definition StopReading :: "uring_env \<Rightarrow> connecting \<Rightarrow> connecting" where
  "StopReading env w = CancelPendingIo env w"

definition StopWriting :: "uring_env \<Rightarrow> connecting \<Rightarrow> connecting" where
  "StopWriting env w = CancelPendingIo env w"

definition StopReadingWriting :: "uring_env \<Rightarrow> connecting \<Rightarrow> connecting" where
  "StopReadingWriting env w = CancelPendingIo env w"

definition DoReading :: "uring_env \<Rightarrow> connecting \<Rightarrow> connecting" where
  "DoReading env w = (if \<not> read_in_flight w then SubmitReadOnce env w else w)"

definition DoWriting :: "uring_env \<Rightarrow> connecting \<Rightarrow> connecting" where
  "DoWriting env w =
     (if \<not> write_in_flight w \<and> 0 < GetReadableBytes (output_buffer w) then SubmitWriteOnce env w else w)"

section \<open>Closing\<close>

definition DeleteConnection :: "int \<Rightarrow> connecting \<Rightarrow> connecting" where
  "DeleteConnection fd w = w\<lparr>closed_fds := insert fd (closed_fds w)\<rparr>"

definition DoClosing :: "uring_env \<Rightarrow> conn_user \<Rightarrow> connecting \<Rightarrow> connecting res" where
  "DoClosing env u w =
     (if conn_state w \<noteq> kDisconnected
      then
        let w1 = CancelPendingIo env (StopReadingWriting env (w\<lparr>conn_state := kDisconnected\<rparr>))
        in res_bind (call_opt (OnConnectionCallback u) w1) (\<lambda>w2.
           res_bind (call_opt (UserCloseCallback u) w2) (\<lambda>w3.
             Inr (DeleteConnection (ev_fd w3) w3)))
      else Inr w)"

text \<open>\<open>DoWithError\<close> reads the error of the socket and logs it: the connection is not changed.\<close>

definition DoWithError :: "int \<Rightarrow> connecting \<Rightarrow> connecting res" where
  "DoWithError err w = Inr w"

definition ShutDownWrite :: "connecting \<Rightarrow> connecting" where
  "ShutDownWrite w =
     (if conn_state w = kConnected
      then let w1 = w\<lparr>conn_state := kDisconnecting\<rparr>
           in if \<not> HasWriteEvents w1 then emit SocketShutdownWrite w1 else w1
      else w)"

definition ForceClose :: "uring_env \<Rightarrow> conn_user \<Rightarrow> connecting \<Rightarrow> connecting res" where
  "ForceClose env u w =
     (if conn_state w \<noteq> kDisconnected then DoClosing env u (w\<lparr>conn_state := kDisconnecting\<rparr>) else Inr w)"

definition ForceCloseAfter :: "int \<Rightarrow> connecting \<Rightarrow> connecting" where
  "ForceCloseAfter delay w =
     (if conn_state w \<noteq> kDisconnected then emit (RunForceCloseAfter delay) w else w)"

definition IsConnected :: "connecting \<Rightarrow> bool" where
  "IsConnected w \<longleftrightarrow> conn_state w = kConnected"

definition IsDisconnected :: "connecting \<Rightarrow> bool" where
  "IsDisconnected w \<longleftrightarrow> conn_state w = kDisconnected"

definition HasPendingIo :: "connecting \<Rightarrow> bool" where
  "HasPendingIo w \<longleftrightarrow> read_in_flight w \<or> write_in_flight w"

definition BumpPendingIoWait :: "int \<Rightarrow> connecting \<Rightarrow> connecting" where
  "BumpPendingIoWait delta_ms w =
     w\<lparr>pending_io_wait_ms := pending_io_wait_ms w + delta_ms, pending_io_retries := pending_io_retries w + 1\<rparr>"

definition SetTcpNoDelay :: "bool \<Rightarrow> connecting \<Rightarrow> connecting" where
  "SetTcpNoDelay on w = emit (SocketSetTcpNoDelay on) w"

definition GetConnectionStateInfo :: "ConnectionState \<Rightarrow> string" where
  "GetConnectionStateInfo s =
     (case s of kDisconnected \<Rightarrow> ''Disconnected'' | kConnecting \<Rightarrow> ''Connecting''
      | kConnected \<Rightarrow> ''Connected'' | kDisconnecting \<Rightarrow> ''Disconnecting'')"

section \<open>Establishing and sending\<close>

definition Connecting :: "uring_env \<Rightarrow> (nat, io_fn) poller \<Rightarrow> evt \<Rightarrow> nat \<Rightarrow> connecting res" where
  "Connecting env p a mark =
     res_bind (IoBuffer kInitialCapacity) (\<lambda>b.
       let e = Eventer env p a;
           regs = (\<lambda>k. True)
       in Inr (emit (SocketSetKeepAlive True)
            \<lparr>ev_poller = ev_poller e, ev_self = ev_self e, ev_fd = ev_fd e, in_events = in_events e,
             out_events = out_events e, is_handling = is_handling e, registered = regs,
             contexts = Map.empty, next_context = 0, closed_fds = {}, conn_state = kConnecting,
             high_water_mark = mark, input_buffer = b, output_buffer = b, pending_output_buffer = b,
             read_in_flight = False, write_in_flight = False, read_cancel_key = 0, write_cancel_key = 0,
             pending_io_wait_ms = 0, pending_io_retries = 0, effects = [], accepted = [], wire = [],
             crashed = None\<rparr>))"

text \<open>The destructor: pending I/O is cancelled, then the members go, the eventer among them.\<close>

definition destroy_connecting :: "uring_env \<Rightarrow> connecting \<Rightarrow> (nat, io_fn) poller option" where
  "destroy_connecting env w = destroy_eventer env (CancelPendingIo env w)"

definition OnEstablishing :: "uring_env \<Rightarrow> conn_user \<Rightarrow> connecting \<Rightarrow> connecting res" where
  "OnEstablishing env u w =
     (if conn_state w = kConnecting
      then res_bind (call_required (OnConnectionCallback u) (w\<lparr>conn_state := kConnected\<rparr>)) (\<lambda>w1.
             Inr (SubmitReadOnce env w1))
      else Inr w)"

definition accept_bytes :: "byte list \<Rightarrow> connecting \<Rightarrow> connecting" where
  "accept_bytes msg w = w\<lparr>accepted := accepted w @ msg\<rparr>"

definition high_water :: "conn_user \<Rightarrow> nat \<Rightarrow> connecting \<Rightarrow> connecting res" where
  "high_water u len w =
     (let queued = size_add (GetReadableBytes (output_buffer w)) (GetReadableBytes (pending_output_buffer w))
      in case HighWaterMarkCallback u of
           None \<Rightarrow> Inr w
         | Some f \<Rightarrow>
             if high_water_mark w \<le> size_add queued len \<and> queued < high_water_mark w
             then f (size_add queued len) w else Inr w)"

definition Send :: "uring_env \<Rightarrow> conn_user \<Rightarrow> byte list \<Rightarrow> connecting \<Rightarrow> connecting res" where
  "Send env u msg w =
     (if conn_state w = kDisconnected then Inr w
      else if conn_state w = kConnected
      then res_bind (high_water u (length msg) w) (\<lambda>w1.
             if write_in_flight w1
             then res_bind (Append msg (pending_output_buffer w1)) (\<lambda>b.
                    Inr (accept_bytes msg (w1\<lparr>pending_output_buffer := b\<rparr>)))
             else res_bind (Append msg (output_buffer w1)) (\<lambda>b.
                    Inr (SubmitWriteOnce env (accept_bytes msg (w1\<lparr>output_buffer := b\<rparr>)))))
      else Inr w)"

text \<open>\<open>Send(IoBuffer*)\<close>: the bytes of another buffer, which is emptied.\<close>

definition Send_buffer ::
  "uring_env \<Rightarrow> conn_user \<Rightarrow> io_buffer \<Rightarrow> connecting \<Rightarrow> (io_buffer \<times> connecting) res" where
  "Send_buffer env u b w =
     res_bind (mem_read (reading_index b) (GetReadableBytes b) (buffer b)) (\<lambda>msg.
       res_bind (Send env u msg w) (\<lambda>w1. Inr (RefreshRW b, w1)))"

section \<open>Completions\<close>

text \<open>What the kernel does with the bytes of a read: it fills the \<open>iovec\<close>s in order.\<close>

fun scatter :: "(iov_base \<times> nat) list \<Rightarrow> byte list \<Rightarrow> byte list \<Rightarrow> byte list \<Rightarrow> (byte list \<times> byte list) res" where
  "scatter [] data m extra = Inr (m, extra)"
| "scatter ((InputAt off, n) # iov) data m extra =
     res_bind (mem_write off (take n data) m) (\<lambda>m'. scatter iov (drop n data) m' extra)"
| "scatter ((ExtraBuffer, n) # iov) data m extra =
     res_bind (mem_write 0 (take n data) extra) (\<lambda>x. scatter iov (drop n data) m x)"

definition fill_input :: "ReadContext \<Rightarrow> bool \<Rightarrow> byte list \<Rightarrow> nat \<Rightarrow> connecting \<Rightarrow> connecting res" where
  "fill_input ctx has_buffer data n w =
     (if rc_multishot ctx \<and> has_buffer
      then (case GetBuffer (rc_buf_id ctx) (ev_poller w) of
              None \<Rightarrow> Inr w
            | Some _ \<Rightarrow> res_bind (Append (take n data) (input_buffer w)) (\<lambda>b. Inr (w\<lparr>input_buffer := b\<rparr>)))
      else
        res_bind (if rc_multishot ctx then Inr (buffer (input_buffer w), replicate kExtraBufferSize 0)
                  else scatter (rc_iov ctx) data (buffer (input_buffer w)) (replicate kExtraBufferSize 0))
          (\<lambda>(m, extra).
            let b = (input_buffer w)\<lparr>buffer := m\<rparr>; writable = rc_writable ctx
            in if n \<le> writable then Inr (w\<lparr>input_buffer := RefreshW n b\<rparr>)
               else res_bind (mem_read 0 (n - writable) extra) (\<lambda>rest.
                      res_bind (Append rest (RefreshW writable b)) (\<lambda>b'. Inr (w\<lparr>input_buffer := b'\<rparr>)))))"

definition read_outcome :: "uring_env \<Rightarrow> conn_user \<Rightarrow> ReadContext \<Rightarrow> cqe \<Rightarrow> byte list \<Rightarrow> connecting \<Rightarrow> connecting res" where
  "read_outcome env u ctx c data w =
     (let res = cqe_res c; err = (if res < 0 then - res else 0); more = cqe_more c
      in if 0 < res then
           res_bind (fill_input ctx (cqe_has_buffer c) data (nat res) w) (\<lambda>w2.
           res_bind (call_opt (OnMessageCallback u) w2) (\<lambda>w3.
             Inr (if \<not> more then SubmitReadOnce env w3 else w3)))
         else if res = 0 then DoClosing env u w
         else if transient err then Inr (if \<not> more then SubmitReadOnce env w else w)
         else if err = ECONNRESET \<or> err = ECONNABORTED \<or> err = EPIPE then DoClosing env u w
         else DoWithError err w)"

definition OnReadComplete ::
  "uring_env \<Rightarrow> conn_user \<Rightarrow> cqe \<Rightarrow> byte list \<Rightarrow> (nat, io_fn) IoUringOp \<Rightarrow> connecting \<Rightarrow>
   ((nat, io_fn) IoUringOp \<times> connecting) res" where
  "OnReadComplete env u c data op w =
     (case op_context op of
        None \<Rightarrow> Inl UseAfterFree
      | Some a \<Rightarrow>
          case contexts w a of
            Some (RCtx ctx) \<Rightarrow>
              (let more = cqe_more c; has_buffer = cqe_has_buffer c;
                   ctx1 = (if rc_multishot ctx \<and> has_buffer then ctx\<lparr>rc_buf_id := cqe_buffer_id c\<rparr> else ctx);
                   w0 = w\<lparr>contexts := (contexts w)(a \<mapsto> RCtx ctx1)\<rparr>
               in if rc_multishot ctx \<and> \<not> more \<and> \<not> has_buffer
                  then res_bind (delete_context a (w0\<lparr>read_in_flight := False\<rparr>)) (\<lambda>w1.
                         Inr (op\<lparr>op_context := None\<rparr>, w1))
                  else
                    res_bind (read_outcome env u ctx1 c data
                        (if \<not> more then w0\<lparr>read_in_flight := False\<rparr> else w0)) (\<lambda>w4.
                      if \<not> more
                      then res_bind (delete_context a w4) (\<lambda>w5. Inr (op\<lparr>op_context := None\<rparr>, w5))
                      else Inr (op, w4)))
          | _ \<Rightarrow> Inl UseAfterFree)"

text \<open>
  The end of \<open>OnWriteComplete\<close>. The branch that swaps the buffers returns early and leaves the
  pointer to the deleted context in the operation.
\<close>

definition end_write ::
  "nat \<Rightarrow> bool \<Rightarrow> (nat, io_fn) IoUringOp \<Rightarrow> connecting \<Rightarrow> ((nat, io_fn) IoUringOp \<times> connecting) res" where
  "end_write a clear op w =
     res_bind (delete_context a w) (\<lambda>w1. Inr (if clear then op\<lparr>op_context := None\<rparr> else op, w1))"

definition take_sent :: "WriteContext \<Rightarrow> nat \<Rightarrow> connecting \<Rightarrow> connecting" where
  "take_sent ctx n w =
     w\<lparr>wire := wire w @ take n (drop (fst (wc_iov ctx)) (buffer (output_buffer w))),
       output_buffer := Refresh n (output_buffer w)\<rparr>"

definition drained :: "conn_user \<Rightarrow> connecting \<Rightarrow> connecting res" where
  "drained u w =
     res_bind (call_opt (WriteCompleteCallback u) w) (\<lambda>w1.
       Inr (if conn_state w1 = kDisconnecting \<and> GetReadableBytes (output_buffer w1) = 0 \<and>
               GetReadableBytes (pending_output_buffer w1) = 0
            then emit SocketShutdownWrite w1 else w1))"

definition swap_pending :: "connecting \<Rightarrow> connecting" where
  "swap_pending w =
     (case Swap (output_buffer w) (pending_output_buffer w) of
        (a, b) \<Rightarrow> w\<lparr>output_buffer := a, pending_output_buffer := b\<rparr>)"

definition OnWriteComplete ::
  "uring_env \<Rightarrow> conn_user \<Rightarrow> cqe \<Rightarrow> (nat, io_fn) IoUringOp \<Rightarrow> connecting \<Rightarrow>
   ((nat, io_fn) IoUringOp \<times> connecting) res" where
  "OnWriteComplete env u c op w =
     (case op_context op of
        None \<Rightarrow> Inl UseAfterFree
      | Some a \<Rightarrow>
          case contexts w a of
            Some (WCtx ctx) \<Rightarrow>
              (let w1 = w\<lparr>write_in_flight := False\<rparr>; res = cqe_res c; err = (if res < 0 then - res else 0)
               in if 0 < res then
                    let w2 = take_sent ctx (nat res) w1
                    in if 0 < GetReadableBytes (output_buffer w2)
                       then end_write a True op (SubmitWriteOnce env w2)
                       else if 0 < GetReadableBytes (pending_output_buffer w2)
                       then end_write a False op (SubmitWriteOnce env (swap_pending w2))
                       else res_bind (drained u w2) (end_write a True op)
                  else if transient err then end_write a True op (SubmitWriteOnce env w1)
                  else res_bind (DoWithError err w1) (end_write a True op))
          | _ \<Rightarrow> Inl UseAfterFree)"

text \<open>
  The completion functions as the poller calls them. An error ends the process: the poller and the
  connection stay as they are, and \<open>crashed\<close> says why.
\<close>

definition conn_complete ::
  "uring_env \<Rightarrow> conn_user \<Rightarrow> byte list \<Rightarrow> (nat, io_fn, connecting) completion" where
  "conn_complete env u data fn c op p w =
     (case (case fn of
              ReadDoneFn \<Rightarrow> OnReadComplete env u c data op (w\<lparr>ev_poller := p\<rparr>)
            | WriteDoneFn \<Rightarrow> OnWriteComplete env u c op (w\<lparr>ev_poller := p\<rparr>)) of
        Inl e \<Rightarrow> (op, p, w\<lparr>crashed := Some e\<rparr>)
      | Inr (op', w') \<Rightarrow> (op', ev_poller w', w'\<lparr>crashed := None\<rparr>))"

text \<open>The deleters that the poller has run since, on the heap.\<close>

fun run_deleters :: "nat list \<Rightarrow> connecting \<Rightarrow> connecting res" where
  "run_deleters [] w = Inr w"
| "run_deleters (a # as) w = res_bind (delete_context a w) (run_deleters as)"

text \<open>A completion that reaches the poller of the connection; \<open>data\<close> are the bytes of a read.\<close>

definition conn_cqe :: "uring_env \<Rightarrow> conn_user \<Rightarrow> cqe \<Rightarrow> byte list \<Rightarrow> connecting \<Rightarrow> connecting res" where
  "conn_cqe env u c data w =
     (case HandleCqe env (conn_complete env u data) c (ev_poller w) (w\<lparr>crashed := None\<rparr>) of
        (calls, p, w1) \<Rightarrow>
          case crashed w1 of
            Some e \<Rightarrow> Inl e
          | None \<Rightarrow> run_deleters (drop (length (deleted (ev_poller w))) (deleted p)) (w1\<lparr>ev_poller := p\<rparr>))"

text \<open>The callbacks that the connection registers with its eventer.\<close>

definition conn_callback :: "uring_env \<Rightarrow> conn_user \<Rightarrow> evt_cb \<Rightarrow> connecting \<Rightarrow> connecting res" where
  "conn_callback env u k w =
     (case k of
        ReadCallback \<Rightarrow> Inr (DoReading env w)
      | WriteCallback \<Rightarrow> Inr (DoWriting env w)
      | CloseCallback \<Rightarrow> DoClosing env u w
      | ErrorCallback \<Rightarrow> DoWithError 0 w)"

end
