(* ===== verification/Op_Ownership.thy ===== *)
theory Op_Ownership
  imports Poll_Eventer
begin

text \<open>
  Ownership of the contexts that are passed to the poller, shared by its clients: a context on the
  heap of a client belongs to one recorded operation, or to the completion function that is running.
\<close>

section \<open>Ownership of contexts\<close>

type_synonym 'f op_table = "64 word \<rightharpoonup> (nat, 'f) IoUringOp"

definition cref :: "'f op_table \<Rightarrow> 64 word \<Rightarrow> nat option" where
  "cref os k = (case os k of None \<Rightarrow> None | Some op \<Rightarrow> op_context op)"

text \<open>
  Every context on the heap is referenced by exactly one recorded operation, which has a deleter
  for it, except for those in \<open>A\<close>, which a running completion function has in its hands.
\<close>

definition owns :: "nat set \<Rightarrow> 'f op_table \<Rightarrow> (nat \<rightharpoonup> 'c) \<Rightarrow> nat \<Rightarrow> bool" where
  "owns A os cs n \<longleftrightarrow>
     dom cs = A \<union> ran (cref os) \<and> A \<inter> ran (cref os) = {} \<and> inj_on (cref os) (dom (cref os)) \<and>
     (\<forall>a \<in> dom cs. a < n) \<and> (\<forall>k op. os k = Some op \<longrightarrow> op_context op \<noteq> None \<longrightarrow> op_deleter op)"

lemma cref_upd [simp]: "cref (os(k := x)) = (cref os)(k := (case x of None \<Rightarrow> None | Some op \<Rightarrow> op_context op))"
  by (auto simp: cref_def fun_eq_iff)

lemma owns_new:
  assumes "owns A os cs n" and "os k = None" and "op_context op = Some n" and "op_deleter op"
  shows "owns A (os(k \<mapsto> op)) (cs(n \<mapsto> x)) (Suc n)"
proof -
  have n: "n \<notin> dom cs" using assms(1) by (auto simp: owns_def)
  have k: "cref os k = None" using assms(2) by (simp add: cref_def)
  have "n \<notin> ran (cref os)" using n assms(1) by (auto simp: owns_def)
  then have "inj_on ((cref os)(k \<mapsto> n)) (dom ((cref os)(k \<mapsto> n)))"
    using assms(1) by (intro inj_on_new) (simp_all add: owns_def)
  then show ?thesis
    using assms n k by (auto simp: owns_def less_Suc_eq)
qed

text \<open>A submission that failed leaves the heap as it was.\<close>

lemma owns_failed: "owns A os cs n \<Longrightarrow> owns A os (cs(n := None)) (Suc n)"
  by (auto simp: owns_def less_Suc_eq)

lemma owns_update: "owns A os cs n \<Longrightarrow> a \<in> dom cs \<Longrightarrow> owns A os (cs(a \<mapsto> x)) n"
  by (simp add: owns_def insert_absorb)

lemma owns_same:
  assumes "owns A os cs n" and "cref os' = cref os"
    and "\<And>k op. os' k = Some op \<Longrightarrow> op_context op \<noteq> None \<Longrightarrow> op_deleter op"
  shows "owns A os' cs n"
  using assms by (auto simp: owns_def)

lemma owns_take:
  assumes "owns A os cs n" and "os k = Some op"
  shows "owns (A \<union> set_option (op_context op)) (os(k := None)) cs n"
proof -
  have c: "cref os k = op_context op" using assms(2) by (simp add: cref_def)
  have inj: "inj_on (cref os) (dom (cref os))" using assms(1) by (simp add: owns_def)
  have sub: "set_option (op_context op) \<subseteq> ran (cref os)" using c by (auto simp: ran_def)
  have r: "ran ((cref os)(k := None)) = ran (cref os) - set_option (op_context op)"
    using ran_del [OF inj, of k] c by simp
  show ?thesis
    using assms(1) inj_on_del [OF inj, of k] r sub by (auto simp: owns_def split: if_splits)
qed

lemma owns_delete: "owns A os cs n \<Longrightarrow> a \<in> A \<Longrightarrow> owns (A - {a}) os (cs(a := None)) n"
  by (auto simp: owns_def)

lemma owns_return:
  assumes own: "owns A os cs n" and op: "os k = None" "op_context op = Some a" "op_deleter op" and a: "a \<in> A"
  shows "owns (A - {a}) (os(k \<mapsto> op)) cs n"
proof -
  have k: "cref os k = None" using op(1) by (simp add: cref_def)
  have "a \<notin> ran (cref os)" using own a by (auto simp: owns_def)
  then have "inj_on ((cref os)(k \<mapsto> a)) (dom ((cref os)(k \<mapsto> a)))"
    using own by (intro inj_on_new) (simp_all add: owns_def)
  then show ?thesis using own op k a by (auto simp: owns_def)
qed

lemma owns_in_hand: "owns A os cs n \<Longrightarrow> a \<in> A \<Longrightarrow> cs a \<noteq> None"
  by (auto simp: owns_def)

lemma cref_empty [simp]: "cref Map.empty = Map.empty"
  by (simp add: fun_eq_iff cref_def)

lemma owns_empty [simp]: "owns {} Map.empty Map.empty n"
  by (simp add: owns_def)

definition keys_ok :: "'f op_table \<Rightarrow> 64 word \<Rightarrow> bool" where
  "keys_ok os n \<longleftrightarrow> 0 < n \<and> (\<forall>k \<in> dom os. 0 < k \<and> k < n)"

lemma keys_ok_new: "keys_ok os n \<Longrightarrow> n < key_bound \<Longrightarrow> keys_ok (os(n \<mapsto> op)) (n + 1)"
  using key_succ [of n] by (auto simp: keys_ok_def)

lemma keys_ok_next: "keys_ok os n \<Longrightarrow> n < key_bound \<Longrightarrow> keys_ok os (n + 1)"
  using key_succ [of n] by (auto simp: keys_ok_def)

lemma submit_op_result:
  assumes "0 < next_key p"
  shows "fst (submit_op env mo mk 0 p) = (if get_sqe env (sqe_calls p) then next_key p else 0)"
  using NormalizeKey_0 [OF assms] by (simp add: submit_op_def io_uring_get_sqe_def)

lemma SubmitRead_deleted: "deleted (snd (submit_op env mo mk 0 p)) = deleted p"
proof -
  obtain k q where n: "NormalizeKey 0 p = (k, q)" by fastforce
  then have "deleted q = deleted p" by (auto simp: NormalizeKey_def Let_def split: if_splits)
  then show ?thesis by (simp add: submit_op_def n io_uring_get_sqe_def)
qed

lemma owns_poll:
  assumes "owns A os cs n" and "os k = None" and "op_context op = None"
  shows "owns A (os(k \<mapsto> op)) cs n"
proof -
  have "cref os k = None" using assms(2) by (simp add: cref_def)
  then have "(cref os)(k := None) = cref os" by (simp add: fun_upd_idem)
  then show ?thesis using assms by (intro owns_same [OF assms(1)]) (auto simp: owns_def split: if_splits)
qed

lemma cleaned_deleted:
  assumes "owns A os cs n" and "os k = Some op"
  shows "deleted (snd (cleaned op p)) = deleted p @ (case op_context op of None \<Rightarrow> [] | Some a \<Rightarrow> [a])"
    "deleted (snd (CleanupOpContext op p)) = deleted p @ (case op_context op of None \<Rightarrow> [] | Some a \<Rightarrow> [a])"
  using assms by (auto simp: cleaned_def CleanupOpContext_def owns_def split: option.splits)

lemma SubmitPoll_deleted: "0 < next_key q \<Longrightarrow> deleted (SubmitPoll env e q) = deleted q"
  using NormalizeKey_0 [of q] by (auto simp: SubmitPoll_def io_uring_get_sqe_def Let_def split: option.splits)

lemma dispatch_deleted: "0 < next_key p \<Longrightarrow> deleted (snd (dispatch env c op p)) = deleted p"
  by (auto simp: dispatch_def ReleaseBuffer_fields SubmitPoll_deleted split: OpType.splits option.splits)

lemma AddEventer_ops:
  "ops (AddEventer env a 0 p) = ops p" "next_key (AddEventer env a 0 p) = next_key p"
  by (simp_all add: AddEventer_def SubmitPoll_def)

text \<open>A new poller of the sample environment.\<close>

definition sample_poller :: "('x, 'f) poller" where
  "sample_poller = empty_poller\<lparr>use_sqpoll := True\<rparr>"

lemma sample_poller_eq: "Poller sample_env None (\<lambda>sq n. 0) None (0, 0) = Some sample_poller"
  by (simp add: sample_poller_def Poller_def GetIoUringEntries_def kDefaultEntries_def
      init_loop_ok EPERM_def EINVAL_def RegisterBuffers_def sample_env_def empty_poller_def)

end
