(* ===== verification/Connection_Safety.thy ===== *)
theory Connection_Safety
  imports Tcp_Connection Op_Ownership
begin

text \<open>
  What a connection keeps to: its contexts are owned by the operations that are outstanding, each by
  one; a completion function runs only for the read or write that is in flight; the bytes handed to
  \<open>Send\<close> go to the kernel once and in order.

  The invariants are those of a ring without multishot receives (the macro
  \<^verbatim>\<open>IORING_OP_RECV_MULTISHOT\<close> is not defined), where a read or a write completes once.
\<close>

section \<open>The invariant of a connection\<close>

definition read_ctx_ok :: "connecting \<Rightarrow> io_ctx \<Rightarrow> bool" where
  "read_ctx_ok w x =
     (case x of
        RCtx ctx \<Rightarrow> \<not> rc_multishot ctx \<and> rc_iov ctx = read_iov w \<and>
          rc_writable ctx = GetWritableBytes (input_buffer w)
      | WCtx ctx \<Rightarrow> False)"

definition write_ctx_ok :: "connecting \<Rightarrow> io_ctx \<Rightarrow> bool" where
  "write_ctx_ok w x =
     (case x of
        RCtx ctx \<Rightarrow> False
      | WCtx ctx \<Rightarrow> contents (output_buffer w) \<noteq> [] \<and>
          wc_iov ctx = (reading_index (output_buffer w), length (contents (output_buffer w))))"

text \<open>
  An operation with a completion function is the read or the write in flight, and its context
  describes the buffer as it is now.
\<close>

definition op_ok :: "connecting \<Rightarrow> 64 word \<Rightarrow> (nat, io_fn) IoUringOp \<Rightarrow> bool" where
  "op_ok w k op \<longleftrightarrow>
     (op_completion op = Some ReadDoneFn \<longrightarrow>
        read_in_flight w \<and> read_cancel_key w = k \<and> op_type op = kRead \<and>
        (\<exists>a x. op_context op = Some a \<and> contexts w a = Some x \<and> read_ctx_ok w x)) \<and>
     (op_completion op = Some WriteDoneFn \<longrightarrow>
        write_in_flight w \<and> write_cancel_key w = k \<and> op_type op = kWrite \<and>
        (\<exists>a x. op_context op = Some a \<and> contexts w a = Some x \<and> write_ctx_ok w x))"

definition in_flight_ok :: "connecting \<Rightarrow> bool" where
  "in_flight_ok w \<longleftrightarrow> (\<forall>k op. ops (ev_poller w) k = Some op \<longrightarrow> op_ok w k op)"

definition buffers_ok :: "connecting \<Rightarrow> bool" where
  "buffers_ok w \<longleftrightarrow> io_buffer_ok (input_buffer w) \<and> io_buffer_ok (output_buffer w) \<and>
     io_buffer_ok (pending_output_buffer w)"

definition conn_ok :: "nat set \<Rightarrow> connecting \<Rightarrow> bool" where
  "conn_ok A w \<longleftrightarrow>
     keys_ok (ops (ev_poller w)) (next_key (ev_poller w)) \<and> buffers_ok w \<and>
     owns A (ops (ev_poller w)) (contexts w) (next_context w) \<and> in_flight_ok w"

named_theorems quiet_simps \<open>fields that the invariants do not read\<close>

lemma ctx_ok_quiet [quiet_simps]:
  "read_ctx_ok (w\<lparr>ev_poller := p\<rparr>) = read_ctx_ok w" "write_ctx_ok (w\<lparr>ev_poller := p\<rparr>) = write_ctx_ok w"
  "read_ctx_ok (w\<lparr>contexts := cs\<rparr>) = read_ctx_ok w" "write_ctx_ok (w\<lparr>contexts := cs\<rparr>) = write_ctx_ok w"
  "read_ctx_ok (w\<lparr>next_context := n\<rparr>) = read_ctx_ok w" "write_ctx_ok (w\<lparr>next_context := n\<rparr>) = write_ctx_ok w"
  "read_ctx_ok (w\<lparr>read_in_flight := b\<rparr>) = read_ctx_ok w" "write_ctx_ok (w\<lparr>read_in_flight := b\<rparr>) = write_ctx_ok w"
  "read_ctx_ok (w\<lparr>write_in_flight := b\<rparr>) = read_ctx_ok w" "write_ctx_ok (w\<lparr>write_in_flight := b\<rparr>) = write_ctx_ok w"
  "read_ctx_ok (w\<lparr>read_cancel_key := k\<rparr>) = read_ctx_ok w" "write_ctx_ok (w\<lparr>read_cancel_key := k\<rparr>) = write_ctx_ok w"
  "read_ctx_ok (w\<lparr>write_cancel_key := k\<rparr>) = read_ctx_ok w" "write_ctx_ok (w\<lparr>write_cancel_key := k\<rparr>) = write_ctx_ok w"
  "read_ctx_ok (w\<lparr>output_buffer := o'\<rparr>) = read_ctx_ok w" "write_ctx_ok (w\<lparr>input_buffer := i'\<rparr>) = write_ctx_ok w"
  "read_ctx_ok (w\<lparr>pending_output_buffer := o'\<rparr>) = read_ctx_ok w"
  "write_ctx_ok (w\<lparr>pending_output_buffer := o'\<rparr>) = write_ctx_ok w"
  by (auto simp: fun_eq_iff read_ctx_ok_def write_ctx_ok_def read_iov_def split: io_ctx.split)

lemma conn_ok_fields:
  assumes "ev_poller v = ev_poller w" "contexts v = contexts w" "next_context v = next_context w"
    "read_in_flight v = read_in_flight w" "write_in_flight v = write_in_flight w"
    "read_cancel_key v = read_cancel_key w" "write_cancel_key v = write_cancel_key w"
    "input_buffer v = input_buffer w" "output_buffer v = output_buffer w"
    "pending_output_buffer v = pending_output_buffer w"
  shows "conn_ok A v = conn_ok A w"
proof -
  have "read_iov v = read_iov w" by (simp add: read_iov_def assms)
  then have "read_ctx_ok v = read_ctx_ok w" "write_ctx_ok v = write_ctx_ok w"
    by (auto simp: fun_eq_iff read_ctx_ok_def write_ctx_ok_def assms split: io_ctx.split)
  then show ?thesis by (simp add: conn_ok_def buffers_ok_def in_flight_ok_def op_ok_def assms)
qed

lemma conn_ok_quiet [quiet_simps]:
  "conn_ok A (w\<lparr>conn_state := st\<rparr>) = conn_ok A w" "conn_ok A (w\<lparr>effects := x\<rparr>) = conn_ok A w"
  "conn_ok A (w\<lparr>closed_fds := fds\<rparr>) = conn_ok A w" "conn_ok A (w\<lparr>accepted := bs\<rparr>) = conn_ok A w"
  "conn_ok A (w\<lparr>wire := bs\<rparr>) = conn_ok A w" "conn_ok A (w\<lparr>crashed := e\<rparr>) = conn_ok A w"
  by (rule conn_ok_fields; simp)+


section \<open>Steps of a connection\<close>

definition held_keys :: "connecting \<Rightarrow> 64 word set" where
  "held_keys w = {read_cancel_key w, write_cancel_key w}"

definition safe_held :: "connecting \<Rightarrow> bool" where
  "safe_held w \<longleftrightarrow> (\<forall>k \<in> held_keys w. safe_key (ev_poller w) k)"

text \<open>What a step does to the poller: a sequence of public operations that destroys no context.\<close>

definition poll_step :: "uring_env \<Rightarrow> connecting \<Rightarrow> connecting \<Rightarrow> bool" where
  "poll_step env w w' \<longleftrightarrow>
     counts (ev_poller w) (ev_poller w') \<and> deleted (ev_poller w') = deleted (ev_poller w) \<and>
     (key_count (ev_poller w) \<longrightarrow> few_calls (ev_poller w') \<longrightarrow> safe_held w \<longrightarrow>
        (poller_api env)\<^sup>*\<^sup>* (ev_poller w) (ev_poller w') \<and> safe_held w')"

text \<open>
  A property of connections that a step keeps, as long as the keys do not wrap around.
\<close>

definition keeps_prop :: "(connecting \<Rightarrow> bool) \<Rightarrow> connecting \<Rightarrow> connecting \<Rightarrow> bool" where
  "keeps_prop P w w' \<longleftrightarrow> (key_count (ev_poller w) \<longrightarrow> few_calls (ev_poller w') \<longrightarrow> P w \<longrightarrow> P w')"

text \<open>A step that only adds to the heap.\<close>

definition heap_grows :: "connecting \<Rightarrow> connecting \<Rightarrow> bool" where
  "heap_grows w w' \<longleftrightarrow> next_context w \<le> next_context w' \<and> (\<forall>a < next_context w. contexts w' a = contexts w a)"

lemma heap_grows_trans: "heap_grows w w' \<Longrightarrow> heap_grows w' w'' \<Longrightarrow> heap_grows w w''"
  by (simp add: heap_grows_def)

text \<open>A step of the connection: the invariant is kept, whatever a running completion has in hand.\<close>

definition conn_step :: "uring_env \<Rightarrow> connecting \<Rightarrow> connecting \<Rightarrow> bool" where
  "conn_step env w w' \<longleftrightarrow> poll_step env w w' \<and> heap_grows w w' \<and> (\<forall>A. keeps_prop (conn_ok A) w w')"

lemma counts_refl [simp]: "counts p p"
  by (simp add: counts_def)

lemma counts_back:
  assumes "counts p q" and "key_count p" and "counts q r" and "few_calls r"
  shows "few_calls q" and "key_count q"
  using counts_few [OF assms(3,4)] assms(1,2) by (simp_all add: counts_def)

lemma poll_step_counts: "poll_step env w w' \<Longrightarrow> counts (ev_poller w) (ev_poller w')"
  by (simp add: poll_step_def)

lemma poll_step_trans:
  assumes "poll_step env w w'" and "poll_step env w' w''"
  shows "poll_step env w w''"
proof -
  have c: "counts (ev_poller w) (ev_poller w')" "counts (ev_poller w') (ev_poller w'')"
    using assms by (simp_all add: poll_step_def)
  show ?thesis
    using assms counts_trans [OF c] counts_back [OF c(1) _ c(2)] unfolding poll_step_def
    by (metis rtranclp_trans)
qed

lemma keeps_prop_trans:
  assumes "poll_step env w w'" and "poll_step env w' w''" and "keeps_prop P w w'" and "keeps_prop P w' w''"
  shows "keeps_prop P w w''"
  using assms(3,4) counts_back [OF poll_step_counts [OF assms(1)] _ poll_step_counts [OF assms(2)]]
  unfolding keeps_prop_def by blast

lemma conn_step_trans: "conn_step env w w' \<Longrightarrow> conn_step env w' w'' \<Longrightarrow> conn_step env w w''"
  unfolding conn_step_def using poll_step_trans keeps_prop_trans heap_grows_trans by blast

lemma step_refl [simp]: "poll_step env w w" "keeps_prop P w w" "conn_step env w w"
  by (simp_all add: poll_step_def keeps_prop_def conn_step_def heap_grows_def)

text \<open>A step that leaves the poller alone.\<close>

lemma poll_step_local:
  "ev_poller w' = ev_poller w \<Longrightarrow> held_keys w' \<subseteq> insert 0 (held_keys w) \<Longrightarrow> poll_step env w w'"
  by (auto simp: poll_step_def safe_held_def safe_key_def)

lemma conn_step_local:
  assumes "ev_poller w' = ev_poller w" and "held_keys w' \<subseteq> insert 0 (held_keys w)"
    and "contexts w' = contexts w" and "next_context w' = next_context w"
    and "\<And>A. conn_ok A w \<Longrightarrow> conn_ok A w'"
  shows "conn_step env w w'"
  using assms by (simp add: conn_step_def poll_step_local keeps_prop_def heap_grows_def)

lemma conn_step_quiet:
  "conn_step env w (w\<lparr>conn_state := st\<rparr>)" "conn_step env w (w\<lparr>closed_fds := fds\<rparr>)"
  "conn_step env w (w\<lparr>accepted := bs\<rparr>)" "conn_step env w (emit e w)"
  by (rule conn_step_local; auto simp: quiet_simps held_keys_def emit_def)+


section \<open>Submitting and cancelling\<close>

text \<open>What a submission does to the poller, and to the connection that made it.\<close>

definition submitted_op :: "uring_env \<Rightarrow> (64 word \<Rightarrow> (nat, io_fn) IoUringOp) \<Rightarrow> (nat, io_fn) poller \<Rightarrow> (nat, io_fn) poller \<Rightarrow> bool" where
  "submitted_op env mo p q \<longleftrightarrow> poller_api env p q \<and> counts p q \<and> deleted q = deleted p \<and>
     (0 < next_key p \<longrightarrow> next_key q = next_key p + 1 \<and>
       ops q = (if get_sqe env (sqe_calls p) then (ops p)(next_key p \<mapsto> mo (next_key p)) else ops p))"

lemma submitted_read:
  "submitted_op env (mk_op kRead (Some e) ctx (Fd env e) fn del) p (snd (SubmitRead env e fn ctx 0 del p))"
  using submit_op_fields [of p env "mk_op kRead (Some e) ctx (Fd env e) fn del" "Readv (Fd env e)"]
  by (auto simp: submitted_op_def SubmitRead_def SubmitRead_deleted submit_op_counts
      intro: poller_api.read_op [unfolded SubmitRead_def])

lemma submitted_write:
  "submitted_op env (mk_op kWrite (Some e) ctx (Fd env e) fn del) p (snd (SubmitWrite env e fn ctx 0 del p))"
  using submit_op_fields [of p env "mk_op kWrite (Some e) ctx (Fd env e) fn del" "Writev (Fd env e)"]
  by (auto simp: submitted_op_def SubmitWrite_def SubmitRead_deleted submit_op_counts
      intro: poller_api.write_op [unfolded SubmitWrite_def])

lemma SubmitReadOnce_single:
  assumes "\<not> recv_multishot env" and "\<not> read_in_flight w" and "0 < next_key (ev_poller w)"
  defines "a \<equiv> next_context w" and "k \<equiv> next_key (ev_poller w)"
    and "q \<equiv> snd (SubmitRead env (ev_self w) (Some ReadDoneFn) (Some (next_context w)) 0 True (ev_poller w))"
  shows "SubmitReadOnce env w =
    (if get_sqe env (sqe_calls (ev_poller w))
     then w\<lparr>ev_poller := q, contexts := (contexts w)(a \<mapsto> RCtx
           \<lparr>rc_iov = read_iov w, rc_writable = GetWritableBytes (input_buffer w), rc_key = k,
            rc_multishot = False, rc_buf_id = 0\<rparr>),
         next_context := Suc a, read_in_flight := True, read_cancel_key := k\<rparr>
     else w\<lparr>ev_poller := q, contexts := (contexts w)(a := None), next_context := Suc a,
         read_in_flight := False, read_cancel_key := 0\<rparr>)"
proof -
  let ?S = "SubmitRead env (ev_self w) (Some ReadDoneFn) (Some (next_context w)) 0 True (ev_poller w)"
  have S: "?S = (if get_sqe env (sqe_calls (ev_poller w)) then next_key (ev_poller w) else 0, q)"
    using submit_op_result [OF assms(3)] by (simp add: q_def SubmitRead_def prod_eq_iff)
  show ?thesis
    using assms(1-3) by (simp add: SubmitReadOnce_def new_context_def finish_read_def Let_def S a_def k_def)
qed

lemma SubmitWriteOnce_busy:
  fixes env :: uring_env and w :: connecting
  assumes "\<not> write_in_flight w" and "GetReadableBytes (output_buffer w) \<noteq> 0" and "0 < next_key (ev_poller w)"
  defines "a \<equiv> next_context w" and "k \<equiv> next_key (ev_poller w)" and "n \<equiv> GetReadableBytes (output_buffer w)"
    and "q \<equiv> snd (SubmitWrite env (ev_self w) (Some WriteDoneFn) (Some (next_context w)) 0 True (ev_poller w))"
  shows "SubmitWriteOnce env w =
    (if get_sqe env (sqe_calls (ev_poller w))
     then w\<lparr>ev_poller := q, contexts := (contexts w)(a \<mapsto> WCtx
           \<lparr>wc_iov = (reading_index (output_buffer w), n), wc_to_send = n, wc_key = k\<rparr>),
         next_context := Suc a, write_in_flight := True, write_cancel_key := k\<rparr>
     else w\<lparr>ev_poller := q, contexts := (contexts w)(a := None), next_context := Suc a,
         write_in_flight := False, write_cancel_key := 0\<rparr>)"
proof -
  let ?S = "SubmitWrite env (ev_self w) (Some WriteDoneFn) (Some (next_context w)) 0 True (ev_poller w)"
  have S: "?S = (if get_sqe env (sqe_calls (ev_poller w)) then next_key (ev_poller w) else 0, q)"
    using submit_op_result [OF assms(3)] by (simp add: q_def SubmitWrite_def prod_eq_iff)
  show ?thesis
    using assms(1-3) by (simp add: SubmitWriteOnce_def new_context_def Let_def S a_def k_def n_def)
qed

lemma conn_okD:
  assumes "conn_ok A w"
  shows "0 < next_key (ev_poller w)" "ops (ev_poller w) (next_key (ev_poller w)) = None"
    "\<And>k op. ops (ev_poller w) k = Some op \<Longrightarrow> 0 < k \<and> k < next_key (ev_poller w)"
    "owns A (ops (ev_poller w)) (contexts w) (next_context w)"
    "io_buffer_ok (input_buffer w)" "io_buffer_ok (output_buffer w)" "io_buffer_ok (pending_output_buffer w)"
  using assms by (auto simp: conn_ok_def keys_ok_def buffers_ok_def)

text \<open>The context of an operation that is recorded is not the next one on the heap.\<close>

lemma owns_old: "owns A os cs n \<Longrightarrow> os k = Some op \<Longrightarrow> op_context op = Some a \<Longrightarrow> a \<noteq> n"
proof -
  assume o: "owns A os cs n" and "os k = Some op" "op_context op = Some a"
  then have "a \<in> ran (cref os)" by (auto simp: cref_def ran_def intro!: exI [of _ k])
  then show "a \<noteq> n" using o by (auto simp: owns_def)
qed

lemma conn_step_submit:
  assumes sub: "submitted_op env mo (ev_poller w) (ev_poller w')"
    and keys: "0 < next_key (ev_poller w) \<Longrightarrow>
      held_keys w' \<subseteq> held_keys w \<union> {0, if get_sqe env (sqe_calls (ev_poller w)) then next_key (ev_poller w) else 0}"
    and nopoll: "\<And>k. op_type (mo k) \<noteq> kPoll" and heap: "heap_grows w w'"
    and ok: "\<And>A. next_key (ev_poller w) < key_bound \<Longrightarrow> conn_ok A w \<Longrightarrow> conn_ok A w'"
  shows "conn_step env w w'"
proof -
  let ?p = "ev_poller w" and ?q = "ev_poller w'"
  have api: "poller_api env ?p ?q" and cnt: "counts ?p ?q" and del: "deleted ?q = deleted ?p"
    using sub by (simp_all add: submitted_op_def)
  have bound: "next_key ?p < key_bound" "0 < next_key ?p" if "key_count ?p" "few_calls ?q"
    using few_bound [OF that(1) counts_few [OF cnt that(2)]] by simp_all
  have "safe_held w'" if "key_count ?p" "few_calls ?q" "safe_held w"
  proof -
    note b = bound [OF that(1,2)]
    have q: "next_key ?q = next_key ?p + 1"
      "ops ?q = (if get_sqe env (sqe_calls ?p) then (ops ?p)(next_key ?p \<mapsto> mo (next_key ?p)) else ops ?p)"
      using sub b(2) by (simp_all add: submitted_op_def)
    have "safe_key ?q k" if "safe_key ?p k" for k
      using that key_succ(2) [OF b(1), of k] nopoll by (auto simp: safe_key_def poll_at_def q)
    moreover have "safe_key ?q (next_key ?p)" if "get_sqe env (sqe_calls ?p)"
      using that key_succ(1) [OF b(1)] nopoll by (simp add: safe_key_def poll_at_def q)
    ultimately show ?thesis
      using that(3) keys [OF b(2)] by (auto simp: safe_held_def safe_key_def [of _ 0] split: if_splits)
  qed
  then show ?thesis
    using api cnt del ok bound(1) heap unfolding conn_step_def poll_step_def keeps_prop_def by blast
qed

lemma submit_heap: "heap_grows w (SubmitReadOnce env w)" "heap_grows w (SubmitWriteOnce env w)"
  by (auto simp: heap_grows_def SubmitReadOnce_def SubmitWriteOnce_def new_context_def finish_read_def Let_def
      case_prod_beta)

lemma SubmitReadOnce_step:
  assumes single: "\<not> recv_multishot env"
  shows "conn_step env w (SubmitReadOnce env w)"
proof (cases "read_in_flight w")
  case True
  then show ?thesis by (simp add: SubmitReadOnce_def)
next
  case idle: False
  let ?p = "ev_poller w" and ?w = "SubmitReadOnce env w" and ?a = "next_context w"
  let ?mo = "mk_op kRead (Some (ev_self w)) (Some ?a) (Fd env (ev_self w)) (Some ReadDoneFn) True"
  have sub: "submitted_op env ?mo ?p (ev_poller ?w)"
    using submitted_read [of env "ev_self w" "Some ?a" "Some ReadDoneFn" True ?p] idle single
    by (simp add: SubmitReadOnce_def new_context_def finish_read_def Let_def case_prod_beta)
  show ?thesis
  proof (rule conn_step_submit [OF sub])
    assume nz: "0 < next_key ?p"
    show "held_keys ?w \<subseteq> held_keys w \<union> {0, if get_sqe env (sqe_calls ?p) then next_key ?p else 0}"
      by (auto simp: SubmitReadOnce_single [OF single idle nz] held_keys_def)
  next
    fix A
    assume b: "next_key ?p < key_bound" and ok: "conn_ok A w"
    note d = conn_okD [OF ok]
    note eq = SubmitReadOnce_single [OF single idle d(1)]
    have q: "next_key (ev_poller ?w) = next_key ?p + 1"
      "ops (ev_poller ?w) = (if get_sqe env (sqe_calls ?p) then (ops ?p)(next_key ?p \<mapsto> ?mo (next_key ?p)) else ops ?p)"
      using sub d(1) by (simp_all add: submitted_op_def)
    have keys: "keys_ok (ops (ev_poller ?w)) (next_key (ev_poller ?w))"
      unfolding q using ok b by (auto simp: conn_ok_def keys_ok_new keys_ok_next)
    have own: "owns A (ops (ev_poller ?w)) (contexts ?w) (next_context ?w)"
      unfolding q using owns_new [OF d(4,2)] owns_failed [OF d(4)] by (simp add: eq mk_op_def)
    have old: "contexts ?w a = contexts w a" if "ops ?p k = Some op" "op_context op = Some a" for k op a
      using owns_old [OF d(4) that] by (simp add: eq)
    have "op_ok ?w k op" if "ops ?p k = Some op" for k op
    proof -
      have "op_ok w k op" using ok that by (simp add: conn_ok_def in_flight_ok_def)
      then show ?thesis
        using idle old [OF that] by (auto simp: op_ok_def) (simp_all add: eq quiet_simps)
    qed
    moreover have "op_ok ?w (next_key ?p) (?mo (next_key ?p))" if "get_sqe env (sqe_calls ?p)"
      using that by (simp add: op_ok_def mk_op_def eq read_ctx_ok_def read_iov_def)
    ultimately have fl: "in_flight_ok ?w" by (auto simp: in_flight_ok_def q split: if_splits)
    have "buffers_ok ?w" using ok by (simp add: conn_ok_def buffers_ok_def eq)
    then show "conn_ok A ?w" using keys own fl by (simp add: conn_ok_def)
  qed (simp_all add: mk_op_def submit_heap)
qed

lemma SubmitWriteOnce_step: "conn_step env w (SubmitWriteOnce env w)"
proof (cases "write_in_flight w \<or> GetReadableBytes (output_buffer w) = 0")
  case True
  then show ?thesis by (simp add: SubmitWriteOnce_def)
next
  case False
  then have idle: "\<not> write_in_flight w" and some: "GetReadableBytes (output_buffer w) \<noteq> 0" by simp_all
  let ?p = "ev_poller w" and ?w = "SubmitWriteOnce env w" and ?a = "next_context w"
  let ?mo = "mk_op kWrite (Some (ev_self w)) (Some ?a) (Fd env (ev_self w)) (Some WriteDoneFn) True"
  have sub: "submitted_op env ?mo ?p (ev_poller ?w)"
    using submitted_write [of env "ev_self w" "Some ?a" "Some WriteDoneFn" True ?p] idle some
    by (simp add: SubmitWriteOnce_def new_context_def Let_def case_prod_beta)
  show ?thesis
  proof (rule conn_step_submit [OF sub])
    assume nz: "0 < next_key ?p"
    show "held_keys ?w \<subseteq> held_keys w \<union> {0, if get_sqe env (sqe_calls ?p) then next_key ?p else 0}"
      by (auto simp: SubmitWriteOnce_busy [OF idle some nz] held_keys_def)
  next
    fix A
    assume b: "next_key ?p < key_bound" and ok: "conn_ok A w"
    note d = conn_okD [OF ok]
    note eq = SubmitWriteOnce_busy [OF idle some d(1)]
    have q: "next_key (ev_poller ?w) = next_key ?p + 1"
      "ops (ev_poller ?w) = (if get_sqe env (sqe_calls ?p) then (ops ?p)(next_key ?p \<mapsto> ?mo (next_key ?p)) else ops ?p)"
      using sub d(1) by (simp_all add: submitted_op_def)
    have keys: "keys_ok (ops (ev_poller ?w)) (next_key (ev_poller ?w))"
      unfolding q using ok b by (auto simp: conn_ok_def keys_ok_new keys_ok_next)
    have own: "owns A (ops (ev_poller ?w)) (contexts ?w) (next_context ?w)"
      unfolding q using owns_new [OF d(4,2)] owns_failed [OF d(4)] by (simp add: eq mk_op_def)
    have old: "contexts ?w a = contexts w a" if "ops ?p k = Some op" "op_context op = Some a" for k op a
      using owns_old [OF d(4) that] by (simp add: eq)
    have "op_ok ?w k op" if "ops ?p k = Some op" for k op
    proof -
      have "op_ok w k op" using ok that by (simp add: conn_ok_def in_flight_ok_def)
      then show ?thesis
        using idle old [OF that] by (auto simp: op_ok_def) (simp_all add: eq quiet_simps)
    qed
    moreover have "op_ok ?w (next_key ?p) (?mo (next_key ?p))" if "get_sqe env (sqe_calls ?p)"
      using that some GetReadableBytes_contents [OF d(6)]
      by (simp add: op_ok_def mk_op_def eq write_ctx_ok_def)
    ultimately have fl: "in_flight_ok ?w" by (auto simp: in_flight_ok_def q split: if_splits)
    have "buffers_ok ?w" using ok by (simp add: conn_ok_def buffers_ok_def eq)
    then show "conn_ok A ?w" using keys own fl by (simp add: conn_ok_def)
  qed (simp_all add: mk_op_def submit_heap)
qed

definition cancel_read :: "uring_env \<Rightarrow> connecting \<Rightarrow> connecting" where
  "cancel_read env w =
     (if read_in_flight w
      then (if read_cancel_key w \<noteq> 0
            then w\<lparr>ev_poller := CancelOp env (read_cancel_key w) (ev_poller w), read_cancel_key := 0\<rparr>
            else w)\<lparr>read_in_flight := False\<rparr>
      else w)"

definition cancel_write :: "uring_env \<Rightarrow> connecting \<Rightarrow> connecting" where
  "cancel_write env w =
     (if write_in_flight w
      then (if write_cancel_key w \<noteq> 0
            then w\<lparr>ev_poller := CancelOp env (write_cancel_key w) (ev_poller w), write_cancel_key := 0\<rparr>
            else w)\<lparr>write_in_flight := False\<rparr>
      else w)"

lemma CancelPendingIo_split: "CancelPendingIo env w = cancel_write env (cancel_read env w)"
  by (simp add: CancelPendingIo_def cancel_write_def cancel_read_def Let_def)

lemma CancelOp_ops:
  "ops (CancelOp env k p) j =
     (if j = k \<and> k \<noteq> 0 then map_option (\<lambda>op. op\<lparr>op_eventer := None, op_completion := None\<rparr>) (ops p k)
      else ops p j)"
  by (auto simp: CancelOp_def io_uring_get_sqe_def Let_def split: option.splits)

lemma CancelOp_next_key: "next_key (CancelOp env k p) = next_key p"
  by (simp add: CancelOp_def io_uring_get_sqe_def Let_def split: option.splits)

lemma cancel_owns:
  assumes "owns A (ops p) cs n"
  shows "owns A (ops (CancelOp env k p)) cs n"
proof (rule owns_same [OF assms])
  show "cref (ops (CancelOp env k p)) = cref (ops p)"
    by (auto simp: fun_eq_iff cref_def CancelOp_ops split: option.splits)
  show "op_deleter op" if "ops (CancelOp env k p) j = Some op" "op_context op \<noteq> None" for j op
    using that assms by (auto simp: CancelOp_ops owns_def split: if_splits)
qed

lemma cancel_keys: "keys_ok (ops p) n \<Longrightarrow> keys_ok (ops (CancelOp env k p)) n"
proof -
  have "dom (ops (CancelOp env k p)) = dom (ops p)" by (auto simp: CancelOp_ops split: if_splits)
  then show "keys_ok (ops p) n \<Longrightarrow> keys_ok (ops (CancelOp env k p)) n" by (simp add: keys_ok_def)
qed

lemma CancelOp_op:
  assumes "ops (CancelOp env k p) j = Some op"
  obtains op0 where "ops p j = Some op0" "op_context op = op_context op0"
    "op_completion op = None \<or> op = op0 \<and> (j \<noteq> k \<or> k = 0)"
  using assms by (auto simp: CancelOp_ops split: if_splits)

text \<open>
  Cancelling the operation under a held key: the step is fine as soon as what is left in flight is.
\<close>

lemma conn_step_cancel:
  assumes w': "ev_poller w' = CancelOp env k (ev_poller w)" and k: "k \<in> held_keys w"
    and held: "held_keys w' \<subseteq> insert 0 (held_keys w)"
    and same: "contexts w' = contexts w" "next_context w' = next_context w" "input_buffer w' = input_buffer w"
      "output_buffer w' = output_buffer w" "pending_output_buffer w' = pending_output_buffer w"
    and flight: "\<And>A. conn_ok A w \<Longrightarrow> in_flight_ok w'"
  shows "conn_step env w w'"
proof -
  let ?p = "ev_poller w"
  have "safe_held w' \<and> poller_api env ?p (ev_poller w')" if "safe_held w"
    using that k held keeps_safe [OF keeps_CancelOp [of ?p env k]] poller_api.cancel [of ?p k env]
    by (auto simp: safe_held_def w' safe_key_def [of _ 0])
  moreover have "conn_ok A w'" if "conn_ok A w" for A
    using that flight [OF that] cancel_owns [of A ?p "contexts w"] cancel_keys [of ?p]
    by (simp add: conn_ok_def w' same buffers_ok_def CancelOp_next_key)
  moreover have "counts ?p (ev_poller w')" "deleted (ev_poller w') = deleted ?p"
    by (simp_all add: w' counts_Cancel Cancel_ctx)
  moreover have "heap_grows w w'" by (simp add: heap_grows_def same)
  ultimately show ?thesis unfolding conn_step_def poll_step_def keeps_prop_def by blast
qed

lemma cancel_read_step: "conn_step env w (cancel_read env w)"
proof -
  let ?w = "cancel_read env w"
  have flight: "in_flight_ok ?w" if "conn_ok A w" for A
  proof -
    have ok: "op_ok w k op" "0 < k" if "ops (ev_poller w) k = Some op" for k op
      using \<open>conn_ok A w\<close> that conn_okD(3) by (auto simp: conn_ok_def in_flight_ok_def)
    have "op_ok ?w k op" if op: "ops (ev_poller ?w) k = Some op" for k op
    proof (cases "read_in_flight w \<and> read_cancel_key w \<noteq> 0")
      case True
      then have "ops (CancelOp env (read_cancel_key w) (ev_poller w)) k = Some op"
        using op by (simp add: cancel_read_def)
      then obtain op0 where op0: "ops (ev_poller w) k = Some op0" "op_context op = op_context op0"
        "op_completion op = None \<or> op = op0 \<and> (k \<noteq> read_cancel_key w \<or> read_cancel_key w = 0)"
        by (rule CancelOp_op)
      then show ?thesis using ok(1) [OF op0(1)] True by (auto simp: op_ok_def cancel_read_def quiet_simps)
    next
      case False
      then have "ops (ev_poller w) k = Some op" using op by (auto simp: cancel_read_def split: if_splits)
      from ok [OF this] False show ?thesis by (auto simp: op_ok_def cancel_read_def quiet_simps)
    qed
    then show ?thesis by (simp add: in_flight_ok_def)
  qed
  show ?thesis
  proof (cases "read_in_flight w \<and> read_cancel_key w \<noteq> 0")
    case True
    show ?thesis
      by (rule conn_step_cancel [of _ _ "read_cancel_key w"])
        (use True flight in \<open>auto simp: cancel_read_def held_keys_def\<close>)
  next
    case False
    have "conn_ok A ?w" if "conn_ok A w" for A
      using that flight [OF that] False by (auto simp: conn_ok_def buffers_ok_def cancel_read_def)
    then show ?thesis
      by (rule conn_step_local [rotated 4]) (use False in \<open>auto simp: cancel_read_def held_keys_def\<close>)
  qed
qed

lemma cancel_write_step: "conn_step env w (cancel_write env w)"
proof -
  let ?w = "cancel_write env w"
  have flight: "in_flight_ok ?w" if "conn_ok A w" for A
  proof -
    have ok: "op_ok w k op" "0 < k" if "ops (ev_poller w) k = Some op" for k op
      using \<open>conn_ok A w\<close> that conn_okD(3) by (auto simp: conn_ok_def in_flight_ok_def)
    have "op_ok ?w k op" if op: "ops (ev_poller ?w) k = Some op" for k op
    proof (cases "write_in_flight w \<and> write_cancel_key w \<noteq> 0")
      case True
      then have "ops (CancelOp env (write_cancel_key w) (ev_poller w)) k = Some op"
        using op by (simp add: cancel_write_def)
      then obtain op0 where op0: "ops (ev_poller w) k = Some op0" "op_context op = op_context op0"
        "op_completion op = None \<or> op = op0 \<and> (k \<noteq> write_cancel_key w \<or> write_cancel_key w = 0)"
        by (rule CancelOp_op)
      then show ?thesis using ok(1) [OF op0(1)] True by (auto simp: op_ok_def cancel_write_def quiet_simps)
    next
      case False
      then have "ops (ev_poller w) k = Some op" using op by (auto simp: cancel_write_def split: if_splits)
      from ok [OF this] False show ?thesis by (auto simp: op_ok_def cancel_write_def quiet_simps)
    qed
    then show ?thesis by (simp add: in_flight_ok_def)
  qed
  show ?thesis
  proof (cases "write_in_flight w \<and> write_cancel_key w \<noteq> 0")
    case True
    show ?thesis
      by (rule conn_step_cancel [of _ _ "write_cancel_key w"])
        (use True flight in \<open>auto simp: cancel_write_def held_keys_def\<close>)
  next
    case False
    have "conn_ok A ?w" if "conn_ok A w" for A
      using that flight [OF that] False by (auto simp: conn_ok_def buffers_ok_def cancel_write_def)
    then show ?thesis
      by (rule conn_step_local [rotated 4]) (use False in \<open>auto simp: cancel_write_def held_keys_def\<close>)
  qed
qed

lemma CancelPendingIo_step: "conn_step env w (CancelPendingIo env w)"
  unfolding CancelPendingIo_split by (rule conn_step_trans [OF cancel_read_step cancel_write_step])


section \<open>The stream of output bytes\<close>

text \<open>
  What \<open>Send\<close> accepted is what the kernel took followed by what is queued, and unless the
  connection is closed, queued bytes are being written.
\<close>

definition balanced :: "connecting \<Rightarrow> bool" where
  "balanced w \<longleftrightarrow> accepted w = wire w @ contents (output_buffer w) @ contents (pending_output_buffer w)"

definition stream_ok :: "connecting \<Rightarrow> bool" where
  "stream_ok w \<longleftrightarrow> balanced w \<and>
     (conn_state w \<noteq> kDisconnected \<longrightarrow> \<not> write_in_flight w \<longrightarrow>
        contents (output_buffer w) = [] \<and> contents (pending_output_buffer w) = [])"

definition conn_stream :: "uring_env \<Rightarrow> nat set \<Rightarrow> connecting \<Rightarrow> bool" where
  "conn_stream env A w \<longleftrightarrow> (\<forall>n. get_sqe env n) \<and> conn_ok A w \<and> stream_ok w"

text \<open>A step of a user: of the connection, and keeping the stream.\<close>

definition user_step :: "uring_env \<Rightarrow> connecting \<Rightarrow> connecting \<Rightarrow> bool" where
  "user_step env w w' \<longleftrightarrow> conn_step env w w' \<and> (\<forall>A. keeps_prop (conn_stream env A) w w')"

lemma user_step_trans: "user_step env w w' \<Longrightarrow> user_step env w' w'' \<Longrightarrow> user_step env w w''"
  unfolding user_step_def conn_step_def using poll_step_trans keeps_prop_trans heap_grows_trans by blast

lemma user_step_refl [simp]: "user_step env w w"
  by (simp add: user_step_def)

lemma user_stepI:
  assumes "conn_step env w w'"
    and "\<And>A. \<forall>n. get_sqe env n \<Longrightarrow> conn_ok A w \<Longrightarrow> stream_ok w \<Longrightarrow> stream_ok w'"
  shows "user_step env w w'"
  using assms unfolding user_step_def conn_step_def keeps_prop_def conn_stream_def by blast

text \<open>A step of the connection that leaves the output alone.\<close>

lemma user_step_output:
  assumes "conn_step env w w'" and "conn_state w' = conn_state w \<or> conn_state w' = kDisconnected"
    and "accepted w' = accepted w" "wire w' = wire w" "output_buffer w' = output_buffer w"
      "pending_output_buffer w' = pending_output_buffer w" "write_in_flight w' = write_in_flight w"
  shows "user_step env w w'"
proof -
  have "stream_ok w \<Longrightarrow> stream_ok w'" using assms(2-) by (auto simp: stream_ok_def balanced_def)
  then show ?thesis by (rule user_stepI [OF assms(1)])
qed

lemma SubmitReadOnce_output:
  "conn_state (SubmitReadOnce env w) = conn_state w" "accepted (SubmitReadOnce env w) = accepted w"
  "wire (SubmitReadOnce env w) = wire w" "output_buffer (SubmitReadOnce env w) = output_buffer w"
  "pending_output_buffer (SubmitReadOnce env w) = pending_output_buffer w"
  "write_in_flight (SubmitReadOnce env w) = write_in_flight w"
  by (simp_all add: SubmitReadOnce_def new_context_def finish_read_def Let_def case_prod_beta)

lemma SubmitReadOnce_user: "\<not> recv_multishot env \<Longrightarrow> user_step env w (SubmitReadOnce env w)"
  by (rule user_step_output [OF SubmitReadOnce_step]) (simp_all add: SubmitReadOnce_output)

lemma SubmitWriteOnce_output:
  "conn_state (SubmitWriteOnce env w) = conn_state w" "accepted (SubmitWriteOnce env w) = accepted w"
  "wire (SubmitWriteOnce env w) = wire w" "output_buffer (SubmitWriteOnce env w) = output_buffer w"
  "pending_output_buffer (SubmitWriteOnce env w) = pending_output_buffer w"
  by (simp_all add: SubmitWriteOnce_def new_context_def Let_def case_prod_beta)

lemma SubmitWriteOnce_stream:
  assumes ok: "conn_ok A w" and sqe: "\<And>n. get_sqe env n" and bal: "balanced w"
    and rest: "conn_state w \<noteq> kDisconnected \<Longrightarrow> \<not> write_in_flight w \<Longrightarrow> contents (output_buffer w) = [] \<Longrightarrow>
      contents (pending_output_buffer w) = []"
  shows "stream_ok (SubmitWriteOnce env w)"
proof -
  note d = conn_okD [OF ok]
  have "write_in_flight (SubmitWriteOnce env w)" if "write_in_flight w \<or> contents (output_buffer w) \<noteq> []"
  proof (cases "write_in_flight w")
    case False
    then have "GetReadableBytes (output_buffer w) \<noteq> 0"
      using that GetReadableBytes_contents [OF d(6)] by simp
    then show ?thesis using SubmitWriteOnce_busy [OF False _ d(1)] sqe by simp
  qed (simp add: SubmitWriteOnce_def)
  then show ?thesis using bal rest by (auto simp: stream_ok_def balanced_def SubmitWriteOnce_output)
qed

lemma cancel_output:
  "conn_state (CancelPendingIo env w) = conn_state w" "accepted (CancelPendingIo env w) = accepted w"
  "wire (CancelPendingIo env w) = wire w" "output_buffer (CancelPendingIo env w) = output_buffer w"
  "pending_output_buffer (CancelPendingIo env w) = pending_output_buffer w"
  "ev_fd (CancelPendingIo env w) = ev_fd w" "closed_fds (CancelPendingIo env w) = closed_fds w"
  "\<not> read_in_flight (CancelPendingIo env w)" "\<not> write_in_flight (CancelPendingIo env w)"
  by (simp_all add: CancelPendingIo_def Let_def)


section \<open>The user of a connection\<close>

definition user_callbacks :: "conn_user \<Rightarrow> conn_cb set" where
  "user_callbacks u =
     set_option (OnConnectionCallback u) \<union> set_option (WriteCompleteCallback u) \<union>
     set_option (UserCloseCallback u) \<union> (\<Union>f \<in> set_option (HighWaterMarkCallback u). range f)"

definition free_error :: "cpp_error \<Rightarrow> bool" where
  "free_error e \<longleftrightarrow> e = UseAfterFree \<or> e = DoubleFree"

lemma conn_ok_output:
  assumes "conn_ok A w" and "\<not> write_in_flight w" and "io_buffer_ok b"
  shows "conn_ok A (w\<lparr>output_buffer := b\<rparr>)"
  using assms by (auto simp: conn_ok_def buffers_ok_def in_flight_ok_def op_ok_def quiet_simps)

lemma conn_ok_pending:
  assumes "conn_ok A w" and "io_buffer_ok b"
  shows "conn_ok A (w\<lparr>pending_output_buffer := b\<rparr>)"
  using assms by (auto simp: conn_ok_def buffers_ok_def in_flight_ok_def op_ok_def quiet_simps)

lemma conn_ok_input:
  assumes "conn_ok A w" and "\<not> read_in_flight w" and "io_buffer_ok b"
  shows "conn_ok A (w\<lparr>input_buffer := b\<rparr>)"
  using assms by (auto simp: conn_ok_def buffers_ok_def in_flight_ok_def op_ok_def quiet_simps)

lemma conn_step_user: "user_step env w w' \<Longrightarrow> conn_step env w w'"
  by (simp add: user_step_def)

lemma conn_step_poll: "conn_step env w w' \<Longrightarrow> poll_step env w w'"
  by (simp add: conn_step_def)

text \<open>
  The contract of the callbacks that a user registers: they act on the connection through its
  operations (so what they do is a \<open>user_step\<close>), do not free its contexts, and a callback for the
  high-water mark does not close the connection that is sending. The callback for messages may also
  take bytes from the input buffer, which is sound because it is called with no read in flight.
\<close>

locale connection_user =
  fixes env :: uring_env and u :: conn_user
  assumes single: "\<not> recv_multishot env"
    and callback: "f \<in> user_callbacks u \<Longrightarrow> f w = Inr w' \<Longrightarrow> user_step env w w'"
    and callback_error: "f \<in> user_callbacks u \<union> set_option (OnMessageCallback u) \<Longrightarrow> f w = Inl e \<Longrightarrow> \<not> free_error e"
    and message: "OnMessageCallback u = Some f \<Longrightarrow> f w = Inr w' \<Longrightarrow>
      poll_step env w w' \<and> heap_grows w w' \<and> (\<not> read_in_flight w \<longrightarrow> user_step env w w')"
    and high_water_state: "HighWaterMarkCallback u = Some h \<Longrightarrow> h n w = Inr w' \<Longrightarrow> conn_state w' = conn_state w"
begin

lemma call_opt_user:
  assumes "set_option f \<subseteq> user_callbacks u"
  shows "call_opt f w = Inr w' \<Longrightarrow> user_step env w w'" "call_opt f w = Inl e \<Longrightarrow> \<not> free_error e"
  using assms callback callback_error [OF UnI1] by (auto simp: call_opt_def split: option.splits)

lemma user_callbacks_mem:
  "set_option (OnConnectionCallback u) \<subseteq> user_callbacks u"
  "set_option (WriteCompleteCallback u) \<subseteq> user_callbacks u" "set_option (UserCloseCallback u) \<subseteq> user_callbacks u"
  by (auto simp: user_callbacks_def)

lemmas call_user = user_callbacks_mem [THEN call_opt_user(1)]
lemmas call_user_error = user_callbacks_mem [THEN call_opt_user(2)]

lemma message_user:
  assumes "call_opt (OnMessageCallback u) w = Inr w'"
  shows "poll_step env w w'" "heap_grows w w'" "\<not> read_in_flight w \<Longrightarrow> user_step env w w'"
  using assms message by (auto simp: call_opt_def heap_grows_def split: option.splits)

lemma message_error: "call_opt (OnMessageCallback u) w = Inl e \<Longrightarrow> \<not> free_error e"
  using callback_error [OF UnI2] by (auto simp: call_opt_def split: option.splits)

lemma DoClosing_user:
  assumes "DoClosing env u w = Inr w'"
  shows "user_step env w w'"
proof (cases "conn_state w = kDisconnected")
  case True
  then show ?thesis using assms by (simp add: DoClosing_def)
next
  case False
  let ?w1 = "CancelPendingIo env (StopReadingWriting env (w\<lparr>conn_state := kDisconnected\<rparr>))"
  obtain w2 w3 where c: "call_opt (OnConnectionCallback u) ?w1 = Inr w2"
    "call_opt (UserCloseCallback u) w2 = Inr w3" "w' = DeleteConnection (ev_fd w3) w3"
    using assms False by (auto simp: DoClosing_def Let_def res_bind_Inr_iff)
  have step: "conn_step env w ?w1" unfolding StopReadingWriting_def
    by (rule conn_step_trans [OF conn_step_trans [OF conn_step_quiet(1) CancelPendingIo_step] CancelPendingIo_step])
  have "stream_ok w \<Longrightarrow> stream_ok ?w1"
    by (simp add: stream_ok_def balanced_def cancel_output StopReadingWriting_def)
  then have "user_step env w ?w1" by (rule user_stepI [OF step])
  moreover have "user_step env w3 w'"
    unfolding c(3) DeleteConnection_def by (rule user_step_output [OF conn_step_quiet(2)]) simp_all
  ultimately show ?thesis using call_user(1) [OF c(1)] call_user(3) [OF c(2)] user_step_trans by blast
qed

lemma DoClosing_error: "DoClosing env u w = Inl e \<Longrightarrow> \<not> free_error e"
  using call_user_error by (auto simp: DoClosing_def Let_def res_bind_Inl_iff split: if_splits)

lemma ForceClose_user:
  assumes "ForceClose env u w = Inr w'"
  shows "user_step env w w'"
proof -
  have "user_step env w (w\<lparr>conn_state := kDisconnecting\<rparr>)" if "conn_state w \<noteq> kDisconnected"
  proof -
    have "stream_ok w \<Longrightarrow> stream_ok (w\<lparr>conn_state := kDisconnecting\<rparr>)"
      using that by (simp add: stream_ok_def balanced_def)
    then show ?thesis by (rule user_stepI [OF conn_step_quiet(1)])
  qed
  then show ?thesis
    using assms DoClosing_user user_step_trans by (fastforce simp: ForceClose_def split: if_splits)
qed

lemma ShutDownWrite_user: "user_step env w (ShutDownWrite w)"
proof -
  have "conn_step env w (ShutDownWrite w)"
    using conn_step_quiet(1) conn_step_trans [OF conn_step_quiet(1) conn_step_quiet(4)]
    by (simp add: ShutDownWrite_def Let_def)
  then show ?thesis
    by (rule user_stepI) (auto simp: ShutDownWrite_def Let_def emit_def stream_ok_def balanced_def)
qed

lemma high_water_user:
  assumes "high_water u n w = Inr w'"
  shows "user_step env w w'" and "conn_state w' = conn_state w"
proof -
  have "user_step env w w' \<and> conn_state w' = conn_state w"
  proof (cases "HighWaterMarkCallback u")
    case None
    then show ?thesis using assms by (simp add: high_water_def Let_def)
  next
    case (Some h)
    then have h: "h m \<in> user_callbacks u" for m by (simp add: user_callbacks_def)
    have "w' = w \<or> (\<exists>m. h m w = Inr w')"
      using assms Some by (auto simp: high_water_def Let_def split: if_splits)
    then show ?thesis using callback [OF h] high_water_state [OF Some] by auto
  qed
  then show "user_step env w w'" "conn_state w' = conn_state w" by simp_all
qed

lemma Send_user:
  assumes sent: "Send env u msg w = Inr w'" and max: "length msg \<le> vector_max_size"
  shows "user_step env w w'"
proof (cases "conn_state w = kConnected")
  case False
  then show ?thesis using sent by (auto simp: Send_def split: if_splits)
next
  case True
  obtain w1 where w1: "high_water u (length msg) w = Inr w1"
    "(if write_in_flight w1
      then res_bind (Append msg (pending_output_buffer w1)) (\<lambda>b.
             Inr (accept_bytes msg (w1\<lparr>pending_output_buffer := b\<rparr>)))
      else res_bind (Append msg (output_buffer w1)) (\<lambda>b.
             Inr (SubmitWriteOnce env (accept_bytes msg (w1\<lparr>output_buffer := b\<rparr>))))) = Inr w'"
    using sent True by (auto simp: Send_def res_bind_Inr_iff)
  note hw = high_water_user [OF w1(1)]
  have st: "conn_state w1 = kConnected" using hw(2) True by simp
  have "user_step env w1 w'"
  proof (cases "write_in_flight w1")
    case flight: True
    obtain b where b: "Append msg (pending_output_buffer w1) = Inr b"
      "w' = accept_bytes msg (w1\<lparr>pending_output_buffer := b\<rparr>)"
      using w1(2) flight by (auto simp: res_bind_Inr_iff)
    have app: "io_buffer_ok b \<and> contents b = contents (pending_output_buffer w1) @ msg" if "conn_ok A w1" for A
      using Append_Inr [OF conn_okD(7) [OF that] max b(1)] by simp
    have "conn_ok A w1 \<Longrightarrow> conn_ok A w'" for A
      using conn_ok_pending app by (simp add: b(2) accept_bytes_def quiet_simps)
    then have "conn_step env w1 w'"
      by (rule conn_step_local [rotated 4]) (simp_all add: b(2) accept_bytes_def held_keys_def)
    then show ?thesis
    proof (rule user_stepI)
      show "stream_ok w'" if "conn_ok A w1" "stream_ok w1" for A
        using app [OF that(1)] that(2) flight by (simp add: stream_ok_def balanced_def b(2) accept_bytes_def)
    qed
  next
    case idle: False
    obtain b where b: "Append msg (output_buffer w1) = Inr b"
      "w' = SubmitWriteOnce env (accept_bytes msg (w1\<lparr>output_buffer := b\<rparr>))"
      using w1(2) idle by (auto simp: res_bind_Inr_iff)
    let ?w2 = "accept_bytes msg (w1\<lparr>output_buffer := b\<rparr>)"
    have app: "io_buffer_ok b \<and> contents b = contents (output_buffer w1) @ msg" if "conn_ok A w1" for A
      using Append_Inr [OF conn_okD(6) [OF that] max b(1)] by simp
    have ok2: "conn_ok A w1 \<Longrightarrow> conn_ok A ?w2" for A
      using conn_ok_output [OF _ idle] app by (simp add: accept_bytes_def quiet_simps)
    then have "conn_step env w1 ?w2"
      by (rule conn_step_local [rotated 4]) (simp_all add: accept_bytes_def held_keys_def)
    then have "conn_step env w1 w'" unfolding b(2) by (rule conn_step_trans [OF _ SubmitWriteOnce_step])
    then show ?thesis
    proof (rule user_stepI)
      fix A
      assume sqe: "\<forall>n. get_sqe env n" and ok: "conn_ok A w1" and s: "stream_ok w1"
      show "stream_ok w'" unfolding b(2)
    proof (rule SubmitWriteOnce_stream [OF ok2 [OF ok]])
      have "contents (output_buffer w1) = []" "contents (pending_output_buffer w1) = []"
        using s st idle by (simp_all add: stream_ok_def)
      then show "balanced ?w2" "contents (pending_output_buffer ?w2) = []"
        using s app [OF ok] by (simp_all add: stream_ok_def balanced_def accept_bytes_def)
    qed (use sqe in simp)
    qed
  qed
  then show ?thesis using hw(1) user_step_trans by blast
qed

end

end
