(* ===== verification/Connection_Stream.thy ===== *)
theory Connection_Stream
  imports Connection_Safety
begin

text \<open>
  The completions of reads and writes: they keep to the contract that the poller asks of completion
  functions, deliver what arrived to the user, and keep the ownership of contexts and the order of
  the output.
\<close>

section \<open>Filling the input buffer\<close>

definition read_capacity :: "connecting \<Rightarrow> nat" where
  "read_capacity w = sum_list (map snd (read_iov w))"

lemma kExtra_max: "kExtraBufferSize \<le> vector_max_size"
  by (simp add: kExtraBufferSize_def vector_max_size_def)

lemma extra_roundtrip:
  assumes "length xs \<le> kExtraBufferSize"
  shows "\<exists>x. mem_write 0 xs (replicate kExtraBufferSize 0) = Inr x \<and> mem_read 0 (length xs) x = Inr xs"
  using assms by (simp add: mem_simps)

lemma mem_write_Nil: "off \<le> length m \<Longrightarrow> mem_write off [] m = Inr m"
  by (simp add: mem_write_in)

lemma fill_input_single:
  assumes ok: "io_buffer_ok (input_buffer w)" and ctx: "read_ctx_ok w (RCtx ctx)"
    and data: "length data = n" "0 < n" "n \<le> read_capacity w"
  shows "\<exists>b1. io_buffer_ok b1 \<and>
    contents b1 = contents (input_buffer w) @ take (writable (input_buffer w)) data \<and>
    fill_input ctx has_buffer data n w =
      res_bind (if n \<le> writable (input_buffer w) then Inr b1
                else Append (drop (writable (input_buffer w)) data) b1)
        (\<lambda>b'. Inr (w\<lparr>input_buffer := b'\<rparr>))"
proof -
  let ?b = "input_buffer w" and ?wr = "writable (input_buffer w)"
  let ?x0 = "replicate kExtraBufferSize (0 :: byte)"
  have wr: "GetWritableBytes ?b = ?wr" by (rule GetWritableBytes_ok [OF ok])
  have c: "\<not> rc_multishot ctx" "rc_iov ctx = read_iov w" "rc_writable ctx = ?wr"
    using ctx by (simp_all add: read_ctx_ok_def wr)
  obtain m where m: "mem_write (writing_index ?b) (take ?wr data) (buffer ?b) = Inr m"
    "io_buffer_ok (RefreshW (length (take ?wr data)) (?b\<lparr>buffer := m\<rparr>))"
    "contents (RefreshW (length (take ?wr data)) (?b\<lparr>buffer := m\<rparr>)) = contents ?b @ take ?wr data"
    using write_contents [OF ok, of "take ?wr data"] by auto
  let ?b1 = "RefreshW (length (take ?wr data)) (?b\<lparr>buffer := m\<rparr>)"
  have cap: "length (drop ?wr data) \<le> kExtraBufferSize"
    using data by (simp add: read_capacity_def read_iov_def wr Let_def split: if_splits)
  obtain x where x: "mem_write 0 (drop ?wr data) ?x0 = Inr x"
    "mem_read 0 (length (drop ?wr data)) x = Inr (drop ?wr data)"
    using extra_roundtrip [OF cap] by blast
  have all: "take kExtraBufferSize (drop ?wr data) = drop ?wr data" using cap by simp
  have sc: "scatter (read_iov w) data (buffer ?b) ?x0 = Inr (m, if ?wr < kExtraBufferSize then x else ?x0)"
  proof (cases "?wr = 0")
    case True
    then have "m = buffer ?b"
      using m(1) mem_write_Nil [of "writing_index ?b" "buffer ?b"] io_buffer_okD [OF ok] by simp
    then show ?thesis using True x(1) all by (simp add: read_iov_def wr Let_def kExtraBufferSize_def)
  next
    case False
    then show ?thesis using m(1) x(1) all by (simp add: read_iov_def wr Let_def)
  qed
  have spill: "?wr < kExtraBufferSize" if "\<not> n \<le> ?wr"
    using that data by (simp add: read_capacity_def read_iov_def wr Let_def split: if_splits)
  have "fill_input ctx has_buffer data n w =
      res_bind (if n \<le> ?wr then Inr ?b1 else Append (drop ?wr data) ?b1) (\<lambda>b'. Inr (w\<lparr>input_buffer := b'\<rparr>))"
  proof (cases "n \<le> ?wr")
    case True
    then show ?thesis using data(1) by (simp add: fill_input_def c sc)
  next
    case False
    then have "length (take ?wr data) = ?wr" "n - ?wr = length (drop ?wr data)" using data(1) by simp_all
    then show ?thesis using False spill [OF False] x(2) by (simp add: fill_input_def c sc Let_def)
  qed
  then show ?thesis using m(2,3) by blast
qed

lemma fill_input_Inr:
  assumes ok: "io_buffer_ok (input_buffer w)" and ctx: "read_ctx_ok w (RCtx ctx)"
    and data: "length data = n" "0 < n" "n \<le> read_capacity w"
    and r: "fill_input ctx has_buffer data n w = Inr w'"
  shows "\<exists>b'. w' = w\<lparr>input_buffer := b'\<rparr> \<and> io_buffer_ok b' \<and> contents b' = contents (input_buffer w) @ data"
proof -
  let ?wr = "writable (input_buffer w)"
  obtain b1 where b1: "io_buffer_ok b1" "contents b1 = contents (input_buffer w) @ take ?wr data"
    "fill_input ctx has_buffer data n w =
      res_bind (if n \<le> ?wr then Inr b1 else Append (drop ?wr data) b1) (\<lambda>b'. Inr (w\<lparr>input_buffer := b'\<rparr>))"
    using fill_input_single [OF ok ctx data] by blast
  show ?thesis
  proof (cases "n \<le> ?wr")
    case True
    then show ?thesis using b1 r data(1) by auto
  next
    case False
    then have "res_bind (Append (drop ?wr data) b1) (\<lambda>b'. Inr (w\<lparr>input_buffer := b'\<rparr>)) = Inr w'"
      using b1(3) r by simp
    then obtain b' where b': "Append (drop ?wr data) b1 = Inr b'" "w' = w\<lparr>input_buffer := b'\<rparr>"
      by (auto simp: res_bind_Inr_iff)
    have "length (drop ?wr data) \<le> kExtraBufferSize"
      using False data by (simp add: read_capacity_def read_iov_def GetWritableBytes_ok [OF ok] Let_def split: if_splits)
    then have "length (drop ?wr data) \<le> vector_max_size" using kExtra_max by linarith
    from Append_Inr [OF b1(1) this b'(1)] show ?thesis using b'(2) b1(2) by auto
  qed
qed

text \<open>Filling touches nothing but the input buffer, whatever the arguments.\<close>

lemma fill_input_local:
  assumes "fill_input ctx has_buffer data n w = Inr w'"
  shows "\<exists>b. w' = w\<lparr>input_buffer := b\<rparr>"
proof -
  have "\<exists>b. w = w\<lparr>input_buffer := b\<rparr>" by (rule exI [of _ "input_buffer w"]) simp
  then show ?thesis
    using assms by (auto simp: fill_input_def Let_def res_bind_Inr_iff split: if_splits option.splits prod.splits)
qed

lemma mem_error: "mem_write off xs m = Inl e \<Longrightarrow> \<not> free_error e" "mem_read off n m = Inl e \<Longrightarrow> \<not> free_error e"
  by (auto simp: mem_write_def mem_read_def free_error_def split: if_splits)

lemma scatter_error: "scatter iov data m x = Inl e \<Longrightarrow> \<not> free_error e"
  by (induction iov data m x rule: scatter.induct) (auto simp: res_bind_Inl_iff dest: mem_error)

lemma Append_error: "Append xs b = Inl e \<Longrightarrow> \<not> free_error e"
  by (auto simp: Append_def EnsureWritableSpace_def ReserveWritableSpace_def vector_resize_def free_error_def
      mem_write_def mem_read_def Let_def res_bind_Inl_iff split: if_splits)

lemma fill_input_error: "fill_input ctx has_buffer data n w = Inl e \<Longrightarrow> \<not> free_error e"
  by (auto simp: fill_input_def Let_def res_bind_Inl_iff
      dest: mem_error scatter_error Append_error split: if_splits option.splits)


section \<open>The completion of a write\<close>

text \<open>What \<open>OnWriteComplete\<close> does before it deletes the context.\<close>

definition write_outcome :: "uring_env \<Rightarrow> conn_user \<Rightarrow> WriteContext \<Rightarrow> int \<Rightarrow> connecting \<Rightarrow> connecting res" where
  "write_outcome env u ctx r w =
     (if 0 < r then
        let w2 = take_sent ctx (nat r) w
        in if 0 < GetReadableBytes (output_buffer w2) then Inr (SubmitWriteOnce env w2)
           else if 0 < GetReadableBytes (pending_output_buffer w2) then Inr (SubmitWriteOnce env (swap_pending w2))
           else drained u w2
      else if transient (- r) then Inr (SubmitWriteOnce env w) else Inr w)"

lemma OnWriteComplete_outcome:
  assumes "op_context op = Some a" and "contexts w a = Some (WCtx ctx)"
  shows "\<exists>b. OnWriteComplete env u c op w =
    res_bind (write_outcome env u ctx (cqe_res c) (w\<lparr>write_in_flight := False\<rparr>)) (end_write a b op)"
proof -
  have neg: "transient (if r < 0 then - r else 0) = transient (- r)" if "\<not> 0 < r" for r :: int
    using that by (cases "r = 0") simp_all
  show ?thesis
    using assms neg by (auto simp: OnWriteComplete_def write_outcome_def Let_def DoWithError_def)
qed

lemma OnWriteComplete_Inr:
  assumes "op_context op = Some a" and "contexts w a = Some (WCtx ctx)"
    and "OnWriteComplete env u c op w = Inr (op', w')"
  obtains b w3 where "write_outcome env u ctx (cqe_res c) (w\<lparr>write_in_flight := False\<rparr>) = Inr w3"
    "end_write a b op w3 = Inr (op', w')"
proof -
  obtain b where "OnWriteComplete env u c op w =
      res_bind (write_outcome env u ctx (cqe_res c) (w\<lparr>write_in_flight := False\<rparr>)) (end_write a b op)"
    using OnWriteComplete_outcome [OF assms(1,2)] by blast
  then have "res_bind (write_outcome env u ctx (cqe_res c) (w\<lparr>write_in_flight := False\<rparr>)) (end_write a b op) =
      Inr (op', w')" using assms(3) by simp
  then show thesis using that by (auto simp: res_bind_Inr_iff)
qed

lemma OnWriteComplete_context:
  assumes "OnWriteComplete env u c op w = Inr r"
  shows "\<exists>a ctx. op_context op = Some a \<and> contexts w a = Some (WCtx ctx)"
  using assms by (auto simp: OnWriteComplete_def split: option.splits io_ctx.splits)

lemma sent_ok:
  assumes ok: "conn_ok A w" and idle: "\<not> write_in_flight w" and ctx: "write_ctx_ok w (WCtx ctx)"
    and n: "n \<le> length (contents (output_buffer w))"
  shows "conn_ok A (take_sent ctx n w)" "balanced w \<Longrightarrow> balanced (take_sent ctx n w)"
    "contents (output_buffer (take_sent ctx n w)) = drop n (contents (output_buffer w))"
proof -
  let ?b = "output_buffer w"
  note b = conn_okD(6) [OF ok]
  have r: "io_buffer_ok (Refresh n ?b)" "contents (Refresh n ?b) = drop n (contents ?b)"
    using Refresh_ok [OF b] contents_Refresh [OF b] by simp_all
  show "contents (output_buffer (take_sent ctx n w)) = drop n (contents ?b)"
    by (simp add: take_sent_def r)
  show "conn_ok A (take_sent ctx n w)"
    unfolding take_sent_def by (rule conn_ok_output) (use ok idle r(1) in \<open>simp_all add: quiet_simps\<close>)
  have "n \<le> writing_index ?b - reading_index ?b" using n by (simp add: contents_def)
  then have "take n (drop (fst (wc_iov ctx)) (buffer ?b)) = take n (contents ?b)"
    using ctx by (simp add: write_ctx_ok_def contents_def min_def)
  then show "balanced w \<Longrightarrow> balanced (take_sent ctx n w)"
    by (simp add: balanced_def take_sent_def r)
qed

lemma swap_ok:
  assumes ok: "conn_ok A w" and idle: "\<not> write_in_flight w"
  shows "conn_ok A (swap_pending w)"
    "contents (output_buffer w) = [] \<Longrightarrow> balanced w \<Longrightarrow> balanced (swap_pending w)"
    "output_buffer (swap_pending w) = pending_output_buffer w" "conn_state (swap_pending w) = conn_state w"
proof -
  have e: "swap_pending w = w\<lparr>output_buffer := pending_output_buffer w\<rparr>\<lparr>pending_output_buffer := output_buffer w\<rparr>"
    by (simp add: swap_pending_def Swap_def)
  show "conn_ok A (swap_pending w)" unfolding e
    using conn_ok_pending [OF conn_ok_output [OF ok idle conn_okD(7) [OF ok]] conn_okD(6) [OF ok]] by simp
  show "contents (output_buffer w) = [] \<Longrightarrow> balanced w \<Longrightarrow> balanced (swap_pending w)"
    by (simp add: e balanced_def)
qed (simp_all add: swap_pending_def Swap_def)

lemma conn_step_keeps:
  assumes "conn_step env w w'" and "key_count (ev_poller w)" and "few_calls (ev_poller w')" and "conn_ok A w"
  shows "conn_ok A w'"
  using assms by (simp add: conn_step_def keeps_prop_def)

lemma take_sent_poll: "poll_step env w (take_sent ctx n w)" "heap_grows w (take_sent ctx n w)"
  by (rule poll_step_local) (simp_all add: take_sent_def held_keys_def heap_grows_def)

lemma swap_pending_poll: "poll_step env w (swap_pending w)" "heap_grows w (swap_pending w)"
  by (rule poll_step_local) (simp_all add: swap_pending_def Swap_def held_keys_def heap_grows_def)

context connection_user
begin

lemma drained_user:
  assumes "drained u w = Inr w'"
  shows "user_step env w w'"
proof -
  obtain w1 where w1: "call_opt (WriteCompleteCallback u) w = Inr w1"
    "w' = w1 \<or> w' = emit SocketShutdownWrite w1"
    using assms by (auto simp: drained_def res_bind_Inr_iff split: if_splits)
  have "user_step env w1 (emit SocketShutdownWrite w1)"
    by (rule user_step_output [OF conn_step_quiet(4)]) (simp_all add: emit_def)
  then show ?thesis using call_user(2) [OF w1(1)] w1(2) user_step_trans by auto
qed

lemma drained_error: "drained u w = Inl e \<Longrightarrow> \<not> free_error e"
  using call_user_error(2) by (auto simp: drained_def res_bind_Inl_iff)

lemma write_outcome_poll:
  assumes "write_outcome env u ctx r w = Inr w'"
  shows "poll_step env w w' \<and> heap_grows w w'"
proof -
  let ?ok = "\<lambda>v w. poll_step env v w \<and> heap_grows v w"
  have tr: "?ok v x" if "?ok v w" "?ok w x" for v w x
    using that poll_step_trans heap_grows_trans by blast
  have sub: "?ok v (SubmitWriteOnce env v)" for v
    using SubmitWriteOnce_step [of env v] by (simp add: conn_step_def)
  have dr: "?ok v w'" if "drained u v = Inr w'" for v
    using drained_user [OF that] by (simp add: user_step_def conn_step_def)
  have sent: "?ok w (take_sent ctx n w)" for n by (simp add: take_sent_poll)
  have swap: "?ok v (SubmitWriteOnce env (swap_pending v))" for v
    using tr [OF _ sub [of "swap_pending v"], of v] by (simp add: swap_pending_poll)
  show ?thesis
    using assms sub dr tr [OF sent sub] tr [OF sent dr] tr [OF sent swap]
    by (auto simp: write_outcome_def Let_def heap_grows_def split: if_splits)
qed

lemma write_outcome_error: "write_outcome env u ctx r w = Inl e \<Longrightarrow> \<not> free_error e"
  using drained_error by (auto simp: write_outcome_def Let_def split: if_splits)

lemma write_outcome_ok:
  assumes w': "write_outcome env u ctx r w = Inr w'" and ok: "conn_ok A w" and idle: "\<not> write_in_flight w"
    and ctx: "write_ctx_ok w (WCtx ctx)" and n: "nat r \<le> length (contents (output_buffer w))"
    and keys: "key_count (ev_poller w)" "few_calls (ev_poller w')"
  shows "conn_ok A w'"
    "\<forall>n. get_sqe env n \<Longrightarrow> balanced w \<Longrightarrow> 0 < r \<or> transient (- r) \<Longrightarrow> stream_ok w'"
proof -
  let ?w2 = "take_sent ctx (nat r) w"
  note sent = sent_ok [OF ok idle ctx n]
  have same: "ev_poller ?w2 = ev_poller w" "\<not> write_in_flight ?w2" using idle by (simp_all add: take_sent_def)
  note swap = swap_ok [OF sent(1) same(2)]
  have swapped: "ev_poller (swap_pending ?w2) = ev_poller w" by (simp add: swap_pending_def Swap_def same)
  note d = conn_okD [OF sent(1)]
  have cont: "contents (output_buffer ?w2) = [] \<longleftrightarrow> GetReadableBytes (output_buffer ?w2) = 0"
    "contents (pending_output_buffer ?w2) = [] \<longleftrightarrow> GetReadableBytes (pending_output_buffer ?w2) = 0"
    using GetReadableBytes_contents d by simp_all
  consider (partial) "0 < r" "contents (output_buffer ?w2) \<noteq> []" "w' = SubmitWriteOnce env ?w2"
    | (pending) "0 < r" "contents (output_buffer ?w2) = []" "contents (pending_output_buffer ?w2) \<noteq> []"
        "w' = SubmitWriteOnce env (swap_pending ?w2)"
    | (empty) "0 < r" "contents (output_buffer ?w2) = []" "contents (pending_output_buffer ?w2) = []"
        "drained u ?w2 = Inr w'"
    | (retry) "\<not> 0 < r" "transient (- r)" "w' = SubmitWriteOnce env w"
    | (error) "\<not> 0 < r" "\<not> transient (- r)" "w' = w"
    using w' cont by (auto simp: write_outcome_def Let_def split: if_splits)
  then have "conn_ok A w' \<and>
    ((\<forall>n. get_sqe env n) \<longrightarrow> balanced w \<longrightarrow> 0 < r \<or> transient (- r) \<longrightarrow> stream_ok w')"
  proof cases
    case partial
    have "conn_ok A w'"
      using conn_step_keeps [OF SubmitWriteOnce_step _ _ sent(1)] keys same(1) partial(3) by simp
    then show ?thesis using SubmitWriteOnce_stream [OF sent(1)] sent(2) partial by simp
  next
    case pending
    have "conn_ok A w'"
      using conn_step_keeps [OF SubmitWriteOnce_step _ _ swap(1)] keys swapped pending(4) by simp
    then show ?thesis
      using SubmitWriteOnce_stream [OF swap(1)] swap(2,3) sent(2) pending by simp
  next
    case empty
    have step: "keeps_prop (conn_ok A) ?w2 w'" "keeps_prop (conn_stream env A) ?w2 w'"
      using drained_user [OF empty(4)] by (simp_all add: user_step_def conn_step_def)
    have "balanced w \<Longrightarrow> stream_ok ?w2" using sent(2) empty by (simp add: stream_ok_def)
    then show ?thesis using step sent(1) keys same(1) by (auto simp: keeps_prop_def conn_stream_def)
  next
    case retry
    have "conn_ok A w'"
      using conn_step_keeps [OF SubmitWriteOnce_step _ _ ok] keys retry(3) by simp
    then show ?thesis
      using SubmitWriteOnce_stream [OF ok] ctx retry by (simp add: write_ctx_ok_def)
  next
    case error
    then show ?thesis using ok by simp
  qed
  then show "conn_ok A w'"
    "\<forall>n. get_sqe env n \<Longrightarrow> balanced w \<Longrightarrow> 0 < r \<or> transient (- r) \<Longrightarrow> stream_ok w'" by simp_all
qed

end


section \<open>The completion of a read\<close>

lemma fill_input_poll:
  assumes "fill_input ctx has_buffer data n w = Inr w'"
  shows "poll_step env w w'" "heap_grows w w'" "read_in_flight w' = read_in_flight w"
proof -
  obtain b where b: "w' = w\<lparr>input_buffer := b\<rparr>" using fill_input_local [OF assms] by blast
  show "poll_step env w w'" by (rule poll_step_local) (simp_all add: b held_keys_def)
  show "heap_grows w w'" "read_in_flight w' = read_in_flight w" by (simp_all add: b heap_grows_def)
qed

lemma fill_input_user:
  assumes r: "fill_input ctx has_buffer data n w = Inr w'" and ctx: "read_ctx_ok w (RCtx ctx)"
    and idle: "\<not> read_in_flight w" and data: "length data = n" "0 < n" "n \<le> read_capacity w"
  shows "user_step env w w'"
proof -
  obtain b where b: "w' = w\<lparr>input_buffer := b\<rparr>" using fill_input_local [OF r] by blast
  have "conn_ok A w'" if "conn_ok A w" for A
    using fill_input_Inr [OF conn_okD(5) [OF that] ctx data r] conn_ok_input [OF that idle] by auto
  then have "conn_step env w w'"
    by (rule conn_step_local [rotated 4]) (simp_all add: b held_keys_def)
  then show ?thesis by (rule user_step_output) (simp_all add: b)
qed

text \<open>A read that the kernel answers: it delivers as many bytes as it says, and they fit.\<close>

definition delivered :: "connecting \<Rightarrow> int \<Rightarrow> byte list \<Rightarrow> bool" where
  "delivered w r data \<longleftrightarrow> (0 < r \<longrightarrow> length data = nat r \<and> nat r \<le> read_capacity w)"

context connection_user
begin

lemma read_outcome_poll:
  assumes "read_outcome env u ctx c data w = Inr w'"
  shows "poll_step env w w' \<and> heap_grows w w'"
proof -
  have closing: "poll_step env w w' \<and> heap_grows w w'" if "DoClosing env u w = Inr w'"
    using DoClosing_user [OF that] by (simp add: user_step_def conn_step_def)
  have sub: "poll_step env v (SubmitReadOnce env v) \<and> heap_grows v (SubmitReadOnce env v)" for v
    using SubmitReadOnce_step [OF single, of v] by (simp add: conn_step_def)
  have received: "poll_step env w w' \<and> heap_grows w w'"
    if f: "fill_input ctx h data n w = Inr w2" and m: "call_opt (OnMessageCallback u) w2 = Inr w3"
      and w': "w' = SubmitReadOnce env w3 \<or> w' = w3" for h n w2 w3
  proof -
    have a: "poll_step env w w3" "heap_grows w w3"
      using fill_input_poll [OF f] message_user [OF m] poll_step_trans heap_grows_trans by blast+
    then show ?thesis
      using w' sub [of w3] poll_step_trans heap_grows_trans by blast
  qed
  consider (got) w2 w3 where "fill_input ctx (cqe_has_buffer c) data (nat (cqe_res c)) w = Inr w2"
      "call_opt (OnMessageCallback u) w2 = Inr w3" "w' = SubmitReadOnce env w3 \<or> w' = w3"
    | (closing) "DoClosing env u w = Inr w'" | (sub) "w' = SubmitReadOnce env w" | (same) "w' = w"
    using assms by (auto simp: read_outcome_def Let_def res_bind_Inr_iff DoWithError_def split: if_splits)
  then show ?thesis
  proof cases
    case (got w2 w3)
    then show ?thesis by (rule received)
  next
    case same
    then show ?thesis by (simp add: heap_grows_def)
  qed (simp_all add: closing sub)
qed

lemma read_outcome_error: "read_outcome env u ctx c data w = Inl e \<Longrightarrow> \<not> free_error e"
  using DoClosing_error message_error fill_input_error
  by (auto simp: read_outcome_def Let_def res_bind_Inl_iff DoWithError_def split: if_splits)

lemma read_outcome_user:
  assumes r: "read_outcome env u ctx c data w = Inr w'" and idle: "\<not> read_in_flight w"
    and ctx: "read_ctx_ok w (RCtx ctx)" and data: "delivered w (cqe_res c) data"
  shows "user_step env w w'"
proof (cases "0 < cqe_res c")
  case True
  then have d: "length data = nat (cqe_res c)" "0 < nat (cqe_res c)" "nat (cqe_res c) \<le> read_capacity w"
    using data by (simp_all add: delivered_def)
  obtain w2 w3 where s: "fill_input ctx (cqe_has_buffer c) data (nat (cqe_res c)) w = Inr w2"
    "call_opt (OnMessageCallback u) w2 = Inr w3" "w' = SubmitReadOnce env w3 \<or> w' = w3"
    using r True by (auto simp: read_outcome_def Let_def res_bind_Inr_iff split: if_splits)
  have "user_step env w w2" by (rule fill_input_user [OF s(1) ctx idle d])
  moreover have "user_step env w2 w3"
    using message_user(3) [OF s(2)] fill_input_poll(3) [OF s(1)] idle by simp
  moreover have "user_step env w3 w'" using s(3) SubmitReadOnce_user [OF single] by auto
  ultimately show ?thesis using user_step_trans by blast
next
  case False
  then consider "DoClosing env u w = Inr w'" | "w' = SubmitReadOnce env w" | "w' = w"
    using r by (auto simp: read_outcome_def Let_def DoWithError_def split: if_splits)
  then show ?thesis by cases (use DoClosing_user SubmitReadOnce_user [OF single] in auto)
qed

end


section \<open>The completion functions\<close>

lemma delete_poll:
  assumes "delete_context a w = Inr w'"
  shows "poll_step env w w'" and "w' = w\<lparr>contexts := (contexts w)(a := None)\<rparr>"
proof -
  show w': "w' = w\<lparr>contexts := (contexts w)(a := None)\<rparr>"
    using assms by (auto simp: delete_context_def split: option.splits)
  show "poll_step env w w'" by (rule poll_step_local) (simp_all add: w' held_keys_def)
qed

lemma conn_ok_delete:
  assumes ok: "conn_ok A w" and a: "a \<in> A"
  shows "conn_ok (A - {a}) (w\<lparr>contexts := (contexts w)(a := None)\<rparr>)"
proof -
  note own = conn_okD(4) [OF ok]
  have "b \<noteq> a" if "ops (ev_poller w) k = Some op" "op_context op = Some b" for k op b
  proof -
    have "b \<in> ran (cref (ops (ev_poller w)))" using that by (auto simp: cref_def ran_def intro!: exI [of _ k])
    then show ?thesis using own a by (auto simp: owns_def)
  qed
  then have "in_flight_ok (w\<lparr>contexts := (contexts w)(a := None)\<rparr>)"
    using ok by (fastforce simp: conn_ok_def in_flight_ok_def op_ok_def quiet_simps)
  then show ?thesis using ok owns_delete [OF own a] by (simp add: conn_ok_def buffers_ok_def)
qed

text \<open>No operation with completion function \<open>fn\<close> is recorded.\<close>

definition none_left :: "io_fn \<Rightarrow> connecting \<Rightarrow> bool" where
  "none_left fn w \<longleftrightarrow> (\<forall>k op. ops (ev_poller w) k = Some op \<longrightarrow> op_completion op \<noteq> Some fn)"

lemma conn_ok_idle:
  assumes "conn_ok A w"
  shows "none_left ReadDoneFn w \<Longrightarrow> conn_ok A (w\<lparr>read_in_flight := False\<rparr>)"
    and "none_left WriteDoneFn w \<Longrightarrow> conn_ok A (w\<lparr>write_in_flight := False\<rparr>)"
  using assms by (auto simp: conn_ok_def buffers_ok_def in_flight_ok_def op_ok_def none_left_def quiet_simps)

lemma OnReadComplete_single:
  assumes "op_context op = Some a" and "contexts w a = Some (RCtx ctx)" and "\<not> rc_multishot ctx" and "\<not> cqe_more c"
  shows "OnReadComplete env u c data op w =
    res_bind (read_outcome env u ctx c data (w\<lparr>read_in_flight := False\<rparr>)) (end_write a True op)"
proof -
  have same: "(contexts w)(a \<mapsto> RCtx ctx) = contexts w" using assms(2) by auto
  have "end_write a True op = (\<lambda>w4. res_bind (delete_context a w4) (\<lambda>w5. Inr (op\<lparr>op_context := None\<rparr>, w5)))"
    by (simp add: end_write_def fun_eq_iff)
  then show ?thesis using assms by (simp add: OnReadComplete_def Let_def same)
qed

lemma end_write_Inr:
  assumes "end_write a b op w = Inr (op', w')"
  shows "w' = w\<lparr>contexts := (contexts w)(a := None)\<rparr>" "op' = op\<lparr>op_context := None\<rparr> \<or> op' = op"
    "poll_step env w w'"
  using assms delete_poll by (auto simp: end_write_def res_bind_Inr_iff)

lemma end_write_error: "contexts w a \<noteq> None \<Longrightarrow> end_write a b op w \<noteq> Inl e"
  by (auto simp: end_write_def res_bind_Inl_iff delete_context_def split: option.splits)

lemma heap_kept: "heap_grows w w' \<Longrightarrow> a < next_context w \<Longrightarrow> contexts w' a = contexts w a"
  by (simp add: heap_grows_def)

lemma in_hand_old:
  assumes "conn_ok A w" and "a \<in> A"
  shows "a < next_context w" "contexts w a \<noteq> None"
  using conn_okD(4) [OF assms(1)] assms(2) by (auto simp: owns_def)

context connection_user
begin

lemma OnReadComplete_poll:
  assumes "OnReadComplete env u c data op w = Inr (op', w')"
  shows "poll_step env w w' \<and> (\<exists>x. op' = op\<lparr>op_context := x\<rparr>)"
proof -
  have same: "\<exists>x. op = op\<lparr>op_context := x\<rparr>" by (rule exI [of _ "op_context op"]) simp
  have local: "poll_step env w (w\<lparr>contexts := cs\<rparr>)"
    "poll_step env w (w\<lparr>contexts := cs, read_in_flight := b\<rparr>)" for w cs b
    by (rule poll_step_local; simp add: held_keys_def)+
  have step: "poll_step env w w'"
    if "read_outcome env u ctx c data v = Inr w4" "poll_step env w v" "w' = w4 \<or> delete_context a w4 = Inr w'"
    for ctx v w4 a
    using that read_outcome_poll [OF that(1)] delete_poll(1) poll_step_trans step_refl(1) by metis
  have del: "poll_step env w w'" if "poll_step env w v" "delete_context a v = Inr w'" for v a
    by (rule poll_step_trans [OF that(1) delete_poll(1) [OF that(2)]])
  show ?thesis
    using assms same
    by (auto simp: OnReadComplete_def Let_def res_bind_Inr_iff split: option.splits io_ctx.splits if_splits
        intro: step [OF _ local(1)] step [OF _ local(2)] del [OF local(2)])
qed

lemma OnWriteComplete_poll:
  assumes "OnWriteComplete env u c op w = Inr (op', w')"
  shows "poll_step env w w' \<and> (\<exists>x. op' = op\<lparr>op_context := x\<rparr>)"
proof -
  obtain a ctx where a: "op_context op = Some a" "contexts w a = Some (WCtx ctx)"
    using OnWriteComplete_context [OF assms] by blast
  obtain b w3 where w3: "write_outcome env u ctx (cqe_res c) (w\<lparr>write_in_flight := False\<rparr>) = Inr w3"
    "end_write a b op w3 = Inr (op', w')"
    by (rule OnWriteComplete_Inr [OF a assms])
  have "poll_step env w (w\<lparr>write_in_flight := False\<rparr>)" by (rule poll_step_local) (simp_all add: held_keys_def)
  then have "poll_step env w w'"
    using write_outcome_poll [OF w3(1)] end_write_Inr(3) [OF w3(2)] poll_step_trans by blast
  moreover have "op = op\<lparr>op_context := op_context op\<rparr>" by simp
  then have "\<exists>x. op' = op\<lparr>op_context := x\<rparr>" using end_write_Inr(2) [OF w3(2)] by metis
  ultimately show ?thesis by simp
qed

lemma completions_keep_contract: "callbacks_ok env held_keys (conn_complete env u data)"
  unfolding callbacks_ok_def
proof (intro allI impI)
  fix fn c op p w op' p' w'
  assume call: "conn_complete env u data fn c op p w = (op', p', w')"
  let ?w = "w\<lparr>ev_poller := p\<rparr>"
  let ?r = "case fn of ReadDoneFn \<Rightarrow> OnReadComplete env u c data op ?w | WriteDoneFn \<Rightarrow> OnWriteComplete env u c op ?w"
  have "poll_step env ?w (w'\<lparr>ev_poller := p'\<rparr>) \<and> (\<exists>x. op' = op\<lparr>op_context := x\<rparr>)"
  proof (cases ?r)
    case (Inl e)
    then have "op' = op \<and> p' = p \<and> w' = w\<lparr>crashed := Some e\<rparr>" using call by (simp add: conn_complete_def)
    then show ?thesis by (auto intro!: poll_step_local exI [of _ "op_context op"] simp: held_keys_def)
  next
    case (Inr r)
    obtain op1 w1 where r: "r = (op1, w1)" by fastforce
    then have e: "op' = op1" "p' = ev_poller w1" "w' = w1\<lparr>crashed := None\<rparr>" using call Inr by (auto simp: conn_complete_def)
    have "poll_step env ?w w1 \<and> (\<exists>x. op1 = op\<lparr>op_context := x\<rparr>)"
      using Inr r OnReadComplete_poll OnWriteComplete_poll by (cases fn) auto
    then show ?thesis by (simp add: e poll_step_def safe_held_def held_keys_def)
  qed
  then show "counts p p' \<and> (key_count p \<longrightarrow> few_calls p' \<longrightarrow> (\<forall>k\<in>held_keys w. safe_key p k) \<longrightarrow>
      (poller_api env)\<^sup>*\<^sup>* p p' \<and> (\<exists>x. op' = op\<lparr>op_context := x\<rparr>) \<and> (\<forall>k\<in>held_keys w'. safe_key p' k))"
    by (simp add: poll_step_def safe_held_def held_keys_def)
qed

lemma OnReadComplete_ok:
  assumes ok: "conn_ok A w" and a: "a \<in> A" "op_context op = Some a" "contexts w a = Some (RCtx ctx)"
    and ctx: "read_ctx_ok w (RCtx ctx)" and left: "none_left ReadDoneFn w"
    and c: "\<not> cqe_more c" "delivered w (cqe_res c) data"
    and r: "OnReadComplete env u c data op w = Inr (op', w')"
    and keys: "key_count (ev_poller w)" "few_calls (ev_poller w')"
  shows "conn_ok (A - {a}) w'" "\<forall>n. get_sqe env n \<Longrightarrow> stream_ok w \<Longrightarrow> stream_ok w'"
proof -
  let ?w = "w\<lparr>read_in_flight := False\<rparr>"
  have m: "\<not> rc_multishot ctx" using ctx by (simp add: read_ctx_ok_def)
  obtain w4 where w4: "read_outcome env u ctx c data ?w = Inr w4" "end_write a True op w4 = Inr (op', w')"
    using r [unfolded OnReadComplete_single [OF a(2,3) m c(1)]] by (auto simp: res_bind_Inr_iff)
  have "read_capacity ?w = read_capacity w" by (simp add: read_capacity_def read_iov_def)
  then have d: "delivered ?w (cqe_res c) data" using c(2) by (simp add: delivered_def)
  have step: "user_step env ?w w4"
    by (rule read_outcome_user [OF w4(1) _ _ d]) (use ctx in \<open>simp_all add: quiet_simps\<close>)
  have ok1: "conn_ok A ?w" by (rule conn_ok_idle(1) [OF ok left])
  note del = end_write_Inr(1) [OF w4(2)]
  have k: "key_count (ev_poller ?w)" "few_calls (ev_poller w4)" using keys by (simp_all add: del)
  have "conn_ok A w4" by (rule conn_step_keeps [OF conn_step_user [OF step] k ok1])
  then show "conn_ok (A - {a}) w'" unfolding del by (rule conn_ok_delete [OF _ a(1)])
  assume "\<forall>n. get_sqe env n" and "stream_ok w"
  then have "conn_stream env A ?w" using ok1 by (simp add: conn_stream_def stream_ok_def balanced_def)
  then have "stream_ok w4" using step k by (auto simp: user_step_def keeps_prop_def conn_stream_def)
  then show "stream_ok w'" by (simp add: del stream_ok_def balanced_def)
qed

lemma OnReadComplete_error:
  assumes ok: "conn_ok A w" and a: "a \<in> A" "op_context op = Some a" "contexts w a = Some (RCtx ctx)"
    and ctx: "read_ctx_ok w (RCtx ctx)" and c: "\<not> cqe_more c"
    and r: "OnReadComplete env u c data op w = Inl e"
  shows "\<not> free_error e"
proof -
  let ?w = "w\<lparr>read_in_flight := False\<rparr>"
  have m: "\<not> rc_multishot ctx" using ctx by (simp add: read_ctx_ok_def)
  consider "read_outcome env u ctx c data ?w = Inl e"
    | w4 where "read_outcome env u ctx c data ?w = Inr w4" "end_write a True op w4 = Inl e"
    using r [unfolded OnReadComplete_single [OF a(2,3) m c]] by (auto simp: res_bind_Inl_iff)
  then show ?thesis
  proof cases
    case 1
    then show ?thesis by (rule read_outcome_error)
  next
    case (2 w4)
    have "contexts w4 a = contexts ?w a"
      using heap_kept [of ?w w4 a] read_outcome_poll [OF 2(1)] in_hand_old(1) [OF ok a(1)] by simp
    then show ?thesis using end_write_error 2(2) a(3) by simp
  qed
qed

lemma OnWriteComplete_ok:
  assumes ok: "conn_ok A w" and a: "a \<in> A" "op_context op = Some a" "contexts w a = Some (WCtx ctx)"
    and ctx: "write_ctx_ok w (WCtx ctx)" and left: "none_left WriteDoneFn w"
    and n: "nat (cqe_res c) \<le> length (contents (output_buffer w))"
    and r: "OnWriteComplete env u c op w = Inr (op', w')"
    and keys: "key_count (ev_poller w)" "few_calls (ev_poller w')"
  shows "conn_ok (A - {a}) w'"
    "\<forall>n. get_sqe env n \<Longrightarrow> stream_ok w \<Longrightarrow> 0 < cqe_res c \<or> transient (- cqe_res c) \<Longrightarrow> stream_ok w'"
proof -
  let ?w = "w\<lparr>write_in_flight := False\<rparr>"
  obtain b w3 where w3: "write_outcome env u ctx (cqe_res c) ?w = Inr w3" "end_write a b op w3 = Inr (op', w')"
    by (rule OnWriteComplete_Inr [OF a(2,3) r])
  note del = end_write_Inr(1) [OF w3(2)]
  have ok1: "conn_ok A ?w" by (rule conn_ok_idle(2) [OF ok left])
  have ctx1: "write_ctx_ok ?w (WCtx ctx)" using ctx by (simp add: quiet_simps)
  have fit: "\<not> write_in_flight ?w" "nat (cqe_res c) \<le> length (contents (output_buffer ?w))"
    "key_count (ev_poller ?w)" "few_calls (ev_poller w3)"
    using n keys by (simp_all add: del)
  note out = write_outcome_ok [OF w3(1) ok1 fit(1) ctx1 fit(2-4)]
  show "conn_ok (A - {a}) w'" unfolding del by (rule conn_ok_delete [OF out(1) a(1)])
  assume "\<forall>n. get_sqe env n" "stream_ok w" "0 < cqe_res c \<or> transient (- cqe_res c)"
  then have "stream_ok w3" using out(2) by (simp add: stream_ok_def balanced_def)
  then show "stream_ok w'" by (simp add: del stream_ok_def balanced_def)
qed

lemma OnWriteComplete_error:
  assumes ok: "conn_ok A w" and a: "a \<in> A" "op_context op = Some a" "contexts w a = Some (WCtx ctx)"
    and r: "OnWriteComplete env u c op w = Inl e"
  shows "\<not> free_error e"
proof -
  let ?w = "w\<lparr>write_in_flight := False\<rparr>"
  obtain b where b: "OnWriteComplete env u c op w =
      res_bind (write_outcome env u ctx (cqe_res c) ?w) (end_write a b op)"
    using OnWriteComplete_outcome [OF a(2,3)] by blast
  consider "write_outcome env u ctx (cqe_res c) ?w = Inl e"
    | w3 where "write_outcome env u ctx (cqe_res c) ?w = Inr w3" "end_write a b op w3 = Inl e"
    using r [unfolded b] by (auto simp: res_bind_Inl_iff)
  then show ?thesis
  proof cases
    case 1
    then show ?thesis by (rule write_outcome_error)
  next
    case (2 w3)
    have "contexts w3 a = contexts ?w a"
      using heap_kept [of ?w w3 a] write_outcome_poll [OF 2(1)] in_hand_old(1) [OF ok a(1)] by simp
    then show ?thesis using end_write_error 2(2) a(3) by simp
  qed
qed

end

end
