(* ===== verification/Connection_Run.thy ===== *)
theory Connection_Run
  imports Connection_Stream
begin

text \<open>
  Runs of a connection: what its user does, and the completions that the kernel delivers. The
  contexts on the heap are owned by outstanding operations, nothing is freed twice or used after it
  was freed, and the output bytes go out once and in order. The poller serves one connection, and
  the ring has no multishot receives.
\<close>

section \<open>A completion that reaches the poller\<close>

lemma conn_ok_poller:
  assumes "ops q = ops (ev_poller w)" and "next_key q = next_key (ev_poller w)"
  shows "conn_ok A (w\<lparr>ev_poller := q\<rparr>) = conn_ok A w"
  using assms by (simp add: conn_ok_def in_flight_ok_def op_ok_def buffers_ok_def quiet_simps)

lemma conn_ok_taken:
  assumes ok: "conn_ok A w" and op: "ops (ev_poller w) k = Some op"
  shows "conn_ok (A \<union> set_option (op_context op)) (w\<lparr>ev_poller := taken k (ev_poller w)\<rparr>)"
proof -
  have "in_flight_ok (w\<lparr>ev_poller := taken k (ev_poller w)\<rparr>)"
    using ok by (auto simp: conn_ok_def in_flight_ok_def op_ok_def quiet_simps split: if_splits)
  then show ?thesis
    using ok owns_take [OF conn_okD(4) [OF ok] op] by (auto simp: conn_ok_def buffers_ok_def keys_ok_def)
qed

lemma conn_ok_SubmitPoll:
  assumes ok: "conn_ok A w" and b: "next_key (ev_poller w) < key_bound"
  shows "conn_ok A (w\<lparr>ev_poller := SubmitPoll env e (ev_poller w)\<rparr>)"
proof -
  let ?p = "ev_poller w"
  note d = conn_okD [OF ok]
  show ?thesis
  proof (cases "\<exists>st. states ?p e = Some st \<and> mask st \<noteq> 0 \<and> \<not> armed st \<and> get_sqe env (sqe_calls ?p)")
    case True
    then obtain st where st: "states ?p e = Some st" "mask st \<noteq> 0" "\<not> armed st"
      "get_sqe env (sqe_calls ?p)" by blast
    note f = SubmitPoll_armed(2,3) [OF st(1-3) d(1) st(4)]
    let ?w = "w\<lparr>ev_poller := SubmitPoll env e ?p\<rparr>"
    have "in_flight_ok ?w"
      using ok by (auto simp: conn_ok_def in_flight_ok_def op_ok_def f quiet_simps mk_op_def)
    moreover have "owns A (ops (ev_poller ?w)) (contexts ?w) (next_context ?w)"
      using owns_poll [OF d(4,2)] by (simp add: f mk_op_def)
    moreover have "keys_ok (ops (ev_poller ?w)) (next_key (ev_poller ?w))"
      using ok b by (simp add: f keys_ok_new conn_ok_def)
    ultimately show ?thesis using ok by (simp add: conn_ok_def buffers_ok_def)
  next
    case False
    note f = SubmitPoll_idle(2,3) [OF d(1) False]
    let ?w = "w\<lparr>ev_poller := SubmitPoll env e ?p\<rparr>"
    have "keys_ok (ops (ev_poller ?w)) (next_key (ev_poller ?w))"
      using ok b f by (auto simp: conn_ok_def keys_ok_next)
    then show ?thesis
      using ok by (simp add: conn_ok_def in_flight_ok_def op_ok_def buffers_ok_def quiet_simps f(1))
  qed
qed

lemma conn_ok_dispatch:
  assumes ok: "conn_ok A w" and b: "next_key (ev_poller w) < key_bound" and single: "\<not> recv_multishot env"
  shows "conn_ok A (w\<lparr>ev_poller := snd (dispatch env c op (ev_poller w))\<rparr>)"
proof -
  let ?p = "ev_poller w"
  have poll: "conn_ok A (w\<lparr>ev_poller := SubmitPoll env e (?p\<lparr>states := s\<rparr>)\<rparr>)" for e s
    using conn_ok_SubmitPoll [of A "w\<lparr>ev_poller := ?p\<lparr>states := s\<rparr>\<rparr>" env e] conn_ok_poller [of "?p\<lparr>states := s\<rparr>" w A]
      ok b by simp
  have "ReleaseBufferFromCqe env c ?p = ?p" using single by (simp add: ReleaseBufferFromCqe_def)
  then show ?thesis
    using ok poll conn_ok_poller [of ?p w A]
    by (auto simp: dispatch_def split: OpType.splits option.splits)
qed

text \<open>What the kernel may answer: one completion per operation, with as many bytes as fit.\<close>

definition kernel_result :: "connecting \<Rightarrow> cqe \<Rightarrow> byte list \<Rightarrow> bool" where
  "kernel_result w c data \<longleftrightarrow> \<not> cqe_more c \<and>
     (case ops (ev_poller w) (user_data c) of
        None \<Rightarrow> True
      | Some op \<Rightarrow>
          (op_completion op = Some ReadDoneFn \<longrightarrow> delivered w (cqe_res c) data) \<and>
          (op_completion op = Some WriteDoneFn \<longrightarrow> nat (cqe_res c) \<le> length (contents (output_buffer w))))"

text \<open>The write that completes, if one does, wrote something or is to be tried again.\<close>

definition write_taken :: "connecting \<Rightarrow> cqe \<Rightarrow> bool" where
  "write_taken w c \<longleftrightarrow>
     (case ops (ev_poller w) (user_data c) of
        None \<Rightarrow> True
      | Some op \<Rightarrow> op_completion op = Some WriteDoneFn \<longrightarrow> 0 < cqe_res c \<or> transient (- cqe_res c))"

lemma conn_cqe_alive:
  assumes "crashed w = None"
  shows "conn_cqe env u c data w =
     (case crashed (cqe_world env (conn_complete env u data) c (ev_poller w) w) of
        Some e \<Rightarrow> Inl e
      | None \<Rightarrow> run_deleters
          (drop (length (deleted (ev_poller w))) (deleted (cqe_poller env (conn_complete env u data) c (ev_poller w) w)))
          ((cqe_world env (conn_complete env u data) c (ev_poller w) w)\<lparr>ev_poller :=
             cqe_poller env (conn_complete env u data) c (ev_poller w) w\<rparr>))"
proof -
  have "w\<lparr>crashed := None\<rparr> = w" using assms by simp
  then show ?thesis by (simp add: conn_cqe_def case_prod_beta)
qed

text \<open>
  The result of a completion: an error of the process other than those of \<open>new\<close> and
  \<open>delete\<close>, or a connection that keeps the invariants.
\<close>

definition cqe_sound :: "uring_env \<Rightarrow> connecting \<Rightarrow> cqe \<Rightarrow> connecting res \<Rightarrow> bool" where
  "cqe_sound env w c r =
     (case r of
        Inl e \<Rightarrow> \<not> free_error e
      | Inr w' \<Rightarrow> key_count (ev_poller w) \<longrightarrow> few_calls (ev_poller w') \<longrightarrow>
          conn_ok {} w' \<and> ((\<forall>n. get_sqe env n) \<longrightarrow> stream_ok w \<longrightarrow> write_taken w c \<longrightarrow> stream_ok w'))"

text \<open>A completion for which no function runs: at most, the context of the operation goes.\<close>

lemma run_owned:
  assumes ok: "conn_ok (set_option x) v"
    and q: "deleted (ev_poller v) = ds @ (case x of None \<Rightarrow> [] | Some a \<Rightarrow> [a])"
  shows "\<exists>cs. run_deleters (drop (length ds) (deleted (ev_poller v))) v = Inr (v\<lparr>contexts := cs\<rparr>) \<and>
    conn_ok {} (v\<lparr>contexts := cs\<rparr>)"
proof (cases x)
  case None
  then show ?thesis using ok q by (intro exI [of _ "contexts v"]) simp
next
  case (Some a)
  have "contexts v a \<noteq> None" using in_hand_old(2) [OF ok] Some by simp
  then have "run_deleters [a] v = Inr (v\<lparr>contexts := (contexts v)(a := None)\<rparr>)"
    by (auto simp: delete_context_def)
  then show ?thesis using conn_ok_delete [OF ok, of a] q Some by auto
qed

text \<open>At most one operation has a given completion function.\<close>

lemma op_ok_key:
  assumes "op_ok w k op" and "op_completion op = Some fn"
  shows "k = (case fn of ReadDoneFn \<Rightarrow> read_cancel_key w | WriteDoneFn \<Rightarrow> write_cancel_key w)"
  using assms by (cases fn) (auto simp: op_ok_def)

lemma op_ok_read:
  assumes "op_ok w k op" and "op_completion op = Some ReadDoneFn"
  obtains a ctx where "op_context op = Some a" "contexts w a = Some (RCtx ctx)" "read_ctx_ok w (RCtx ctx)"
proof -
  obtain a x where x: "op_context op = Some a" "contexts w a = Some x" "read_ctx_ok w x"
    using assms by (auto simp: op_ok_def)
  then show thesis using that by (cases x) (simp_all add: read_ctx_ok_def)
qed

lemma op_ok_write:
  assumes "op_ok w k op" and "op_completion op = Some WriteDoneFn"
  obtains a ctx where "op_context op = Some a" "contexts w a = Some (WCtx ctx)" "write_ctx_ok w (WCtx ctx)"
proof -
  obtain a x where x: "op_context op = Some a" "contexts w a = Some x" "write_ctx_ok w x"
    using assms by (auto simp: op_ok_def)
  then show thesis using that by (cases x) (simp_all add: write_ctx_ok_def)
qed

context connection_user
begin

lemma release: "ReleaseBufferFromCqe env c p = p"
  using single by (simp add: ReleaseBufferFromCqe_def)

text \<open>What a completion does when no completion function is called.\<close>

lemma conn_cqe_silent:
  assumes ok: "conn_ok {} w" and alive: "crashed w = None" and b: "next_key (ev_poller w) < key_bound"
    and op: "user_data c \<noteq> 0" "ops (ev_poller w) (user_data c) = Some op"
    and silent: "op_completion op = None \<or>
      cqe_poller env (conn_complete env u data) c (ev_poller w) w =
        ReleaseBufferFromCqe env c (snd (CleanupOpContext op (taken (user_data c) (ev_poller w)))) \<and>
      cqe_world env (conn_complete env u data) c (ev_poller w) w = w"
  shows "\<exists>q cs. conn_cqe env u c data w = Inr (w\<lparr>ev_poller := q, contexts := cs\<rparr>) \<and>
    conn_ok {} (w\<lparr>ev_poller := q, contexts := cs\<rparr>)"
proof -
  let ?p = "ev_poller w" and ?x = "op_context op"
  let ?t = "taken (user_data c) ?p"
  note own = conn_okD(4) [OF ok]
  have t: "conn_ok (set_option ?x) (w\<lparr>ev_poller := ?t\<rparr>)" using conn_ok_taken [OF ok op(2)] by simp
  have "\<exists>q. cqe_poller env (conn_complete env u data) c ?p w = q \<and> conn_ok (set_option ?x) (w\<lparr>ev_poller := q\<rparr>) \<and>
      deleted q = deleted ?p @ (case ?x of None \<Rightarrow> [] | Some a \<Rightarrow> [a]) \<and>
      cqe_world env (conn_complete env u data) c ?p w = w"
  proof (cases "op_completion op")
    case None
    let ?c = "cleaned op ?t"
    have cl: "conn_ok (set_option ?x) (w\<lparr>ev_poller := snd ?c\<rparr>)"
      using t conn_ok_poller [of "snd ?c" "w\<lparr>ev_poller := ?t\<rparr>"] by (simp add: cleaned_fields)
    then have "conn_ok (set_option ?x) (w\<lparr>ev_poller := snd (dispatch env c (fst ?c) (snd ?c))\<rparr>)"
      using conn_ok_dispatch [OF cl _ single] b by (simp add: cleaned_fields)
    moreover have "deleted (snd (dispatch env c (fst ?c) (snd ?c))) = deleted ?p @ (case ?x of None \<Rightarrow> [] | Some a \<Rightarrow> [a])"
      using dispatch_deleted [of "snd ?c"] conn_okD(1) [OF ok] cleaned_deleted(1) [OF own op(2), of ?t]
      by (simp add: cleaned_fields)
    ultimately show ?thesis
      using None by (cases rule: HandleCqe_cases [OF op, of env "conn_complete env u data" w]) simp_all
  next
    case (Some fn)
    let ?q = "snd (CleanupOpContext op ?t)"
    have "conn_ok (set_option ?x) (w\<lparr>ev_poller := ?q\<rparr>)"
      using t conn_ok_poller [of ?q "w\<lparr>ev_poller := ?t\<rparr>"] by (simp add: Cleanup_fields next_key_Cleanup)
    then show ?thesis
      using silent Some cleaned_deleted(2) [OF own op(2), of ?t] by (auto simp: release)
  qed
  then obtain q where q: "cqe_poller env (conn_complete env u data) c ?p w = q"
    "conn_ok (set_option ?x) (w\<lparr>ev_poller := q\<rparr>)" "deleted q = deleted ?p @ (case ?x of None \<Rightarrow> [] | Some a \<Rightarrow> [a])"
    "cqe_world env (conn_complete env u data) c ?p w = w" by blast
  show ?thesis
    using run_owned [OF q(2), of "deleted ?p"] q alive by (auto simp: conn_cqe_alive)
qed

text \<open>The completion function of an operation, called with the context of the operation in hand.\<close>

lemma completion_sound:
  assumes ok: "conn_ok {} w" and op: "ops (ev_poller w) (user_data c) = Some op" "op_completion op = Some fn"
    and kernel: "kernel_result w c data"
    and r: "r = (case fn of ReadDoneFn \<Rightarrow> OnReadComplete env u c data op (w\<lparr>ev_poller := taken (user_data c) (ev_poller w)\<rparr>)
      | WriteDoneFn \<Rightarrow> OnWriteComplete env u c op (w\<lparr>ev_poller := taken (user_data c) (ev_poller w)\<rparr>))"
  shows "cqe_sound env w c (map_sum id snd r)"
proof -
  let ?k = "user_data c" and ?t = "taken (user_data c) (ev_poller w)"
  let ?v = "w\<lparr>ev_poller := ?t\<rparr>"
  have opok: "op_ok w k op" if "ops (ev_poller w) k = Some op" for k op
    using ok that by (simp add: conn_ok_def in_flight_ok_def)
  have key: "k = user_data c" if "ops (ev_poller w) k = Some op'" "op_completion op' = Some fn" for k op'
    using op_ok_key [OF opok [OF that(1)] that(2)] op_ok_key [OF opok [OF op(1)] op(2)] by simp
  have left: "none_left fn ?v" using key by (auto simp: none_left_def split: if_splits)
  have more: "\<not> cqe_more c" using kernel by (simp add: kernel_result_def)
  have kc: "key_count (ev_poller ?v) = key_count (ev_poller w)" by simp
  have st: "stream_ok ?v = stream_ok w" by (simp add: stream_ok_def balanced_def)
  have cap: "read_capacity ?v = read_capacity w" by (simp add: read_capacity_def read_iov_def)
  show ?thesis
  proof (cases fn)
    case ReadDoneFn
    obtain a ctx where a: "op_context op = Some a" "contexts ?v a = Some (RCtx ctx)" "read_ctx_ok ?v (RCtx ctx)"
      using op_ok_read [OF opok [OF op(1)]] op(2) ReadDoneFn by (auto simp: quiet_simps)
    have v: "conn_ok {a} ?v" using conn_ok_taken [OF ok op(1)] a(1) by simp
    have del: "delivered ?v (cqe_res c) data"
      using kernel op ReadDoneFn by (simp add: kernel_result_def delivered_def cap)
    show ?thesis
    proof (cases r)
      case (Inl e)
      then show ?thesis
        using OnReadComplete_error [OF v _ a more] r ReadDoneFn by (simp add: cqe_sound_def)
    next
      case (Inr x)
      obtain op' w' where x: "x = (op', w')" by fastforce
      then have "OnReadComplete env u c data op ?v = Inr (op', w')" using r Inr ReadDoneFn by simp
      from OnReadComplete_ok [OF v _ a left [unfolded ReadDoneFn] more del this]
      show ?thesis by (simp add: cqe_sound_def Inr x kc st)
    qed
  next
    case WriteDoneFn
    obtain a ctx where a: "op_context op = Some a" "contexts ?v a = Some (WCtx ctx)" "write_ctx_ok ?v (WCtx ctx)"
      using op_ok_write [OF opok [OF op(1)]] op(2) WriteDoneFn by (auto simp: quiet_simps)
    have v: "conn_ok {a} ?v" using conn_ok_taken [OF ok op(1)] a(1) by simp
    have n: "nat (cqe_res c) \<le> length (contents (output_buffer ?v))"
      using kernel op WriteDoneFn by (simp add: kernel_result_def)
    show ?thesis
    proof (cases r)
      case (Inl e)
      then show ?thesis
        using OnWriteComplete_error [OF v _ a(1,2)] r WriteDoneFn by (simp add: cqe_sound_def)
    next
      case (Inr x)
      obtain op' w' where x: "x = (op', w')" by fastforce
      then have "OnWriteComplete env u c op ?v = Inr (op', w')" using r Inr WriteDoneFn by simp
      from OnWriteComplete_ok [OF v _ a left [unfolded WriteDoneFn] n this] op WriteDoneFn
      show ?thesis by (simp add: cqe_sound_def write_taken_def Inr x kc st)
    qed
  qed
qed

lemma conn_cqe_sound:
  assumes ok: "conn_ok {} w" and alive: "crashed w = None" and few: "few_calls (ev_poller w)" and keys: "key_count (ev_poller w)"
    and kernel: "kernel_result w c data"
  shows "cqe_sound env w c (conn_cqe env u c data w)"
proof (cases "user_data c = 0 \<or> ops (ev_poller w) (user_data c) = None")
  case True
  then have "conn_cqe env u c data w = Inr w"
    using alive by (simp add: conn_cqe_alive HandleCqe_unknown release)
  then show ?thesis using ok by (simp add: cqe_sound_def)
next
  case False
  then obtain op where op: "user_data c \<noteq> 0" "ops (ev_poller w) (user_data c) = Some op" by blast
  have b: "next_key (ev_poller w) < key_bound" by (rule few_bound(1) [OF keys few])
  have silent: ?thesis if "conn_cqe env u c data w = Inr (w\<lparr>ev_poller := q, contexts := cs\<rparr>)"
    "conn_ok {} (w\<lparr>ev_poller := q, contexts := cs\<rparr>)" for q cs
    using that by (simp add: cqe_sound_def stream_ok_def balanced_def)
  show ?thesis
  proof (cases rule: HandleCqe_cases [OF op, of env "conn_complete env u data" w])
    case 1
    from conn_cqe_silent [OF ok alive b op disjI1 [OF 1(1)], of data] show ?thesis using silent by blast
  next
    case (2 fn)
    from conn_cqe_silent [OF ok alive b op disjI2 [OF conjI [OF 2(3,2)]]] show ?thesis using silent by blast
  next
    case (3 fn op' p2)
    let ?t = "taken (user_data c) (ev_poller w)"
    let ?r = "case fn of ReadDoneFn \<Rightarrow> OnReadComplete env u c data op (w\<lparr>ev_poller := ?t\<rparr>)
      | WriteDoneFn \<Rightarrow> OnWriteComplete env u c op (w\<lparr>ev_poller := ?t\<rparr>)"
    let ?w1 = "cqe_world env (conn_complete env u data) c (ev_poller w) w"
    have p2: "cqe_poller env (conn_complete env u data) c (ev_poller w) w = p2"
      using 3(3) kernel by (simp add: release kernel_result_def)
    have sound: "cqe_sound env w c (map_sum id snd ?r)"
      by (rule completion_sound [OF ok op(2) 3(1) kernel refl])
    show ?thesis
    proof (cases ?r)
      case (Inl e)
      then have "conn_complete env u data fn c op ?t w = (op, ?t, w\<lparr>crashed := Some e\<rparr>)"
        unfolding conn_complete_def by simp
      then have "?w1 = w\<lparr>crashed := Some e\<rparr>" using 3(2) by simp
      then have "conn_cqe env u c data w = Inl e" by (simp add: conn_cqe_alive [OF alive])
      then show ?thesis using sound Inl by (simp add: cqe_sound_def)
    next
      case (Inr x)
      obtain op1 w1 where x: "x = (op1, w1)" by fastforce
      then have "conn_complete env u data fn c op ?t w = (op1, ev_poller w1, w1\<lparr>crashed := None\<rparr>)"
        using Inr unfolding conn_complete_def by simp
      then have e: "?w1 = w1\<lparr>crashed := None\<rparr>" "p2 = ev_poller w1" using 3(2) by simp_all
      have "poll_step env (w\<lparr>ev_poller := ?t\<rparr>) w1"
        using Inr x OnReadComplete_poll [of c data op "w\<lparr>ev_poller := ?t\<rparr>" op1 w1]
          OnWriteComplete_poll [of c op "w\<lparr>ev_poller := ?t\<rparr>" op1 w1] by (cases fn) simp_all
      then have "deleted p2 = deleted (ev_poller w)" by (simp add: poll_step_def e)
      then have "conn_cqe env u c data w = Inr (w1\<lparr>crashed := None\<rparr>)"
        by (simp add: conn_cqe_alive [OF alive] p2 e)
      then show ?thesis using sound Inr x by (simp add: cqe_sound_def quiet_simps stream_ok_def balanced_def)
    qed
  qed
qed

lemma OnEstablishing_user:
  assumes "OnEstablishing env u w = Inr w'"
  shows "user_step env w w'"
proof (cases "conn_state w = kConnecting")
  case True
  let ?w = "w\<lparr>conn_state := kConnected\<rparr>"
  obtain w1 where w1: "call_required (OnConnectionCallback u) ?w = Inr w1" "w' = SubmitReadOnce env w1"
    using assms True by (auto simp: OnEstablishing_def res_bind_Inr_iff)
  then have "call_opt (OnConnectionCallback u) ?w = Inr w1"
    by (auto simp: call_required_def call_opt_def split: option.splits)
  moreover have "user_step env w ?w"
    by (rule user_stepI [OF conn_step_quiet(1)]) (use True in \<open>simp add: stream_ok_def balanced_def\<close>)
  ultimately show ?thesis
    unfolding w1(2) using call_user(1) SubmitReadOnce_user [OF single] user_step_trans by blast
next
  case False
  then show ?thesis using assms by (simp add: OnEstablishing_def)
qed

lemma Send_poll:
  assumes sent: "Send env u msg w = Inr w'"
  shows "poll_step env w w' \<and> heap_grows w w'"
proof (cases "conn_state w = kConnected")
  case False
  then show ?thesis using sent by (auto simp: Send_def heap_grows_def split: if_splits)
next
  case True
  obtain w1 b where w1: "high_water u (length msg) w = Inr w1"
    "w' = accept_bytes msg (w1\<lparr>pending_output_buffer := b\<rparr>) \<or>
     w' = SubmitWriteOnce env (accept_bytes msg (w1\<lparr>output_buffer := b\<rparr>))"
    using sent True by (auto simp: Send_def res_bind_Inr_iff split: if_splits)
  have local: "poll_step env w1 (accept_bytes msg (w1\<lparr>pending_output_buffer := b\<rparr>))"
    "poll_step env w1 (accept_bytes msg (w1\<lparr>output_buffer := b\<rparr>))"
    by (rule poll_step_local; simp add: accept_bytes_def held_keys_def)+
  have heap: "heap_grows w1 (accept_bytes msg (w1\<lparr>pending_output_buffer := b\<rparr>))"
    "heap_grows w1 (accept_bytes msg (w1\<lparr>output_buffer := b\<rparr>))"
    by (simp_all add: accept_bytes_def heap_grows_def)
  have sub: "poll_step env v (SubmitWriteOnce env v)" "heap_grows v (SubmitWriteOnce env v)" for v
    using SubmitWriteOnce_step [of env v] by (simp_all add: conn_step_def)
  have "poll_step env w1 w' \<and> heap_grows w1 w'"
    using w1(2) local heap poll_step_trans [OF local(2) sub(1)] heap_grows_trans [OF heap(2) sub(2)] by auto
  moreover have "poll_step env w w1 \<and> heap_grows w w1"
    using high_water_user(1) [OF w1(1)] by (simp add: user_step_def conn_step_def)
  ultimately show ?thesis using poll_step_trans heap_grows_trans by blast
qed

lemma SubmitWriteOnce_user: "user_step env w (SubmitWriteOnce env w)"
proof (rule user_stepI [OF SubmitWriteOnce_step])
  fix A
  assume "\<forall>n. get_sqe env n" "conn_ok A w" "stream_ok w"
  then show "stream_ok (SubmitWriteOnce env w)"
    using SubmitWriteOnce_stream by (simp add: stream_ok_def [of w])
qed

lemma conn_callback_user: "conn_callback env u k w = Inr w' \<Longrightarrow> user_step env w w'"
  using DoClosing_user SubmitReadOnce_user [OF single] SubmitWriteOnce_user
  by (cases k) (auto simp: conn_callback_def DoReading_def DoWriting_def DoWithError_def split: if_splits)

lemma conn_cqe_counts:
  assumes "conn_cqe env u c data w = Inr w'"
  shows "counts (ev_poller w) (ev_poller w')"
proof -
  have run: "run_deleters ds v = Inr v' \<Longrightarrow> ev_poller v' = ev_poller v" for ds v v'
    using delete_poll(2) by (induction ds arbitrary: v) (fastforce simp: res_bind_Inr_iff)+
  have "ev_poller w' = cqe_poller env (conn_complete env u data) c (ev_poller w) (w\<lparr>crashed := None\<rparr>)"
    using assms run by (auto simp: conn_cqe_def case_prod_beta split: option.splits)
  then show ?thesis using HandleCqe_counts [OF completions_keep_contract] by simp
qed

end


section \<open>Runs\<close>

text \<open>
  A connection on a new poller, and what happens to it: its user calls an operation, its eventer a
  callback, or the poller hands on a completion. \<open>good\<close> restricts the completions.
\<close>

inductive conn_reach ::
  "uring_env \<Rightarrow> conn_user \<Rightarrow> (connecting \<Rightarrow> cqe \<Rightarrow> bool) \<Rightarrow> connecting \<Rightarrow> bool" for env u good where
  start: "Poller env var queue_init supported waited = Some p \<Longrightarrow> Connecting env p e water = Inr w \<Longrightarrow>
    conn_reach env u good w"
| establish: "conn_reach env u good w \<Longrightarrow> OnEstablishing env u w = Inr w' \<Longrightarrow> conn_reach env u good w'"
| send: "conn_reach env u good w \<Longrightarrow> length msg \<le> vector_max_size \<Longrightarrow> Send env u msg w = Inr w' \<Longrightarrow>
    conn_reach env u good w'"
| shutdown: "conn_reach env u good w \<Longrightarrow> conn_reach env u good (ShutDownWrite w)"
| close: "conn_reach env u good w \<Longrightarrow> ForceClose env u w = Inr w' \<Longrightarrow> conn_reach env u good w'"
| event: "conn_reach env u good w \<Longrightarrow> conn_callback env u k w = Inr w' \<Longrightarrow> conn_reach env u good w'"
| completion: "conn_reach env u good w \<Longrightarrow> kernel_result w c data \<Longrightarrow> good w c \<Longrightarrow>
    conn_cqe env u c data w = Inr w' \<Longrightarrow> conn_reach env u good w'"

lemma conn_start:
  assumes p: "Poller env var queue_init supported waited = Some p" and w: "Connecting env p e water = Inr w"
  shows "key_count (ev_poller w)" "conn_ok {} w" "stream_ok w"
proof -
  obtain b where b: "IoBuffer kInitialCapacity = Inr b" "io_buffer_ok b" "contents b = []"
    using IoBuffer_initial by blast
  note f = Poller_fields(2,3) [OF p]
  have e: "ev_poller w = AddEventer env e 0 p" "contexts w = Map.empty" "next_context w = 0"
    "input_buffer w = b" "output_buffer w = b" "pending_output_buffer w = b" "accepted w = []" "wire w = []"
    using w b(1) by (auto simp: Connecting_def emit_def Eventer_def)
  show "key_count (ev_poller w)" by (simp add: key_count_def e AddEventer_ops f)
  note owns_empty
  then show "conn_ok {} w"
    by (simp add: conn_ok_def keys_ok_def buffers_ok_def in_flight_ok_def e AddEventer_ops f b)
  show "stream_ok w" by (simp add: stream_ok_def balanced_def e b)
qed

text \<open>A user's step may rely on the invariant of the connection.\<close>

lemma user_step_assuming:
  assumes "poll_step env w w' \<and> heap_grows w w'" and "\<And>A. conn_ok A w \<Longrightarrow> user_step env w w'"
  shows "user_step env w w'"
  using assms unfolding user_step_def conn_step_def keeps_prop_def conn_stream_def by blast

text \<open>The invariants of a run, as long as the keys of the poller do not wrap around.\<close>

definition run_inv :: "uring_env \<Rightarrow> (connecting \<Rightarrow> cqe \<Rightarrow> bool) \<Rightarrow> connecting \<Rightarrow> bool" where
  "run_inv env good w \<longleftrightarrow> key_count (ev_poller w) \<and> (few_calls (ev_poller w) \<longrightarrow> conn_ok {} w \<and>
     ((\<forall>n. get_sqe env n) \<longrightarrow> (\<forall>v c. good v c \<longrightarrow> write_taken v c) \<longrightarrow> stream_ok w))"

lemma run_inv_step:
  assumes "run_inv env good w" and step: "user_step env w w'"
  shows "run_inv env good w'"
proof -
  have c: "counts (ev_poller w) (ev_poller w')"
    using step by (simp add: user_step_def conn_step_def poll_step_def)
  then have k: "key_count (ev_poller w')" "few_calls (ev_poller w') \<Longrightarrow> few_calls (ev_poller w)"
    using assms(1) counts_few [OF c] by (simp_all add: counts_def run_inv_def)
  have "keeps_prop (conn_ok {}) w w'" "keeps_prop (conn_stream env {}) w w'"
    using step by (simp_all add: user_step_def conn_step_def)
  then show ?thesis
    using assms(1) k by (auto simp: run_inv_def keeps_prop_def conn_stream_def)
qed

context connection_user
begin

lemma conn_cqe_uncrashed: "conn_cqe env u c data (w\<lparr>crashed := None\<rparr>) = conn_cqe env u c data w"
  by (simp add: conn_cqe_def case_prod_beta split: option.split)

lemma conn_cqe_run:
  assumes ok: "conn_ok {} w" and few: "few_calls (ev_poller w)" and keys: "key_count (ev_poller w)"
    and kernel: "kernel_result w c data"
  shows "cqe_sound env w c (conn_cqe env u c data w)"
proof -
  let ?v = "w\<lparr>crashed := None\<rparr>"
  have cap: "read_capacity ?v = read_capacity w" by (simp add: read_capacity_def read_iov_def)
  have "delivered ?v (cqe_res c) data = delivered w (cqe_res c) data" by (simp add: delivered_def cap)
  then have "kernel_result ?v c data" using kernel by (simp add: kernel_result_def split: option.splits)
  then have "cqe_sound env ?v c (conn_cqe env u c data ?v)"
    by (intro conn_cqe_sound) (use ok few keys in \<open>simp_all add: quiet_simps\<close>)
  moreover have "stream_ok ?v = stream_ok w" "write_taken ?v c = write_taken w c"
    by (simp_all add: stream_ok_def balanced_def write_taken_def)
  ultimately show ?thesis by (simp add: conn_cqe_uncrashed cqe_sound_def split: sum.splits)
qed

lemma run_inv_completion:
  assumes inv: "run_inv env good w" and kernel: "kernel_result w c data" and "good w c"
    and r: "conn_cqe env u c data w = Inr w'"
  shows "run_inv env good w'"
proof -
  note cnt = conn_cqe_counts [OF r]
  have k: "key_count (ev_poller w)" "key_count (ev_poller w')" using inv cnt by (simp_all add: run_inv_def counts_def)
  show ?thesis
  proof (cases "few_calls (ev_poller w')")
    case True
    then have few: "few_calls (ev_poller w)" by (rule counts_few [OF cnt])
    then have ok: "conn_ok {} w" using inv by (simp add: run_inv_def)
    show ?thesis
      using conn_cqe_run [OF ok few k(1) kernel] inv few assms(3) k True
      by (auto simp: run_inv_def cqe_sound_def r)
  qed (simp add: run_inv_def k)
qed

lemma conn_reach_inv: "conn_reach env u good w \<Longrightarrow> run_inv env good w"
proof (induction rule: conn_reach.induct)
  case (start var queue_init supported waited p e water w)
  from conn_start [OF this] show ?case by (simp add: run_inv_def)
next
  case (establish w w')
  show ?case by (rule run_inv_step [OF establish.IH OnEstablishing_user [OF establish.hyps(2)]])
next
  case (send w msg w')
  show ?case by (rule run_inv_step [OF send.IH Send_user [OF send.hyps(3,2)]])
next
  case (shutdown w)
  show ?case by (rule run_inv_step [OF shutdown.IH ShutDownWrite_user])
next
  case (close w w')
  show ?case by (rule run_inv_step [OF close.IH ForceClose_user [OF close.hyps(2)]])
next
  case (event w k w')
  show ?case by (rule run_inv_step [OF event.IH conn_callback_user [OF event.hyps(2)]])
next
  case (completion w c data w')
  show ?case by (rule run_inv_completion [OF completion.IH completion.hyps(2-4)])
qed

end

end
