(* ===== verification/Servers.thy ===== *)
theory Servers
  imports Connection_Run
begin

text \<open>
  What servers do with a connection: the defaults of \<^verbatim>\<open>src/src/server.cc\<close>, the registration of
  callbacks on a new connection (\<^verbatim>\<open>src/src/reactor_manager.cc\<close>), and the message callbacks of the
  echo, discard and ping-pong examples. Each of them keeps to the contract \<open>connection_user\<close>, so
  the properties of runs of a connection hold for these servers.

  No server registers a callback for the high-water mark, so \<open>Send\<close> needs no user: it is called
  with \<open>no_user\<close>.
\<close>

section \<open>Callbacks\<close>

definition no_user :: conn_user where
  "no_user = \<lparr>OnConnectionCallback = None, OnMessageCallback = None, WriteCompleteCallback = None,
     HighWaterMarkCallback = None, UserCloseCallback = None\<rparr>"

lemma Send_no_user: "HighWaterMarkCallback u = None \<Longrightarrow> Send env u msg w = Send env no_user msg w"
  by (simp add: Send_def high_water_def no_user_def Let_def)

text \<open>The callbacks that a server has set; without a close callback, the one of the constructor.\<close>

record server =
  ConnectionCallback :: conn_cb
  MessageCallback :: conn_cb
  ServerWriteCompleteCallback :: "conn_cb option"
  ServerCloseCallback :: "conn_cb option"

text \<open>The default callback on a connection only logs.\<close>

definition DefaultOnConnectionCallback :: conn_cb where
  "DefaultOnConnectionCallback w = Inr w"

definition DefaultOnMessageCallback :: conn_cb where
  "DefaultOnMessageCallback w = Inr (w\<lparr>input_buffer := RefreshRW (input_buffer w)\<rparr>)"

definition RemoveConnection :: "uring_env \<Rightarrow> conn_user \<Rightarrow> conn_cb" where
  "RemoveConnection env u w = ForceClose env u w"

definition Server :: server where
  "Server = \<lparr>ConnectionCallback = DefaultOnConnectionCallback, MessageCallback = DefaultOnMessageCallback,
     ServerWriteCompleteCallback = None, ServerCloseCallback = None\<rparr>"

definition SetConnectionCallback :: "conn_cb \<Rightarrow> server \<Rightarrow> server" where
  "SetConnectionCallback cb s = s\<lparr>ConnectionCallback := cb\<rparr>"

definition SetMessageCallback :: "conn_cb \<Rightarrow> server \<Rightarrow> server" where
  "SetMessageCallback cb s = s\<lparr>MessageCallback := cb\<rparr>"

definition SetWriteCompleteCallback :: "conn_cb \<Rightarrow> server \<Rightarrow> server" where
  "SetWriteCompleteCallback cb s = s\<lparr>ServerWriteCompleteCallback := Some cb\<rparr>"

definition SetCloseCallback :: "conn_cb \<Rightarrow> server \<Rightarrow> server" where
  "SetCloseCallback cb s = s\<lparr>ServerCloseCallback := Some cb\<rparr>"

text \<open>
  The callbacks that a new connection gets. The close callback of the constructor calls
  \<open>ForceClose\<close>, which calls the close callback: the inner call finds a disconnected connection and
  returns at once, so the recursion is unfolded once.
\<close>

definition register_callbacks :: "uring_env \<Rightarrow> server \<Rightarrow> conn_user" where
  "register_callbacks env s =
     (let u = \<lparr>OnConnectionCallback = Some (ConnectionCallback s), OnMessageCallback = Some (MessageCallback s),
               WriteCompleteCallback = ServerWriteCompleteCallback s, HighWaterMarkCallback = None,
               UserCloseCallback = None\<rparr>
      in u\<lparr>UserCloseCallback :=
             Some (case ServerCloseCallback s of None \<Rightarrow> RemoveConnection env u | Some f \<Rightarrow> f)\<rparr>)"


section \<open>The examples\<close>

definition EchoServer_OnMessageCallback :: "uring_env \<Rightarrow> conn_cb" where
  "EchoServer_OnMessageCallback env w =
     res_bind (RetrieveAllAsString (input_buffer w)) (\<lambda>(message, b).
       Send env no_user message (w\<lparr>input_buffer := b\<rparr>))"

definition EchoServer :: "uring_env \<Rightarrow> server" where
  "EchoServer env = SetMessageCallback (EchoServer_OnMessageCallback env) Server"

definition DiscardServer_OnMessageCallback :: "uring_env \<Rightarrow> conn_cb" where
  "DiscardServer_OnMessageCallback env w =
     res_bind (RetrieveAllAsString (input_buffer w)) (\<lambda>(message, b).
       Send env no_user [] (w\<lparr>input_buffer := b\<rparr>))"

definition DiscardServer :: "uring_env \<Rightarrow> server" where
  "DiscardServer env = SetMessageCallback (DiscardServer_OnMessageCallback env) Server"

definition PingpongServer_OnConnectionCallback :: conn_cb where
  "PingpongServer_OnConnectionCallback w = Inr (if IsConnected w then SetTcpNoDelay True w else w)"

definition PingpongServer_OnMessageCallback :: "uring_env \<Rightarrow> conn_cb" where
  "PingpongServer_OnMessageCallback env w =
     res_bind (Send_buffer env no_user (input_buffer w) w) (\<lambda>(b, w1). Inr (w1\<lparr>input_buffer := b\<rparr>))"

definition PingpongServer :: "uring_env \<Rightarrow> server" where
  "PingpongServer env =
     SetMessageCallback (PingpongServer_OnMessageCallback env)
       (SetConnectionCallback PingpongServer_OnConnectionCallback Server)"


section \<open>The event managers of a server\<close>

text \<open>
  Event managers are addresses; \<open>live\<close> are those that exist, \<open>fresh\<close> gives addresses that
  \<open>new\<close> returns. The echo and discard servers fill their vector with one pointer, the ping-pong
  server allocates one manager per entry. The destructors delete every entry of the vector.
\<close>

definition shared_managers :: "nat \<Rightarrow> nat \<Rightarrow> nat set \<Rightarrow> nat list \<times> nat set" where
  "shared_managers io_thread_amount fresh live = (replicate io_thread_amount fresh, insert fresh live)"

definition distinct_managers :: "nat \<Rightarrow> nat \<Rightarrow> nat set \<Rightarrow> nat list \<times> nat set" where
  "distinct_managers io_thread_amount fresh live =
     (let ps = [fresh..<fresh + (io_thread_amount + 1)] in (ps, set ps \<union> live))"

fun delete_managers :: "nat list \<Rightarrow> nat set \<Rightarrow> nat set res" where
  "delete_managers [] live = Inr live"
| "delete_managers (p # ps) live = (if p \<in> live then delete_managers ps (live - {p}) else Inl DoubleFree)"

lemma delete_distinct:
  "distinct ps \<Longrightarrow> set ps \<inter> live = {} \<Longrightarrow> delete_managers ps (set ps \<union> live) = Inr live"
proof (induction ps)
  case (Cons p ps)
  then have "insert p (set ps \<union> live) - {p} = set ps \<union> live" by auto
  then show ?case using Cons by simp
qed simp

text \<open>
  Who deletes the event managers of a server: with more than one I/O thread the destructor of the
  echo and discard servers deletes their only event manager twice, and with none it is leaked; the
  ping-pong server deletes each of its event managers exactly once.
\<close>

theorem manager_ownership:
  "(case shared_managers n p (live - {p}) of (ps, live') \<Rightarrow>
      delete_managers ps live' =
        (if n = 0 then Inr (insert p live) else if n = 1 then Inr (live - {p}) else Inl DoubleFree)) \<and>
   (case distinct_managers n p (live - {p..<p + (n + 1)}) of (ps, live') \<Rightarrow>
      length ps = n + 1 \<and> delete_managers ps live' = Inr (live - {p..<p + (n + 1)}))"
proof
  consider "n = 0" | "n = 1" | m where "n = Suc (Suc m)" by (metis One_nat_def not0_implies_Suc)
  then show "case shared_managers n p (live - {p}) of (ps, live') \<Rightarrow>
      delete_managers ps live' =
        (if n = 0 then Inr (insert p live) else if n = 1 then Inr (live - {p}) else Inl DoubleFree)"
    by cases (auto simp: shared_managers_def insert_absorb)
  let ?ps = "[p..<p + (n + 1)]"
  have "set ?ps \<inter> (live - {p..<p + (n + 1)}) = {}" unfolding set_upt by blast
  from delete_distinct [OF distinct_upt this] show "case distinct_managers n p (live - {p..<p + (n + 1)}) of
      (ps, live') \<Rightarrow> length ps = n + 1 \<and> delete_managers ps live' = Inr (live - {p..<p + (n + 1)})"
    unfolding distinct_managers_def Let_def by (simp only: prod.case length_upt) simp
qed


section \<open>They keep to the contract\<close>

text \<open>A ring without multishot receives: the macro for them is not defined.\<close>

definition no_multishot :: "uring_env \<Rightarrow> uring_env" where
  "no_multishot env = env\<lparr>recv_multishot := False\<rparr>"

lemma no_multishot [simp]: "\<not> recv_multishot (no_multishot env)" "get_sqe (no_multishot env) = get_sqe env"
  by (simp_all add: no_multishot_def)

interpretation plain: connection_user "no_multishot env" no_user for env
  by unfold_locales (simp_all add: no_user_def user_callbacks_def)

text \<open>What a callback for messages may do, and what any other callback may do.\<close>

definition message_cb_ok :: "uring_env \<Rightarrow> conn_cb \<Rightarrow> bool" where
  "message_cb_ok env f \<longleftrightarrow>
     (\<forall>w w'. f w = Inr w' \<longrightarrow> poll_step env w w' \<and> heap_grows w w' \<and> (\<not> read_in_flight w \<longrightarrow> user_step env w w')) \<and>
     (\<forall>w e. f w = Inl e \<longrightarrow> \<not> free_error e)"

definition cb_ok :: "uring_env \<Rightarrow> conn_cb \<Rightarrow> bool" where
  "cb_ok env f \<longleftrightarrow> (\<forall>w w'. f w = Inr w' \<longrightarrow> user_step env w w') \<and> (\<forall>w e. f w = Inl e \<longrightarrow> \<not> free_error e)"

lemma ForceClose_error:
  assumes "connection_user env u"
  shows "ForceClose env u w = Inl e \<Longrightarrow> \<not> free_error e"
  using connection_user.DoClosing_error [OF assms] by (auto simp: ForceClose_def split: if_splits)

lemma register_user:
  assumes single: "\<not> recv_multishot env" and cb: "cb_ok env (ConnectionCallback s)"
    and m: "message_cb_ok env (MessageCallback s)"
    and wc: "pred_option (cb_ok env) (ServerWriteCompleteCallback s)"
    and cl: "pred_option (cb_ok env) (ServerCloseCallback s)"
  shows "connection_user env (register_callbacks env s)"
proof -
  have user: "connection_user env u"
    if "user_callbacks u \<subseteq> {f. cb_ok env f}" "OnMessageCallback u = Some (MessageCallback s)"
      "HighWaterMarkCallback u = None" for u
  proof
    show "\<not> recv_multishot env" by (rule single)
    show "user_step env w w'" if "f \<in> user_callbacks u" "f w = Inr w'" for f w w'
      using that \<open>user_callbacks u \<subseteq> _\<close> by (auto simp: cb_ok_def)
    show "\<not> free_error e" if "f \<in> user_callbacks u \<union> set_option (OnMessageCallback u)" "f w = Inl e" for f w e
      using that \<open>user_callbacks u \<subseteq> _\<close> \<open>OnMessageCallback u = _\<close> m by (auto simp: cb_ok_def message_cb_ok_def)
    show "poll_step env w w' \<and> heap_grows w w' \<and> (\<not> read_in_flight w \<longrightarrow> user_step env w w')"
      if "OnMessageCallback u = Some f" "f w = Inr w'" for f w w'
      using that \<open>OnMessageCallback u = Some (MessageCallback s)\<close> m by (simp add: message_cb_ok_def)
    show "conn_state w' = conn_state w" if "HighWaterMarkCallback u = Some h" for h w w'
      using that \<open>HighWaterMarkCallback u = None\<close> by simp
  qed
  let ?u = "\<lparr>OnConnectionCallback = Some (ConnectionCallback s), OnMessageCallback = Some (MessageCallback s),
     WriteCompleteCallback = ServerWriteCompleteCallback s, HighWaterMarkCallback = None, UserCloseCallback = None\<rparr>"
  have u: "connection_user env ?u"
    by (rule user) (use cb wc in \<open>auto simp: user_callbacks_def pred_option_def\<close>)
  have "cb_ok env (RemoveConnection env ?u)"
    using connection_user.ForceClose_user [OF u] ForceClose_error [OF u] by (simp add: cb_ok_def RemoveConnection_def)
  then show ?thesis
    using cb wc cl by (intro user)
      (auto simp: register_callbacks_def Let_def user_callbacks_def pred_option_def split: option.splits)
qed

text \<open>Taking bytes from the input buffer when no read is in flight.\<close>

lemma input_step:
  shows "poll_step env w (w\<lparr>input_buffer := b\<rparr>) \<and> heap_grows w (w\<lparr>input_buffer := b\<rparr>)"
    "\<not> read_in_flight w \<Longrightarrow> io_buffer_ok b \<Longrightarrow> user_step env w (w\<lparr>input_buffer := b\<rparr>)"
proof -
  show "poll_step env w (w\<lparr>input_buffer := b\<rparr>) \<and> heap_grows w (w\<lparr>input_buffer := b\<rparr>)"
    by (simp add: poll_step_local held_keys_def heap_grows_def)
  assume "\<not> read_in_flight w" "io_buffer_ok b"
  then have "conn_step env w (w\<lparr>input_buffer := b\<rparr>)"
    using conn_ok_input by (intro conn_step_local) (simp_all add: held_keys_def)
  then show "user_step env w (w\<lparr>input_buffer := b\<rparr>)" by (rule user_step_output) simp_all
qed

lemma contents_max: "io_buffer_ok b \<Longrightarrow> length (contents b) \<le> vector_max_size"
  by (auto simp: io_buffer_ok_def contents_def)

lemma high_water_no_user: "high_water no_user n w = Inr w"
  by (simp add: high_water_def no_user_def Let_def)

text \<open>What \<open>Send\<close> and \<open>ShutDownWrite\<close> do to a connection.\<close>

lemma Send_connected:
  assumes "conn_state w = kConnected" and "Send env no_user msg w = Inr w'"
  shows "accepted w' = accepted w @ msg" "input_buffer w' = input_buffer w" "conn_state w' = kConnected"
    "ev_fd w' = ev_fd w"
proof -
  have same: "accepted (SubmitWriteOnce env v) = accepted v" "input_buffer (SubmitWriteOnce env v) = input_buffer v"
    "conn_state (SubmitWriteOnce env v) = conn_state v" "ev_fd (SubmitWriteOnce env v) = ev_fd v" for v
    by (simp_all add: SubmitWriteOnce_def new_context_def Let_def case_prod_beta)
  show "accepted w' = accepted w @ msg" "input_buffer w' = input_buffer w" "conn_state w' = kConnected" "ev_fd w' = ev_fd w"
    using assms by (auto simp: Send_def high_water_no_user res_bind_Inr_iff accept_bytes_def same split: if_splits)
qed

lemma Send_disconnecting: "conn_state w = kDisconnecting \<Longrightarrow> Send env u msg w = Inr w"
  by (simp add: Send_def)

lemma ShutDownWrite_keeps:
  "accepted (ShutDownWrite w) = accepted w" "input_buffer (ShutDownWrite w) = input_buffer w"
  "conn_state w = kConnected \<Longrightarrow> conn_state (ShutDownWrite w) = kDisconnecting"
  "conn_state w = kDisconnecting \<Longrightarrow> ShutDownWrite w = w"
  by (simp_all add: ShutDownWrite_def emit_def Let_def)

lemma Send_no_user_error: "Send env no_user msg w = Inl e \<Longrightarrow> \<not> free_error e"
  by (auto simp: Send_def high_water_no_user res_bind_Inl_iff dest: Append_error split: if_splits)

lemma Retrieve_error: "RetrieveAllAsString b = Inl e \<Longrightarrow> \<not> free_error e"
  by (auto simp: RetrieveAllAsString_def RetrieveAString_def res_bind_Inl_iff dest: mem_error split: if_splits)

text \<open>A callback that takes all bytes and sends an answer that fits into memory.\<close>

lemma answer_ok:
  assumes f: "\<And>w. f w = res_bind (RetrieveAllAsString (input_buffer w)) (\<lambda>(m, b).
      Send (no_multishot env) no_user (g m) (w\<lparr>input_buffer := b\<rparr>))"
    and g: "\<And>m. length m \<le> vector_max_size \<Longrightarrow> length (g m) \<le> vector_max_size"
  shows "message_cb_ok (no_multishot env) f"
  unfolding message_cb_ok_def
proof (intro conjI allI impI)
  let ?env = "no_multishot env"
  fix w w' assume "f w = Inr w'"
  then obtain m b where m: "RetrieveAllAsString (input_buffer w) = Inr (m, b)"
    "Send ?env no_user (g m) (w\<lparr>input_buffer := b\<rparr>) = Inr w'"
    by (auto simp: f res_bind_Inr_iff)
  have poll: "poll_step ?env w w' \<and> heap_grows w w'"
    using input_step(1) [of ?env w b] plain.Send_poll [OF m(2)] poll_step_trans heap_grows_trans by blast
  then show "poll_step ?env w w'" "heap_grows w w'" by simp_all
  assume idle: "\<not> read_in_flight w"
  show "user_step ?env w w'"
  proof (rule user_step_assuming [OF poll])
    fix A
    assume "conn_ok A w"
    note ok = conn_okD(5) [OF this]
    have b: "m = contents (input_buffer w)" "io_buffer_ok b"
      using m(1) RetrieveAllAsString_ok [OF ok] Refresh_ok [OF ok] by auto
    have "length (g m) \<le> vector_max_size" using g [of m] contents_max [OF ok] b(1) by simp
    then show "user_step ?env w w'"
      using input_step(2) [OF idle b(2)] plain.Send_user [OF m(2)] user_step_trans by blast
  qed
next
  fix w e assume "f w = Inl e"
  then show "\<not> free_error e"
    using Retrieve_error Send_no_user_error by (auto simp: f res_bind_Inl_iff)
qed

lemma pingpong_message_ok: "message_cb_ok (no_multishot env) (PingpongServer_OnMessageCallback (no_multishot env))"
  unfolding message_cb_ok_def
proof (intro conjI allI impI)
  let ?env = "no_multishot env" and ?f = "PingpongServer_OnMessageCallback (no_multishot env)"
  fix w w' assume "?f w = Inr w'"
  then obtain m w1 where m: "mem_read (reading_index (input_buffer w)) (GetReadableBytes (input_buffer w))
      (buffer (input_buffer w)) = Inr m"
    "Send ?env no_user m w = Inr w1" "w' = w1\<lparr>input_buffer := RefreshRW (input_buffer w)\<rparr>"
    by (auto simp: PingpongServer_OnMessageCallback_def Send_buffer_def res_bind_Inr_iff)
  have idle1: "read_in_flight w1 = read_in_flight w"
    using m(2) by (auto simp: Send_def high_water_no_user res_bind_Inr_iff accept_bytes_def SubmitWriteOnce_def
        new_context_def Let_def case_prod_beta split: if_splits)
  have poll: "poll_step ?env w w' \<and> heap_grows w w'"
    using plain.Send_poll [OF m(2)] input_step(1) [of ?env w1] poll_step_trans heap_grows_trans m(3) by blast
  then show "poll_step ?env w w'" "heap_grows w w'" by simp_all
  assume idle: "\<not> read_in_flight w"
  show "user_step ?env w w'"
  proof (rule user_step_assuming [OF poll])
    fix A
    assume "conn_ok A w"
    note ok = conn_okD(5) [OF this]
    have "length m \<le> vector_max_size"
      using m(1) ok by (auto simp: mem_read_def io_buffer_ok_def split: if_splits)
    from plain.Send_user [OF m(2) this] show "user_step ?env w w'"
      using input_step(2) [of w1 "RefreshRW (input_buffer w)" ?env] idle idle1 RefreshRW_ok [OF ok] m(3)
        user_step_trans by metis
  qed
next
  fix w e assume "PingpongServer_OnMessageCallback (no_multishot env) w = Inl e"
  then show "\<not> free_error e"
    using mem_error Send_no_user_error
    by (auto simp: PingpongServer_OnMessageCallback_def Send_buffer_def res_bind_Inl_iff)
qed

lemma default_cb_ok: "cb_ok env DefaultOnConnectionCallback" "cb_ok env PingpongServer_OnConnectionCallback"
proof -
  have "user_step env w (emit e w)" for w e
    by (rule user_step_output [OF conn_step_quiet(4)]) (simp_all add: emit_def)
  then show "cb_ok env DefaultOnConnectionCallback" "cb_ok env PingpongServer_OnConnectionCallback"
    by (auto simp: cb_ok_def DefaultOnConnectionCallback_def PingpongServer_OnConnectionCallback_def SetTcpNoDelay_def)
qed

lemma default_message_ok: "message_cb_ok env DefaultOnMessageCallback"
proof -
  have "user_step env w (w\<lparr>input_buffer := RefreshRW (input_buffer w)\<rparr>)" if "\<not> read_in_flight w" for w
    using input_step(1) by (rule user_step_assuming) (use that in \<open>simp add: input_step(2) conn_okD(5)\<close>)
  then show ?thesis using input_step(1) by (auto simp: message_cb_ok_def DefaultOnMessageCallback_def)
qed

lemmas server_defs = Server_def SetMessageCallback_def SetConnectionCallback_def

interpretation default_server: connection_user "no_multishot env" "register_callbacks (no_multishot env) Server" for env
  by (rule register_user) (simp_all add: Server_def default_cb_ok default_message_ok)

interpretation echo: connection_user "no_multishot env"
    "register_callbacks (no_multishot env) (EchoServer (no_multishot env))" for env
  by (rule register_user)
    (simp_all add: EchoServer_def server_defs default_cb_ok answer_ok [of _ _ "\<lambda>m. m"] EchoServer_OnMessageCallback_def)

interpretation discard: connection_user "no_multishot env"
    "register_callbacks (no_multishot env) (DiscardServer (no_multishot env))" for env
  by (rule register_user)
    (simp_all add: DiscardServer_def server_defs default_cb_ok answer_ok [of _ _ "\<lambda>m. []"]
      DiscardServer_OnMessageCallback_def)

interpretation pingpong: connection_user "no_multishot env"
    "register_callbacks (no_multishot env) (PingpongServer (no_multishot env))" for env
  by (rule register_user)
    (simp_all add: PingpongServer_def server_defs default_cb_ok pingpong_message_ok)

end
