(* ===== verification/Connection_Theorems.thy ===== *)
theory Connection_Theorems
  imports Servers
begin

text \<open>
  The properties of the connection, each with an instance on the echo server: a connection that was
  just established, with its first read in flight.
\<close>

section \<open>A connection of the echo server\<close>

definition echo_user :: conn_user where
  "echo_user = register_callbacks sample_env (EchoServer sample_env)"

definition sample_conn :: connecting where
  "sample_conn =
     (case res_bind (Connecting sample_env sample_poller 1 64) (OnEstablishing sample_env echo_user) of
        Inr w \<Rightarrow> w)"

lemma sample_env_single: "no_multishot sample_env = sample_env"
  by (simp add: no_multishot_def sample_env_def)

lemma echo_user_ok: "connection_user sample_env echo_user"
  using echo.connection_user_axioms [of sample_env] by (simp add: sample_env_single echo_user_def)

lemma sample_conn_steps:
  obtains w0 where "Connecting sample_env sample_poller 1 64 = Inr w0" "conn_state w0 = kConnecting"
    "OnEstablishing sample_env echo_user w0 = Inr sample_conn"
    "sample_conn = SubmitReadOnce sample_env (w0\<lparr>conn_state := kConnected\<rparr>)"
proof -
  obtain b where b: "IoBuffer kInitialCapacity = Inr b" using IoBuffer_initial by blast
  obtain w0 where w0: "Connecting sample_env sample_poller 1 64 = Inr w0" "conn_state w0 = kConnecting"
    using b by (auto simp: Connecting_def emit_def Let_def)
  have "OnConnectionCallback echo_user = Some DefaultOnConnectionCallback"
    by (simp add: echo_user_def register_callbacks_def EchoServer_def server_defs Let_def)
  then have e: "OnEstablishing sample_env echo_user w0 = Inr (SubmitReadOnce sample_env (w0\<lparr>conn_state := kConnected\<rparr>))"
    using w0(2) by (simp add: OnEstablishing_def call_required_def DefaultOnConnectionCallback_def)
  then have "sample_conn = SubmitReadOnce sample_env (w0\<lparr>conn_state := kConnected\<rparr>)"
    unfolding sample_conn_def w0(1) by simp
  then show thesis using that w0 e by metis
qed

lemma sample_reachable: "conn_reach sample_env echo_user good sample_conn"
proof -
  obtain w0 where w0: "Connecting sample_env sample_poller 1 64 = Inr w0" "conn_state w0 = kConnecting"
    "OnEstablishing sample_env echo_user w0 = Inr sample_conn"
    "sample_conn = SubmitReadOnce sample_env (w0\<lparr>conn_state := kConnected\<rparr>)" by (rule sample_conn_steps)
  show ?thesis by (rule conn_reach.establish [OF conn_reach.start [OF sample_poller_eq w0(1)] w0(3)])
qed

text \<open>The first read has the key 1 and the context 0.\<close>

definition sample_ctx :: ReadContext where
  "sample_ctx = \<lparr>rc_iov = [(InputAt 8, 1024), (ExtraBuffer, 65536)], rc_writable = 1024, rc_key = 1,
     rc_multishot = False, rc_buf_id = 0\<rparr>"

definition sample_op :: "(nat, io_fn) IoUringOp" where
  "sample_op = mk_op kRead (Some 1) (Some 0) 7 (Some ReadDoneFn) True 1"

lemma sample_conn_fields:
  "ops (ev_poller sample_conn) = [1 \<mapsto> sample_op]" "sqe_calls (ev_poller sample_conn) = 1"
  "contexts sample_conn = [0 \<mapsto> RCtx sample_ctx]" "read_in_flight sample_conn" "\<not> write_in_flight sample_conn"
  "read_cancel_key sample_conn = 1" "conn_state sample_conn = kConnected" "accepted sample_conn = []"
  "input_buffer sample_conn = \<lparr>buffer = replicate 1032 0, reading_index = 8, writing_index = 8\<rparr>"
  "output_buffer sample_conn = \<lparr>buffer = replicate 1032 0, reading_index = 8, writing_index = 8\<rparr>"
proof -
  obtain w0 where w0: "Connecting sample_env sample_poller 1 64 = Inr w0" "conn_state w0 = kConnecting"
    "OnEstablishing sample_env echo_user w0 = Inr sample_conn"
    "sample_conn = SubmitReadOnce sample_env (w0\<lparr>conn_state := kConnected\<rparr>)" by (rule sample_conn_steps)
  have b: "IoBuffer kInitialCapacity = Inr \<lparr>buffer = replicate 1032 0, reading_index = 8, writing_index = 8\<rparr>"
    by (simp add: IoBuffer_def vector_new_def size_add_def kReservedCapacity_def kInitialCapacity_def
        vector_max_size_def)
  have f: "contexts w0 = Map.empty" "next_context w0 = 0" "\<not> read_in_flight w0" "\<not> write_in_flight w0"
    "accepted w0 = []" "ev_self w0 = 1" "ev_poller w0 = AddEventer sample_env 1 0 sample_poller"
    "input_buffer w0 = \<lparr>buffer = replicate 1032 0, reading_index = 8, writing_index = 8\<rparr>"
    "output_buffer w0 = \<lparr>buffer = replicate 1032 0, reading_index = 8, writing_index = 8\<rparr>"
    using w0(1) b by (auto simp: Connecting_def emit_def Eventer_def)
  have p: "ops (ev_poller w0) = Map.empty" "sqe_calls (ev_poller w0) = 0" "next_key (ev_poller w0) = 1"
    by (simp_all add: f AddEventer_def SubmitPoll_def sample_poller_def empty_poller_def)
  have iov: "GetWritableBytes (input_buffer w0) = 1024"
    by (simp add: f GetWritableBytes_def size_sub_def)
  have sc: "sample_conn = (w0\<lparr>conn_state := kConnected, ev_poller := snd (SubmitRead sample_env 1 (Some ReadDoneFn) (Some 0) 0 True (ev_poller w0)),
      contexts := [0 \<mapsto> RCtx sample_ctx], next_context := 1, read_in_flight := True, read_cancel_key := 1\<rparr>)"
    unfolding w0(4) using SubmitReadOnce_single [of sample_env "w0\<lparr>conn_state := kConnected\<rparr>"] f p iov
    by (simp add: sample_env_def sample_ctx_def read_iov_def kExtraBufferSize_def)
  have q: "ops (snd (SubmitRead sample_env 1 (Some ReadDoneFn) (Some 0) 0 True (ev_poller w0))) = [1 \<mapsto> sample_op]"
    "sqe_calls (snd (SubmitRead sample_env 1 (Some ReadDoneFn) (Some 0) 0 True (ev_poller w0))) = 1"
    using p by (simp_all add: SubmitRead_def submit_op_def NormalizeKey_0 io_uring_get_sqe_def prep_def sample_env_def sample_op_def)
  show
    "ops (ev_poller sample_conn) = [1 \<mapsto> sample_op]" "sqe_calls (ev_poller sample_conn) = 1"
    "contexts sample_conn = [0 \<mapsto> RCtx sample_ctx]" "read_in_flight sample_conn" "\<not> write_in_flight sample_conn"
    "read_cancel_key sample_conn = 1" "conn_state sample_conn = kConnected" "accepted sample_conn = []"
    "input_buffer sample_conn = \<lparr>buffer = replicate 1032 0, reading_index = 8, writing_index = 8\<rparr>"
    "output_buffer sample_conn = \<lparr>buffer = replicate 1032 0, reading_index = 8, writing_index = 8\<rparr>"
    unfolding sc using q f by simp_all
qed

text \<open>The kernel answers the first read with five bytes.\<close>

definition sample_data :: "byte list" where
  "sample_data = [1, 2, 3, 4, 5]"

definition sample_cqe :: cqe where
  "sample_cqe = \<lparr>user_data = 1, cqe_res = 5, cqe_flags = 0\<rparr>"

lemma sample_cqe_more: "\<not> cqe_more sample_cqe"
  by (simp add: cqe_more_def sample_cqe_def)

lemma sample_read_ctx: "read_ctx_ok sample_conn (RCtx sample_ctx)" "read_capacity sample_conn = 66560"
  by (simp_all add: read_ctx_ok_def sample_ctx_def read_iov_def read_capacity_def sample_conn_fields
      GetWritableBytes_def size_sub_def kExtraBufferSize_def)

lemma sample_delivered: "delivered sample_conn (cqe_res sample_cqe) sample_data"
  by (simp add: delivered_def sample_read_ctx sample_cqe_def sample_data_def)

lemma sample_kernel: "kernel_result sample_conn sample_cqe sample_data"
  using sample_cqe_more sample_delivered
  by (simp add: kernel_result_def sample_conn_fields sample_op_def mk_op_def sample_cqe_def)

lemma sample_few_calls: "few_calls (ev_poller sample_conn)"
  by (simp add: few_calls_def sample_conn_fields)


section \<open>Properties\<close>

lemma owns_unique:
  assumes "owns {} os cs n"
  shows "cs a \<noteq> None \<longleftrightarrow> (\<exists>!k. \<exists>op. os k = Some op \<and> op_context op = Some a)"
proof -
  have r: "cref os k = Some a \<longleftrightarrow> (\<exists>op. os k = Some op \<and> op_context op = Some a)" for k
    by (auto simp: cref_def split: option.splits)
  have "cs a \<noteq> None \<longleftrightarrow> a \<in> ran (cref os)" using assms by (auto simp: owns_def)
  also have "\<dots> \<longleftrightarrow> (\<exists>!k. cref os k = Some a)"
    using assms by (auto simp: owns_def ran_def inj_on_def dom_def)
  finally show ?thesis by (simp add: r)
qed

text \<open>
  C1. In every run of a connection whose callbacks keep to the contract, the contexts that it has
  allocated for reads and writes are each referenced by exactly one recorded operation (none leaks,
  none is shared), and whatever completion the kernel delivers next, handling it never touches a
  context that was deleted and never deletes one twice.
\<close>

theorem connection_memory_safe:
  assumes "connection_user env u" and "conn_reach env u (\<lambda>w c. True) w" and "few_calls (ev_poller w)"
    and "kernel_result w c data"
  shows "conn_cqe env u c data w \<noteq> Inl UseAfterFree \<and> conn_cqe env u c data w \<noteq> Inl DoubleFree \<and>
    (\<forall>a. contexts w a \<noteq> None \<longleftrightarrow>
       (\<exists>!k. \<exists>op. ops (ev_poller w) k = Some op \<and> op_context op = Some a))"
proof -
  have inv: "run_inv env (\<lambda>w c. True) w" by (rule connection_user.conn_reach_inv [OF assms(1,2)])
  then have ok: "conn_ok {} w" "key_count (ev_poller w)" using assms(3) by (simp_all add: run_inv_def)
  have "cqe_sound env w c (conn_cqe env u c data w)"
    by (rule connection_user.conn_cqe_run [OF assms(1) ok(1) assms(3) ok(2) assms(4)])
  then show ?thesis
    using owns_unique [OF conn_okD(4) [OF ok(1)]] by (auto simp: cqe_sound_def free_error_def split: sum.splits)
qed

theorem connection_memory_safe_witness:
  "conn_cqe sample_env echo_user sample_cqe sample_data sample_conn \<noteq> Inl UseAfterFree \<and>
   contexts sample_conn 0 \<noteq> None"
  using connection_memory_safe [OF echo_user_ok sample_reachable sample_few_calls sample_kernel]
  by (simp add: sample_conn_fields)



text \<open>
  C3. What arrives is handed to the user: when the read in flight completes with bytes, the message
  callback runs on a connection whose input buffer holds the bytes that were unread followed by
  exactly those that arrived (whether they fitted the buffer or went through the extra buffer), then
  the next read is submitted and the context of this one is deleted.
\<close>

theorem read_reaches_user:
  assumes "io_buffer_ok (input_buffer w)" and "op_context op = Some a" and "contexts w a = Some (RCtx ctx)"
    and "read_ctx_ok w (RCtx ctx)" and "\<not> cqe_more c" and "0 < cqe_res c" and "delivered w (cqe_res c) data"
    and "OnMessageCallback u = Some f" and "OnReadComplete env u c data op w = Inr (op', w')"
  shows "\<exists>b w3. contents b = contents (input_buffer w) @ data \<and>
    f (w\<lparr>read_in_flight := False, input_buffer := b\<rparr>) = Inr w3 \<and>
    w' = (SubmitReadOnce env w3)\<lparr>contexts := (contexts (SubmitReadOnce env w3))(a := None)\<rparr> \<and>
    op' = op\<lparr>op_context := None\<rparr>"
proof -
  let ?w = "w\<lparr>read_in_flight := False\<rparr>"
  have m: "\<not> rc_multishot ctx" using assms(4) by (simp add: read_ctx_ok_def)
  obtain w4 where w4: "read_outcome env u ctx c data ?w = Inr w4" "end_write a True op w4 = Inr (op', w')"
    using assms(9) [unfolded OnReadComplete_single [OF assms(2,3) m assms(5)]] by (auto simp: res_bind_Inr_iff)
  obtain w2 w3 where s: "fill_input ctx (cqe_has_buffer c) data (nat (cqe_res c)) ?w = Inr w2" "f w2 = Inr w3"
    "w4 = SubmitReadOnce env w3"
    using w4(1) assms(5,6,8) by (auto simp: read_outcome_def res_bind_Inr_iff call_opt_def)
  have cap: "read_capacity ?w = read_capacity w" by (simp add: read_capacity_def read_iov_def)
  have "\<exists>b. w2 = ?w\<lparr>input_buffer := b\<rparr> \<and> io_buffer_ok b \<and> contents b = contents (input_buffer ?w) @ data"
    by (rule fill_input_Inr [OF _ _ _ _ _ s(1)])
      (use assms(1,4,6,7) in \<open>simp_all add: quiet_simps delivered_def cap\<close>)
  then obtain b where b: "w2 = w\<lparr>read_in_flight := False, input_buffer := b\<rparr>"
    "contents b = contents (input_buffer w) @ data" by auto
  have "op' = op\<lparr>op_context := None\<rparr>" using w4(2) by (auto simp: end_write_def res_bind_Inr_iff)
  then show ?thesis using s(2,3) b end_write_Inr(1) [OF w4(2)] by auto
qed

lemma sample_default_read:
  "\<exists>r. OnReadComplete sample_env (register_callbacks sample_env Server) sample_cqe sample_data sample_op sample_conn = Inr r"
proof -
  let ?w = "sample_conn\<lparr>read_in_flight := False\<rparr>" and ?u = "register_callbacks sample_env Server"
  have ok: "io_buffer_ok (input_buffer ?w)" and wr: "writable (input_buffer ?w) = 1024"
    by (simp_all add: sample_conn_fields io_buffer_ok_def kReservedCapacity_def vector_max_size_def writable_def)
  have cap: "read_capacity ?w = 66560" using sample_read_ctx(2) by (simp add: read_capacity_def read_iov_def)
  have ctx: "read_ctx_ok ?w (RCtx sample_ctx)" using sample_read_ctx(1) by (simp add: quiet_simps)
  have "length sample_data = 5" by (simp add: sample_data_def)
  then obtain b where b: "fill_input sample_ctx (cqe_has_buffer sample_cqe) sample_data 5 ?w =
      Inr (?w\<lparr>input_buffer := b\<rparr>)"
    using fill_input_single [OF ok ctx, of sample_data 5] cap wr by auto
  have cb: "OnMessageCallback ?u = Some DefaultOnMessageCallback"
    by (simp add: register_callbacks_def Server_def Let_def)
  let ?v = "?w\<lparr>input_buffer := RefreshRW b\<rparr>"
  have w: "read_outcome sample_env ?u sample_ctx sample_cqe sample_data ?w = Inr (SubmitReadOnce sample_env ?v)"
    using b sample_cqe_more
    by (simp add: read_outcome_def sample_cqe_def call_opt_def cb DefaultOnMessageCallback_def)
  have "next_context sample_conn > 0"
    using conn_okD(4) connection_user.conn_reach_inv [OF echo_user_ok sample_reachable] sample_few_calls
    by (force simp: run_inv_def owns_def sample_conn_fields)
  then have "contexts (SubmitReadOnce sample_env ?v) 0 \<noteq> None"
    using heap_kept [OF submit_heap(1) [of ?v sample_env], of 0] by (simp add: sample_conn_fields)
  moreover have "op_context sample_op = Some 0" by (simp add: sample_op_def mk_op_def)
  ultimately show ?thesis
    using OnReadComplete_single [of sample_op 0 sample_conn sample_ctx sample_cqe sample_env ?u sample_data] w
      sample_cqe_more by (auto simp: sample_conn_fields sample_ctx_def end_write_def delete_context_def)
qed

theorem read_reaches_user_witness:
  "\<exists>b w3. contents b = sample_data \<and>
     DefaultOnMessageCallback (sample_conn\<lparr>read_in_flight := False, input_buffer := b\<rparr>) = Inr w3"
proof -
  obtain op' w' where r: "OnReadComplete sample_env (register_callbacks sample_env Server) sample_cqe sample_data
      sample_op sample_conn = Inr (op', w')" using sample_default_read by fastforce
  have "contents (input_buffer sample_conn) = []" "io_buffer_ok (input_buffer sample_conn)"
    by (simp_all add: sample_conn_fields contents_def io_buffer_ok_def kReservedCapacity_def vector_max_size_def)
  then show ?thesis
    using read_reaches_user [OF _ _ _ sample_read_ctx(1) sample_cqe_more _ sample_delivered _ r, of 0]
    by (auto simp: sample_conn_fields sample_op_def mk_op_def sample_cqe_def register_callbacks_def Server_def Let_def)
qed

text \<open>
  C4. The completion functions of a connection keep to what the poller asks of completion functions:
  they use the poller through its public operations only, leave every context but their own alone,
  and hold only keys that are safe to cancel. The guarantees of the poller hold for connections.
\<close>

theorem connection_keeps_poller_contract:
  assumes "connection_user env u"
  shows "callbacks_ok env held_keys (conn_complete env u data)"
  by (rule connection_user.completions_keep_contract [OF assms])

theorem connection_keeps_poller_contract_witness:
  "callbacks_ok sample_env held_keys (conn_complete sample_env echo_user sample_data)"
  by (rule connection_keeps_poller_contract [OF echo_user_ok])

text \<open>
  C38. Closing forgets operations that are still outstanding: after \<open>CancelPendingIo\<close>, which
  \<open>DoClosing\<close> runs, \<open>HasPendingIo\<close> is false at once, while the read that was in flight is still
  recorded (without its completion function) until the kernel reports its end.
\<close>

theorem cancelled_read_is_outstanding:
  assumes "read_in_flight w" and "read_cancel_key w = k" and "k \<noteq> 0" and "ops (ev_poller w) k = Some op"
  shows "\<not> HasPendingIo (CancelPendingIo env w) \<and>
    ops (ev_poller (CancelPendingIo env w)) k = Some (op\<lparr>op_eventer := None, op_completion := None\<rparr>)"
  using assms by (auto simp: HasPendingIo_def CancelPendingIo_def Let_def CancelOp_ops)

theorem cancelled_read_is_outstanding_witness:
  "\<not> HasPendingIo (CancelPendingIo sample_env sample_conn) \<and>
   ops (ev_poller (CancelPendingIo sample_env sample_conn)) 1 \<noteq> None"
  using cancelled_read_is_outstanding [of sample_conn 1 sample_op sample_env]
  by (simp add: sample_conn_fields)

text \<open>
  The echo server sends back what it received: its message callback empties the input buffer and,
  on a connection that is up, hands exactly the bytes that were in it to the output stream.
\<close>

theorem echo_returns_input:
  assumes "io_buffer_ok (input_buffer w)" and "conn_state w = kConnected"
    and "EchoServer_OnMessageCallback env w = Inr w'"
  shows "accepted w' = accepted w @ contents (input_buffer w) \<and> contents (input_buffer w') = []"
proof -
  let ?b = "Refresh (length (contents (input_buffer w))) (input_buffer w)"
  let ?w = "w\<lparr>input_buffer := ?b\<rparr>"
  have sent: "Send env no_user (contents (input_buffer w)) ?w = Inr w'"
    using assms(3) RetrieveAllAsString_ok [OF assms(1)] by (simp add: EchoServer_OnMessageCallback_def)
  have "accepted w' = accepted w @ contents (input_buffer w) \<and> input_buffer w' = ?b"
    using Send_connected(1,2) [OF _ sent] assms(2) by simp
  then show ?thesis using contents_Refresh [OF assms(1)] by simp
qed

lemma sample_echo:
  obtains w' where "EchoServer_OnMessageCallback sample_env (sample_conn\<lparr>input_buffer :=
    \<lparr>buffer = [0, 0, 0, 0, 0, 0, 0, 0, 7, 9], reading_index = 8, writing_index = 10\<rparr>\<rparr>) = Inr w'"
proof -
  let ?b = "\<lparr>buffer = [0, 0, 0, 0, 0, 0, 0, 0, 7, 9], reading_index = 8, writing_index = 10\<rparr>"
  have b: "io_buffer_ok ?b" "contents ?b = [7, 9]"
    by (simp_all add: io_buffer_ok_def contents_def kReservedCapacity_def vector_max_size_def)
  have ok: "conn_ok {} sample_conn"
    using connection_user.conn_reach_inv [OF echo_user_ok sample_reachable] sample_few_calls by (simp add: run_inv_def)
  obtain o' where "Append [7, 9] (output_buffer sample_conn) = Inr o'"
    using Append_fits [OF conn_okD(6) [OF ok], of "[7, 9]"] by (auto simp: sample_conn_fields writable_def)
  then show thesis
    using that RetrieveAllAsString_ok [OF b(1)] b(2)
    by (simp add: EchoServer_OnMessageCallback_def Send_def high_water_no_user sample_conn_fields)
qed

theorem echo_returns_input_witness:
  "\<exists>w'. EchoServer_OnMessageCallback sample_env (sample_conn\<lparr>input_buffer :=
      \<lparr>buffer = [0, 0, 0, 0, 0, 0, 0, 0, 7, 9], reading_index = 8, writing_index = 10\<rparr>\<rparr>) = Inr w' \<and>
    accepted w' = [7, 9] \<and> contents (input_buffer w') = []"
proof -
  obtain w' where w': "EchoServer_OnMessageCallback sample_env (sample_conn\<lparr>input_buffer :=
      \<lparr>buffer = [0, 0, 0, 0, 0, 0, 0, 0, 7, 9], reading_index = 8, writing_index = 10\<rparr>\<rparr>) = Inr w'"
    by (rule sample_echo)
  from echo_returns_input [OF _ _ w'] w' show ?thesis
    by (simp add: sample_conn_fields io_buffer_ok_def contents_def kReservedCapacity_def vector_max_size_def)
qed

end
