(* ===== verification/Time_Tasks.thy ===== *)
theory Time_Tasks
  imports Taotu_Prelude "HOL-Library.Multiset"
begin

text \<open>
  Time points and the timer (\<^verbatim>\<open>src/src/time_point.h\<close>, \<^verbatim>\<open>src/src/time_point.cc\<close>,
  \<^verbatim>\<open>src/src/timer.h\<close>, \<^verbatim>\<open>src/src/timer.cc\<close>). Times are microseconds since the epoch (\<open>int64_t\<close>,
  far from its bounds); what the clock says is an argument. The multimap of the timer is the
  list of its entries in iteration order: an insertion goes behind the entries with the same
  key.

  The order on time points is the class \<open>preorder\<close>, since points with the same microseconds
  may differ in the rest. \<open>task_queue\<close> is the contract that the event manager relies on: no
  task is lost or run twice, and what is handed out is what is due, in the order of the
  deadlines and, for the same deadline, in the order of registration.
\<close>

section \<open>Time points\<close>

datatype 'c TimePoint =
  TimePoint (time_point_microseconds: int) (tp_context: int) (IsContinue: "'c option")

text \<open>The comparison operators; they make time points an instance of the library's preorders.\<close>

definition TimePoint_lt :: "'c TimePoint \<Rightarrow> 'c TimePoint \<Rightarrow> bool" where
  "TimePoint_lt a b \<longleftrightarrow> time_point_microseconds a < time_point_microseconds b"

definition TimePoint_le :: "'c TimePoint \<Rightarrow> 'c TimePoint \<Rightarrow> bool" where
  "TimePoint_le a b \<longleftrightarrow> time_point_microseconds a \<le> time_point_microseconds b"

instantiation TimePoint :: (type) preorder
begin

definition less_eq_TimePoint :: "'a TimePoint \<Rightarrow> 'a TimePoint \<Rightarrow> bool" where
  "less_eq_TimePoint = TimePoint_le"

definition less_TimePoint :: "'a TimePoint \<Rightarrow> 'a TimePoint \<Rightarrow> bool" where
  "less_TimePoint = TimePoint_lt"

instance
  by standard (auto simp: less_eq_TimePoint_def less_TimePoint_def TimePoint_le_def TimePoint_lt_def)

end

definition TimePoint_now :: "int \<Rightarrow> 'c TimePoint" where
  "TimePoint_now now = TimePoint now 0 None"

definition TimePoint_after :: "int \<Rightarrow> int \<Rightarrow> bool \<Rightarrow> 'c TimePoint" where
  "TimePoint_after now duration repeated =
     TimePoint (now + duration) (if repeated then duration else 0) None"

definition TimePoint_from :: "int \<Rightarrow> 'c TimePoint \<Rightarrow> bool \<Rightarrow> 'c TimePoint" where
  "TimePoint_from duration start repeated =
     TimePoint (time_point_microseconds start + duration) (if repeated then duration else 0) None"

definition GetMillisecond :: "'c TimePoint \<Rightarrow> int" where
  "GetMillisecond tp = trunc_div (time_point_microseconds tp) 1000"

definition SetTaskContinueCallback :: "'c option \<Rightarrow> 'c TimePoint \<Rightarrow> 'c TimePoint" where
  "SetTaskContinueCallback f tp =
     (if tp_context tp \<noteq> 0 then TimePoint (time_point_microseconds tp) (tp_context tp) f else tp)"

definition GetTaskContinueCallback :: "'c TimePoint \<Rightarrow> 'c option" where
  "GetTaskContinueCallback tp = (if tp_context tp \<noteq> 0 then IsContinue tp else None)"

definition FNow :: "int \<Rightarrow> int \<Rightarrow> int" where
  "FNow tv_sec tv_usec = tv_sec * 1000 * 1000 + tv_usec"


section \<open>The timer\<close>

type_synonym ('c, 't) time_points = "('c TimePoint \<times> 't) list"

text \<open>Insertion into the multimap: behind every entry that is not after the new one.\<close>

fun multimap_insert :: "'c TimePoint \<times> 't \<Rightarrow> ('c, 't) time_points \<Rightarrow> ('c, 't) time_points" where
  "multimap_insert x [] = [x]"
| "multimap_insert x (y # ys) =
     (if fst x < fst y then x # y # ys else y # multimap_insert x ys)"

definition AddTimeTask ::
  "'c TimePoint \<Rightarrow> 't \<Rightarrow> ('c, 't) time_points \<Rightarrow> ('c, 't) time_points" where
  "AddTimeTask time_point TimeTask tps = multimap_insert (time_point, TimeTask) tps"

definition GetMinTimeDuration :: "int \<Rightarrow> ('c, 't) time_points \<Rightarrow> int" where
  "GetMinTimeDuration now tps =
     (case tps of
        [] \<Rightarrow> 10000
      | tp # _ \<Rightarrow>
          let duration = to_int32 (GetMillisecond (fst tp) - GetMillisecond (TimePoint_now now :: 'c TimePoint))
          in if 0 < duration then duration else 0)"

text \<open>The loop over the front of the multimap and the erasure of what it passed.\<close>

fun expired_loop :: "'c TimePoint \<Rightarrow> ('c, 't) time_points \<Rightarrow>
    ('c, 't) time_points \<times> ('c, 't) time_points" where
  "expired_loop now [] = ([], [])"
| "expired_loop now (x # xs) =
     (if fst x \<le> now then case expired_loop now xs of (es, rest) \<Rightarrow> (x # es, rest)
      else ([], x # xs))"

definition GetExpiredTimeTasks ::
  "int \<Rightarrow> ('c, 't) time_points \<Rightarrow> ('c, 't) time_points \<times> ('c, 't) time_points" where
  "GetExpiredTimeTasks now tps = expired_loop (TimePoint_now now) tps"


section \<open>Order\<close>

abbreviation due :: "'c TimePoint \<times> 't \<Rightarrow> int" where
  "due x \<equiv> time_point_microseconds (fst x)"

definition timer_ok :: "('c, 't) time_points \<Rightarrow> bool" where
  "timer_ok tps = sorted (map due tps)"

lemmas TimePoint_order = less_eq_TimePoint_def less_TimePoint_def TimePoint_le_def TimePoint_lt_def TimePoint_now_def

lemma mset_multimap_insert: "mset (multimap_insert x ys) = add_mset x (mset ys)"
  by (induction ys) auto

lemma set_multimap_insert: "set (multimap_insert x ys) = insert x (set ys)"
  using mset_multimap_insert [of x ys] by (metis set_mset_add_mset_insert set_mset_mset)

lemma filter_multimap_insert:
  "sorted (map due ys) \<Longrightarrow>
   filter (\<lambda>z. k = due z) (multimap_insert x ys) = filter (\<lambda>z. k = due z) (ys @ [x])"
proof (induction ys)
  case (Cons y ys)
  show ?case
  proof (cases "fst x < fst y")
    case True
    have "filter (\<lambda>z. due x = due z) (y # ys) = []"
      using True Cons.prems by (auto simp: TimePoint_order filter_empty_conv)
    then show ?thesis using True by auto
  qed (use Cons in auto)
qed simp

lemma sorted_multimap_insert: "sorted (map due ys) \<Longrightarrow> sorted (map due (multimap_insert x ys))"
proof (induction ys)
  case (Cons y ys)
  then show ?case by (auto simp: TimePoint_order set_multimap_insert)
qed simp

lemma filter_same_key: "filter (\<lambda>x. k = f x) (sort_key f xs) = filter (\<lambda>x. k = f x) xs"
  using sort_key_stable [of f k xs] by (simp add: eq_commute)

text \<open>The timer sorts: adding to a sorted history is sorting the longer history, stably.\<close>

lemma AddTimeTask_sort:
  "AddTimeTask tp t (sort_key due h) = sort_key due (h @ [(tp, t)])"
proof -
  have s: "sorted (map due (sort_key due h))" by simp
  have "sort_key due (h @ [(tp, t)]) = multimap_insert (tp, t) (sort_key due h)"
    by (rule properties_for_sort_key)
      (simp_all add: mset_multimap_insert filter_multimap_insert [OF s]
        sorted_multimap_insert [OF s] filter_same_key)
  then show ?thesis by (simp add: AddTimeTask_def)
qed

lemma expired_loop_eq:
  "expired_loop now tps = (takeWhile (\<lambda>x. fst x \<le> now) tps, dropWhile (\<lambda>x. fst x \<le> now) tps)"
  by (induction tps) auto

lemma sorted_takeWhile_filter:
  "sorted (map due tps) \<Longrightarrow>
   takeWhile (\<lambda>x. fst x \<le> TimePoint_now now) tps = filter (\<lambda>x. due x \<le> now) tps"
proof (induction tps)
  case (Cons x xs)
  show ?case
  proof (cases "due x \<le> now")
    case False
    then have "filter (\<lambda>x. due x \<le> now) (x # xs) = []"
      using Cons.prems by (auto simp: filter_empty_conv)
    then show ?thesis using False by (simp add: TimePoint_order)
  qed (use Cons in \<open>auto simp: TimePoint_order\<close>)
qed simp

lemma sorted_dropWhile_filter:
  "sorted (map due tps) \<Longrightarrow>
   dropWhile (\<lambda>x. fst x \<le> TimePoint_now now) tps = filter (\<lambda>x. now < due x) tps"
proof (induction tps)
  case (Cons x xs)
  show ?case
  proof (cases "due x \<le> now")
    case False
    then have "filter (\<lambda>x. now < due x) (x # xs) = x # xs"
      using Cons.prems by (intro filter_True) fastforce
    then show ?thesis using False by (simp add: TimePoint_order)
  qed (use Cons in \<open>auto simp: TimePoint_order\<close>)
qed simp

lemma GetExpiredTimeTasks_eq:
  assumes "timer_ok tps"
  shows "GetExpiredTimeTasks now tps =
    (filter (\<lambda>x. due x \<le> now) tps, filter (\<lambda>x. now < due x) tps)"
  using assms
  by (simp add: GetExpiredTimeTasks_def expired_loop_eq timer_ok_def sorted_takeWhile_filter
      sorted_dropWhile_filter)


section \<open>The contract of a queue of time tasks\<close>

datatype ('k, 't) task_op =
    Add 'k 't
  | Expire int

text \<open>A history of registrations and expirations: what was handed out, and the final queue.\<close>

fun run_tasks ::
  "('k \<Rightarrow> 't \<Rightarrow> 'q \<Rightarrow> 'q) \<Rightarrow> (int \<Rightarrow> 'q \<Rightarrow> ('k \<times> 't) list \<times> 'q) \<Rightarrow>
   ('k, 't) task_op list \<Rightarrow> 'q \<Rightarrow> ('k \<times> 't) list \<times> 'q"
where
  "run_tasks add expire [] q = ([], q)"
| "run_tasks add expire (Add k t # ops) q = run_tasks add expire ops (add k t q)"
| "run_tasks add expire (Expire now # ops) q =
     (case expire now q of (es, q') \<Rightarrow>
        case run_tasks add expire ops q' of (es', q'') \<Rightarrow> (es @ es', q''))"

fun added :: "('k, 't) task_op list \<Rightarrow> ('k \<times> 't) list" where
  "added [] = []"
| "added (Add k t # ops) = (k, t) # added ops"
| "added (Expire now # ops) = added ops"

locale task_queue =
  fixes add :: "'k \<Rightarrow> 't \<Rightarrow> 'q \<Rightarrow> 'q"
    and expire :: "int \<Rightarrow> 'q \<Rightarrow> ('k \<times> 't) list \<times> 'q"
    and pending :: "'q \<Rightarrow> ('k \<times> 't) list"
    and ok :: "'q \<Rightarrow> bool"
    and deadline :: "'k \<times> 't \<Rightarrow> int"
  assumes add_ok: "ok q \<Longrightarrow> ok (add k t q)"
    and add_pending: "ok q \<Longrightarrow> mset (pending (add k t q)) = add_mset (k, t) (mset (pending q))"
    and expire_ok: "ok q \<Longrightarrow> expire now q = (es, q') \<Longrightarrow> ok q'"
    and expire_pending:
      "ok q \<Longrightarrow> expire now q = (es, q') \<Longrightarrow> mset es + mset (pending q') = mset (pending q)"
    and expire_due: "ok q \<Longrightarrow> expire now q = (es, q') \<Longrightarrow> x \<in> set es \<Longrightarrow> deadline x \<le> now"
    and expire_rest:
      "ok q \<Longrightarrow> expire now q = (es, q') \<Longrightarrow> x \<in> set (pending q') \<Longrightarrow> now < deadline x"
begin

lemma run_conserves:
  "ok q \<Longrightarrow> run_tasks add expire ops q = (es, q') \<Longrightarrow>
   ok q' \<and> mset es + mset (pending q') = mset (added ops) + mset (pending q)"
proof (induction ops arbitrary: q es)
  case (Cons op ops)
  show ?case
  proof (cases op)
    case (Add k t)
    then show ?thesis using Cons add_ok add_pending by fastforce
  next
    case (Expire now)
    obtain e1 q1 e2 where e: "expire now q = (e1, q1)" "run_tasks add expire ops q1 = (e2, q')"
      "es = e1 @ e2" using Cons.prems(2) Expire by (auto split: prod.splits)
    from Cons.IH [OF expire_ok [OF Cons.prems(1) e(1)] e(2)] expire_pending [OF Cons.prems(1) e(1)]
    show ?thesis
      by (simp add: Expire e(3)) (metis add.assoc add.commute)
  qed
qed simp

text \<open>A last expiration leaves nothing that is due: every task due by then has been handed out.\<close>

lemma run_complete:
  assumes "ok q" and "run_tasks add expire ops q = (es, q')" and "expire now q' = (es', q'')"
    and "x \<in> set (added ops)" and "deadline x \<le> now"
  shows "x \<in> set (es @ es')"
proof -
  note c = run_conserves [OF assms(1,2)]
  then have ok': "ok q'" by simp
  have "x \<in># mset es + (mset es' + mset (pending q''))"
    using c assms(4) expire_pending [OF ok' assms(3)] by (metis in_multiset_in_set union_iff)
  moreover have "x \<notin> set (pending q'')" using expire_rest [OF ok' assms(3)] assms(5) by fastforce
  ultimately show ?thesis by auto
qed

end

lemma timer_ok_add: "timer_ok tps \<Longrightarrow> timer_ok (AddTimeTask tp t tps)"
  by (simp add: timer_ok_def AddTimeTask_def sorted_multimap_insert)

lemma timer_ok_filter: "timer_ok tps \<Longrightarrow> timer_ok (filter P tps)"
  by (simp add: timer_ok_def sorted_filter)

interpretation timer: task_queue AddTimeTask GetExpiredTimeTasks "\<lambda>tps. tps" timer_ok due
proof unfold_locales
  show "mset (AddTimeTask k t q) = add_mset (k, t) (mset q)" for q k and t :: 'b
    by (simp add: AddTimeTask_def mset_multimap_insert)
  show "mset es + mset q' = mset q" if "timer_ok q" "GetExpiredTimeTasks now q = (es, q')"
    for q q' es :: "('a, 'b) time_points" and now
    using that multiset_partition [of "mset q" "\<lambda>x. due x \<le> now"]
    by (auto simp: GetExpiredTimeTasks_eq not_le)
qed (auto simp: timer_ok_add GetExpiredTimeTasks_eq timer_ok_filter)


section \<open>Correctness\<close>

lemma fold_AddTimeTask: "fold (\<lambda>(tp, t). AddTimeTask tp t) h (sort_key due g) = sort_key due (g @ h)"
proof (induction h arbitrary: g)
  case (Cons x h)
  then show ?case by (cases x) (simp add: AddTimeTask_sort)
qed simp

text \<open>
  What expires: after any registrations \<open>h\<close>, the tasks handed out are exactly those whose
  deadline is not after the clock, by deadline and, for the same deadline, in the order in which
  they were registered; the others stay, in the same order.
\<close>

theorem GetExpiredTimeTasks_exact:
  "GetExpiredTimeTasks now (fold (\<lambda>(tp, t). AddTimeTask tp t) h []) =
   (sort_key due (filter (\<lambda>x. due x \<le> now) h), sort_key due (filter (\<lambda>x. now < due x) h))"
proof -
  have "fold (\<lambda>(tp, t). AddTimeTask tp t) h [] = sort_key due h"
    using fold_AddTimeTask [of h "[]"] by simp
  moreover have "timer_ok (sort_key due h)" by (simp add: timer_ok_def)
  ultimately show ?thesis by (simp add: GetExpiredTimeTasks_eq filter_sort)
qed

text \<open>
  C23. No task is lost and none is run twice: over any sequence of registrations and expirations,
  what was handed out together with what is pending is what was registered; and once the
  timer is asked at a time \<open>now\<close>, every task due by then has been handed out.
\<close>

theorem timer_conserves:
  assumes "run_tasks AddTimeTask GetExpiredTimeTasks ops [] = (es, tps)"
    and "GetExpiredTimeTasks now tps = (es', tps')"
  shows "mset es + mset tps = mset (added ops) \<and>
    (\<forall>x \<in> set (added ops). time_point_microseconds (fst x) \<le> now \<longrightarrow> x \<in> set (es @ es'))"
proof -
  have ok: "timer_ok []" by (simp add: timer_ok_def)
  show ?thesis
    using timer.run_conserves [OF ok assms(1)] timer.run_complete [OF ok assms] by auto
qed

theorem timer_conserves_witness:
  "mset [(TimePoint 5 0 None, ''a''), (TimePoint 7 0 None, ''b'')] +
     mset [(TimePoint 9 0 (None :: unit option), ''c'')] =
   mset (added [Add (TimePoint 7 0 None) ''b'', Add (TimePoint 5 0 None) ''a'', Expire 6,
     Add (TimePoint 9 0 None) ''c'', Expire 8])"
  using timer_conserves [of "[Add (TimePoint 7 0 None) ''b'', Add (TimePoint 5 0 None) ''a'', Expire 6,
     Add (TimePoint 9 0 None) ''c'', Expire 8]"
      "[(TimePoint 5 0 None, ''a''), (TimePoint 7 0 None, ''b'')]" "[(TimePoint 9 0 (None :: unit option), ''c'')]"
      0 "[]" "[(TimePoint 9 0 None, ''c'')]"]
  by (simp add: AddTimeTask_def GetExpiredTimeTasks_def TimePoint_order)



end
