(* ===== verification/Event_Loop.thy ===== *)
theory Event_Loop
  imports Time_Tasks Connection_Run "HOL-Library.AList"
begin

text \<open>
  The event manager (\<^verbatim>\<open>src/src/event_manager.h\<close>, \<^verbatim>\<open>src/src/event_manager.cc\<close>): time tasks, the
  connections of a loop, the wake-up descriptor and the loop itself.

  The clock is a function of the number of times it has been read. A time task is a value of type
  \<open>'t\<close> and a condition of a periodic task one of type \<open>'c\<close>; what they do is given by the
  arguments \<open>run\<close> and \<open>cont\<close>; a task that fails leaves its error in \<open>task_error\<close>. What
  polling and the active eventers do in a round is a list of handlers of connections. The connections
  that are destroyed are kept in \<open>destroyed\<close>, in order; the map of the connections and the set of
  closed descriptors are lists, in the order of their traversal. The locks are not modelled: every
  operation here runs in the thread of the loop or is a single locked insertion.
\<close>

section \<open>State\<close>

record ('c, 't) event_manager =
  em_timer :: "('c, 't) time_points"
  connection_map :: "(int \<times> connecting) list"
  em_closed_fds :: "int list"
  destroyed :: "connecting list"
  wake_up_counter :: nat
  should_quit :: bool
  clock_reads :: nat
  task_error :: "cpp_error option"

type_synonym clock = "nat \<Rightarrow> int"

definition read_clock :: "clock \<Rightarrow> ('c, 't) event_manager \<Rightarrow> int \<times> ('c, 't) event_manager" where
  "read_clock clock em = (clock (clock_reads em), em\<lparr>clock_reads := clock_reads em + 1\<rparr>)"

definition EventManager :: "('c, 't) event_manager" where
  "EventManager = \<lparr>em_timer = [], connection_map = [], em_closed_fds = [], destroyed = [],
     wake_up_counter = 0, should_quit = False, clock_reads = 0, task_error = None\<rparr>"


section \<open>Waking up\<close>

text \<open>
  The descriptor is an \<open>eventfd\<close>: a write adds to its counter, a read of 8 bytes takes the
  counter, and when it is zero a read fails with \<open>EAGAIN\<close>.
\<close>

definition eventfd_read :: "nat \<Rightarrow> int \<times> int \<times> nat" where
  "eventfd_read n = (if n = 0 then (- 1, EAGAIN, 0) else (8, 0, 0))"

definition WakeUp :: "('c, 't) event_manager \<Rightarrow> ('c, 't) event_manager" where
  "WakeUp em = em\<lparr>wake_up_counter := wake_up_counter em + 1\<rparr>"

text \<open>The read callback of the wake-up eventer.\<close>

function drain_wake_up :: "nat \<Rightarrow> nat" where
  "drain_wake_up n =
     (case eventfd_read n of (r, errno, n') \<Rightarrow> if r = 8 then drain_wake_up n' else n')"
  by auto
termination
  by (relation "measure (\<lambda>n. n)") (auto simp: eventfd_read_def split: if_splits)

definition OnWakeUp :: "('c, 't) event_manager \<Rightarrow> ('c, 't) event_manager" where
  "OnWakeUp em = em\<lparr>wake_up_counter := drain_wake_up (wake_up_counter em)\<rparr>"

definition Quit :: "('c, 't) event_manager \<Rightarrow> ('c, 't) event_manager" where
  "Quit em = WakeUp (em\<lparr>should_quit := True\<rparr>)"


section \<open>Time tasks\<close>

text \<open>
  The end of every registration: the loop is woken up when the new task may be the next one. Both
  sides of the comparison read the clock.
\<close>

definition add_task ::
  "clock \<Rightarrow> 'c TimePoint \<Rightarrow> 'c TimePoint \<Rightarrow> 't \<Rightarrow> ('c, 't) event_manager \<Rightarrow> ('c, 't) event_manager" where
  "add_task clock time_point tmp_time_point task em =
     (let em1 = em\<lparr>em_timer := AddTimeTask time_point task (em_timer em)\<rparr>
      in case read_clock clock em1 of (now1, em2) \<Rightarrow>
         case read_clock clock em2 of (now2, em3) \<Rightarrow>
           if to_int32 (GetMillisecond tmp_time_point - GetMillisecond (TimePoint_now now2 :: 'c TimePoint))
                \<le> GetMinTimeDuration now1 (em_timer em1)
           then WakeUp em3 else em3)"

definition RunAt :: "clock \<Rightarrow> 'c TimePoint \<Rightarrow> 't \<Rightarrow> ('c, 't) event_manager \<Rightarrow> ('c, 't) event_manager" where
  "RunAt clock time_point task em = add_task clock time_point time_point task em"

definition RunAfter :: "clock \<Rightarrow> int \<Rightarrow> 't \<Rightarrow> ('c, 't) event_manager \<Rightarrow> ('c, 't) event_manager" where
  "RunAfter clock delay_microseconds task em =
     (case read_clock clock em of (now, em1) \<Rightarrow>
        let tp = TimePoint_after now delay_microseconds False in add_task clock tp tp task em1)"

definition RunEveryUntil ::
  "clock \<Rightarrow> int \<Rightarrow> 't \<Rightarrow> 'c TimePoint \<Rightarrow> 'c option \<Rightarrow> ('c, 't) event_manager \<Rightarrow> ('c, 't) event_manager" where
  "RunEveryUntil clock interval_microseconds task start is_continue em =
     (let tp = TimePoint_from interval_microseconds start True;
          tp' = (if is_continue \<noteq> None then SetTaskContinueCallback is_continue tp else tp)
      in add_task clock tp' tp task em)"

text \<open>
  The default argument for the start, \<open>TimePoint(TimePoint::FNow())\<close>: a duration of \<open>FNow()\<close>
  from the moment at which the constructor reads the clock again.
\<close>

definition default_start :: "clock \<Rightarrow> ('c, 't) event_manager \<Rightarrow> 'c TimePoint \<times> ('c, 't) event_manager" where
  "default_start clock em =
     (case read_clock clock em of (d, em1) \<Rightarrow> case read_clock clock em1 of (now, em2) \<Rightarrow>
        (TimePoint_after now d False, em2))"

definition RunSoon :: "clock \<Rightarrow> 't \<Rightarrow> ('c, 't) event_manager \<Rightarrow> ('c, 't) event_manager" where
  "RunSoon clock task em =
     (case read_clock clock em of (now, em1) \<Rightarrow>
        WakeUp (em1\<lparr>em_timer := AddTimeTask (TimePoint_now now) task (em_timer em1)\<rparr>))"

text \<open>What one expired task does: it runs, and a periodic one registers itself again.\<close>

definition run_expired ::
  "clock \<Rightarrow> ('t \<Rightarrow> ('c, 't) event_manager \<Rightarrow> ('c, 't) event_manager) \<Rightarrow>
   ('c \<Rightarrow> ('c, 't) event_manager \<Rightarrow> bool \<times> ('c, 't) event_manager) \<Rightarrow> 'c TimePoint \<Rightarrow>
   'c TimePoint \<times> 't \<Rightarrow> ('c, 't) event_manager \<Rightarrow> ('c, 't) event_manager" where
  "run_expired clock run cont return_time x em =
     (let em1 = run (snd x) em
      in if tp_context (fst x) \<noteq> 0
         then (case GetTaskContinueCallback (fst x) of
                 Some f \<Rightarrow>
                   (case cont f em1 of (b, em2) \<Rightarrow>
                      if b then RunEveryUntil clock (tp_context (fst x)) (snd x) return_time (Some f) em2 else em2)
               | None \<Rightarrow> RunEveryUntil clock (tp_context (fst x)) (snd x) return_time None em1)
         else em1)"

definition DoExpiredTimeTasks ::
  "clock \<Rightarrow> ('t \<Rightarrow> ('c, 't) event_manager \<Rightarrow> ('c, 't) event_manager) \<Rightarrow>
   ('c \<Rightarrow> ('c, 't) event_manager \<Rightarrow> bool \<times> ('c, 't) event_manager) \<Rightarrow> 'c TimePoint \<Rightarrow>
   ('c, 't) event_manager \<Rightarrow> ('c, 't) event_manager" where
  "DoExpiredTimeTasks clock run cont return_time em =
     (case read_clock clock em of (now, em1) \<Rightarrow>
        case GetExpiredTimeTasks now (em_timer em1) of (expired, rest) \<Rightarrow>
          fold (run_expired clock run cont return_time) expired (em1\<lparr>em_timer := rest\<rparr>))"


section \<open>Connections\<close>

definition GetEventerAmount :: "('c, 't) event_manager \<Rightarrow> nat" where
  "GetEventerAmount em = length (connection_map em) mod 2 ^ 32"

definition insert_fd :: "int \<Rightarrow> int list \<Rightarrow> int list" where
  "insert_fd fd fds = (if fd \<in> set fds then fds else fds @ [fd])"

text \<open>A new connection takes the place of one with the same descriptor, which is destroyed.\<close>

definition InsertNewConnection :: "int \<Rightarrow> connecting \<Rightarrow> ('c, 't) event_manager \<Rightarrow> ('c, 't) event_manager" where
  "InsertNewConnection socket_fd conn em =
     em\<lparr>connection_map := AList.update socket_fd conn (connection_map em),
        destroyed := destroyed em @ (case map_of (connection_map em) socket_fd of None \<Rightarrow> [] | Some old \<Rightarrow> [old])\<rparr>"

text \<open>
  A handler of the connection with descriptor \<open>fd\<close>: what it passes to \<open>DeleteConnection\<close> (the
  field \<open>closed_fds\<close> of the connection) goes into the set of the event manager.
\<close>

definition on_connection :: "int \<times> conn_cb \<Rightarrow> ('c, 't) event_manager \<Rightarrow> ('c, 't) event_manager res" where
  "on_connection x em =
     (case map_of (connection_map em) (fst x) of
        None \<Rightarrow> Inr em
      | Some w \<Rightarrow>
          res_bind (snd x w) (\<lambda>w'.
            Inr (em\<lparr>connection_map := AList.update (fst x) (w'\<lparr>closed_fds := {}\<rparr>) (connection_map em),
                    em_closed_fds := fold insert_fd (sorted_list_of_set (closed_fds w')) (em_closed_fds em)\<rparr>)))"

fun DoWithActiveTasks :: "(int \<times> conn_cb) list \<Rightarrow> ('c, 't) event_manager \<Rightarrow> ('c, 't) event_manager res" where
  "DoWithActiveTasks [] em = Inr em"
| "DoWithActiveTasks (x # xs) em = res_bind (on_connection x em) (DoWithActiveTasks xs)"

definition kMaxPendingIoRetries :: int where
  "kMaxPendingIoRetries = 1000"

definition kMaxPendingIoTimeoutMs :: int where
  "kMaxPendingIoTimeoutMs = 2000"

text \<open>One descriptor of the closed ones; the result says whether it remains.\<close>

definition destroy_closed :: "int \<Rightarrow> ('c, 't) event_manager \<Rightarrow> bool \<times> ('c, 't) event_manager" where
  "destroy_closed fd em =
     (case map_of (connection_map em) fd of
        None \<Rightarrow> (False, em)
      | Some w \<Rightarrow>
          if IsDisconnected w
          then if HasPendingIo w \<and> pending_io_retries w < kMaxPendingIoRetries \<and>
                  pending_io_wait_ms w < kMaxPendingIoTimeoutMs
               then (True, em\<lparr>connection_map := AList.update fd (BumpPendingIoWait 1 w) (connection_map em)\<rparr>)
               else (False, em\<lparr>connection_map := AList.delete fd (connection_map em), destroyed := destroyed em @ [w]\<rparr>)
          else (False, em))"

fun destroy_loop :: "int list \<Rightarrow> int list \<Rightarrow> ('c, 't) event_manager \<Rightarrow> int list \<times> ('c, 't) event_manager" where
  "destroy_loop [] remaining em = (remaining, em)"
| "destroy_loop (fd # fds) remaining em =
     (case destroy_closed fd em of (keep, em1) \<Rightarrow>
        destroy_loop fds (if keep then insert_fd fd remaining else remaining) em1)"

definition DestroyClosedConnections :: "('c, 't) event_manager \<Rightarrow> ('c, 't) event_manager" where
  "DestroyClosedConnections em =
     (case destroy_loop (em_closed_fds em) [] em of (remaining, em1) \<Rightarrow> em1\<lparr>em_closed_fds := remaining\<rparr>)"


section \<open>The loop\<close>

text \<open>
  One round: what polling and the active eventers do, then the time tasks, then the closed
  connections. The return time of \<open>Poll\<close> is a reading of the clock.
\<close>

definition loop_round ::
  "clock \<Rightarrow> ('t \<Rightarrow> ('c, 't) event_manager \<Rightarrow> ('c, 't) event_manager) \<Rightarrow>
   ('c \<Rightarrow> ('c, 't) event_manager \<Rightarrow> bool \<times> ('c, 't) event_manager) \<Rightarrow> (int \<times> conn_cb) list \<Rightarrow>
   ('c, 't) event_manager \<Rightarrow> ('c, 't) event_manager res" where
  "loop_round clock run cont events em =
     (case read_clock clock em of (now, em1) \<Rightarrow>
        res_bind (DoWithActiveTasks events em1) (\<lambda>em2.
          Inr (DestroyClosedConnections (DoExpiredTimeTasks clock run cont (TimePoint_now now) em2))))"

text \<open>
  The loop, for the rounds that the environment supplies: it ends when it is told to quit. \<open>None\<close>
  says that it is still running.
\<close>

fun event_loop ::
  "clock \<Rightarrow> ('t \<Rightarrow> ('c, 't) event_manager \<Rightarrow> ('c, 't) event_manager) \<Rightarrow>
   ('c \<Rightarrow> ('c, 't) event_manager \<Rightarrow> bool \<times> ('c, 't) event_manager) \<Rightarrow> (int \<times> conn_cb) list list \<Rightarrow>
   ('c, 't) event_manager \<Rightarrow> ('c, 't) event_manager res option" where
  "event_loop clock run cont [] em = (if should_quit em then Some (Inr em) else None)"
| "event_loop clock run cont (events # rounds) em =
     (if should_quit em then Some (Inr em)
      else case loop_round clock run cont events em of
             Inl e \<Rightarrow> Some (Inl e)
           | Inr em1 \<Rightarrow> event_loop clock run cont rounds em1)"

text \<open>Every connection is closed by force, in the order of the map.\<close>

definition close_all ::
  "uring_env \<Rightarrow> conn_user \<Rightarrow> ('c, 't) event_manager \<Rightarrow> ('c, 't) event_manager res" where
  "close_all env u em = DoWithActiveTasks (map (\<lambda>x. (fst x, ForceClose env u)) (connection_map em)) em"

text \<open>The second loop of \<open>Start\<close>: until there are neither connections nor closed descriptors.\<close>

fun drain_loop :: "(int \<times> conn_cb) list list \<Rightarrow> ('c, 't) event_manager \<Rightarrow> ('c, 't) event_manager res option" where
  "drain_loop [] em =
     (if connection_map em = [] \<and> em_closed_fds em = [] then Some (Inr em) else None)"
| "drain_loop (events # rounds) em =
     (if connection_map em = [] \<and> em_closed_fds em = [] then Some (Inr em)
      else case DoWithActiveTasks events em of
             Inl e \<Rightarrow> Some (Inl e)
           | Inr em1 \<Rightarrow> drain_loop rounds (DestroyClosedConnections em1))"

definition Start ::
  "clock \<Rightarrow> ('t \<Rightarrow> ('c, 't) event_manager \<Rightarrow> ('c, 't) event_manager) \<Rightarrow>
   ('c \<Rightarrow> ('c, 't) event_manager \<Rightarrow> bool \<times> ('c, 't) event_manager) \<Rightarrow> uring_env \<Rightarrow> conn_user \<Rightarrow>
   (int \<times> conn_cb) list list \<Rightarrow> (int \<times> conn_cb) list list \<Rightarrow>
   ('c, 't) event_manager \<Rightarrow> ('c, 't) event_manager res option" where
  "Start clock run cont env u rounds drains em =
     (case event_loop clock run cont rounds (em\<lparr>should_quit := False\<rparr>) of
        None \<Rightarrow> None
      | Some (Inl e) \<Rightarrow> Some (Inl e)
      | Some (Inr em1) \<Rightarrow>
          (case close_all env u em1 of
             Inl e \<Rightarrow> Some (Inl e)
           | Inr em2 \<Rightarrow> drain_loop drains em2))"

end
