(* ===== verification/Loop_Safety.thy ===== *)
theory Loop_Safety
  imports Event_Loop Connection_Theorems
begin

text \<open>
  What the event manager does with its connections: closed ones are destroyed exactly once, those
  with I/O pending after a bounded number of rounds, and the loop that ends the event manager
  terminates with every connection destroyed. And what it does with time tasks: periodic tasks are
  registered again, and the loop is woken up for a task that comes first.
\<close>

section \<open>One round of destruction\<close>

abbreviation conns :: "('c, 't) event_manager \<Rightarrow> int \<rightharpoonup> connecting" where
  "conns em \<equiv> map_of (connection_map em)"

definition waiting :: "connecting \<Rightarrow> bool" where
  "waiting w \<longleftrightarrow> HasPendingIo w \<and> pending_io_retries w < kMaxPendingIoRetries \<and>
     pending_io_wait_ms w < kMaxPendingIoTimeoutMs"

text \<open>What becomes of a connection whose descriptor is among the closed ones.\<close>

definition after_round :: "connecting \<Rightarrow> connecting option" where
  "after_round w =
     (if \<not> IsDisconnected w then Some w else if waiting w then Some (BumpPendingIoWait 1 w) else None)"

definition doomed :: "('c, 't) event_manager \<Rightarrow> int \<Rightarrow> bool" where
  "doomed em fd \<longleftrightarrow> (\<exists>w. conns em fd = Some w \<and> after_round w = None)"

definition kept :: "('c, 't) event_manager \<Rightarrow> int \<Rightarrow> bool" where
  "kept em fd \<longleftrightarrow> (\<exists>w. conns em fd = Some w \<and> IsDisconnected w \<and> waiting w)"

lemmas map_of_simps = update_conv' delete_conv'

lemma destroy_closed_eq:
  "conns (snd (destroy_closed fd em)) = (conns em)(fd := Option.bind (conns em fd) after_round)"
  "fst (destroy_closed fd em) = kept em fd"
  "destroyed (snd (destroy_closed fd em)) = destroyed em @ (if doomed em fd then [the (conns em fd)] else [])"
  "em_timer (snd (destroy_closed fd em)) = em_timer em"
  by (auto simp: destroy_closed_def kept_def doomed_def after_round_def waiting_def map_of_simps
      fun_upd_idem split: option.splits)

lemma set_insert_fd [simp]: "set (insert_fd fd fds) = insert fd (set fds)"
  by (auto simp: insert_fd_def)

lemma distinct_insert_fd [simp]: "distinct (insert_fd fd fds) = distinct fds"
  by (simp add: insert_fd_def)

lemma destroy_loop_eq:
  assumes "distinct fds" and "destroy_loop fds remaining em = (remaining', em')"
  shows "conns em' = (\<lambda>fd. if fd \<in> set fds then Option.bind (conns em fd) after_round else conns em fd) \<and>
    set remaining' = set remaining \<union> {fd \<in> set fds. kept em fd} \<and> (distinct remaining \<longrightarrow> distinct remaining') \<and>
    destroyed em' = destroyed em @ map (\<lambda>fd. the (conns em fd)) (filter (doomed em) fds) \<and>
    em_timer em' = em_timer em"
  using assms
proof (induction fds arbitrary: remaining em)
  case (Cons fd fds)
  let ?em = "snd (destroy_closed fd em)"
  have step: "destroy_loop fds (if kept em fd then insert_fd fd remaining else remaining) ?em = (remaining', em')"
    using Cons.prems(2) by (simp add: case_prod_beta destroy_closed_eq(2))
  have fd: "fd \<notin> set fds" "distinct fds" using Cons.prems(1) by simp_all
  have same: "conns ?em x = conns em x" if "x \<in> set fds" for x
    using that fd(1) by (auto simp: destroy_closed_eq(1))
  then have k: "kept ?em x = kept em x" "doomed ?em x = doomed em x" if "x \<in> set fds" for x
    using that by (simp_all add: kept_def doomed_def)
  have lists: "map (\<lambda>fd. the (conns ?em fd)) (filter (doomed ?em) fds) = map (\<lambda>fd. the (conns em fd)) (filter (doomed em) fds)"
    using same k(2) by (auto cong: filter_cong)
  note IH = Cons.IH [OF fd(2) step]
  show ?case
  proof (intro conjI)
    show "conns em' = (\<lambda>x. if x \<in> set (fd # fds) then Option.bind (conns em x) after_round else conns em x)"
      using IH same fd(1) by (auto simp: fun_eq_iff destroy_closed_eq(1))
    show "set remaining' = set remaining \<union> {x \<in> set (fd # fds). kept em x}"
      using IH k(1) by auto
    show "destroyed em' = destroyed em @ map (\<lambda>fd. the (conns em fd)) (filter (doomed em) (fd # fds))"
      using IH lists by (simp add: destroy_closed_eq(3))
  qed (use IH in \<open>simp_all add: destroy_closed_eq\<close>)
qed simp

lemma DestroyClosed_eq:
  assumes "distinct (em_closed_fds em)"
  shows "conns (DestroyClosedConnections em) =
      (\<lambda>fd. if fd \<in> set (em_closed_fds em) then Option.bind (conns em fd) after_round else conns em fd)"
    "set (em_closed_fds (DestroyClosedConnections em)) = {fd \<in> set (em_closed_fds em). kept em fd}"
    "distinct (em_closed_fds (DestroyClosedConnections em))"
    "destroyed (DestroyClosedConnections em) =
      destroyed em @ map (\<lambda>fd. the (conns em fd)) (filter (doomed em) (em_closed_fds em))"
    "em_timer (DestroyClosedConnections em) = em_timer em"
proof -
  obtain r em' where r: "destroy_loop (em_closed_fds em) [] em = (r, em')" by fastforce
  note e = destroy_loop_eq [OF assms r]
  have d: "DestroyClosedConnections em = em'\<lparr>em_closed_fds := r\<rparr>"
    by (simp add: DestroyClosedConnections_def r)
  show "conns (DestroyClosedConnections em) =
      (\<lambda>fd. if fd \<in> set (em_closed_fds em) then Option.bind (conns em fd) after_round else conns em fd)"
    "set (em_closed_fds (DestroyClosedConnections em)) = {fd \<in> set (em_closed_fds em). kept em fd}"
    "distinct (em_closed_fds (DestroyClosedConnections em))"
    "destroyed (DestroyClosedConnections em) =
      destroyed em @ map (\<lambda>fd. the (conns em fd)) (filter (doomed em) (em_closed_fds em))"
    "em_timer (DestroyClosedConnections em) = em_timer em"
    using e by (simp_all add: d)
qed


section \<open>Closed connections are tracked\<close>

text \<open>
  Every connection is in the map under its own descriptor, and the descriptor of every disconnected
  one is among the closed ones: it will be destroyed.
\<close>

definition tracked :: "('c, 't) event_manager \<Rightarrow> bool" where
  "tracked em \<longleftrightarrow> distinct (em_closed_fds em) \<and>
     (\<forall>fd w. conns em fd = Some w \<longrightarrow> ev_fd w = fd \<and> closed_fds w = {} \<and> 0 \<le> pending_io_retries w \<and>
        (IsDisconnected w \<longrightarrow> fd \<in> set (em_closed_fds em)))"

text \<open>A handler that tells the event manager when it closes its connection.\<close>

definition handler_ok :: "conn_cb \<Rightarrow> bool" where
  "handler_ok f \<longleftrightarrow> (\<forall>w w'. f w = Inr w' \<longrightarrow>
     ev_fd w' = ev_fd w \<and> pending_io_retries w' = pending_io_retries w \<and>
     closed_fds w' \<subseteq> insert (ev_fd w) (closed_fds w) \<and>
     (IsDisconnected w' \<longrightarrow> IsDisconnected w \<or> ev_fd w \<in> closed_fds w'))"

lemma handler_okD:
  assumes "handler_ok f" and "f w = Inr w'"
  shows "ev_fd w' = ev_fd w" "closed_fds w' \<subseteq> insert (ev_fd w) (closed_fds w)"
    "IsDisconnected w' \<Longrightarrow> IsDisconnected w \<or> ev_fd w \<in> closed_fds w'"
    "pending_io_retries w' = pending_io_retries w"
  using assms by (simp_all add: handler_ok_def)

lemma fold_insert_fd:
  "distinct (fold insert_fd xs fds) = distinct fds" "set (fold insert_fd xs fds) = set xs \<union> set fds"
  by (induction xs arbitrary: fds) auto

lemma on_connection_tracked:
  assumes t: "tracked em" and f: "handler_ok (snd x)" and r: "on_connection x em = Inr em'"
  shows "tracked em'" "dom (conns em') = dom (conns em)" "destroyed em' = destroyed em"
    "set (em_closed_fds em') \<subseteq> insert (fst x) (set (em_closed_fds em)) \<and> set (em_closed_fds em) \<subseteq> set (em_closed_fds em')"
    "fst x \<notin> dom (conns em) \<Longrightarrow> em' = em"
    "conns em' = (conns em)(fst x := conns em' (fst x))"
    "\<And>w'. conns em' (fst x) = Some w' \<Longrightarrow>
      \<exists>w v. conns em (fst x) = Some w \<and> snd x w = Inr v \<and> w' = v\<lparr>closed_fds := {}\<rparr>"
proof -
  have "tracked em' \<and> dom (conns em') = dom (conns em) \<and> destroyed em' = destroyed em \<and>
    set (em_closed_fds em') \<subseteq> insert (fst x) (set (em_closed_fds em)) \<and> set (em_closed_fds em) \<subseteq> set (em_closed_fds em') \<and>
    (fst x \<notin> dom (conns em) \<longrightarrow> em' = em) \<and> conns em' = (conns em)(fst x := conns em' (fst x)) \<and>
    (\<forall>w'. conns em' (fst x) = Some w' \<longrightarrow>
      (\<exists>w v. conns em (fst x) = Some w \<and> snd x w = Inr v \<and> w' = v\<lparr>closed_fds := {}\<rparr>))"
  proof (cases "conns em (fst x)")
    case None
    then show ?thesis using t r by (auto simp: on_connection_def)
  next
    case (Some w)
    obtain v where v: "snd x w = Inr v"
      "em' = em\<lparr>connection_map := AList.update (fst x) (v\<lparr>closed_fds := {}\<rparr>) (connection_map em),
         em_closed_fds := fold insert_fd (sorted_list_of_set (closed_fds v)) (em_closed_fds em)\<rparr>"
      using r Some by (auto simp: on_connection_def res_bind_Inr_iff)
    have w: "ev_fd w = fst x" "closed_fds w = {}" "IsDisconnected w \<Longrightarrow> fst x \<in> set (em_closed_fds em)"
      "0 \<le> pending_io_retries w"
      using t Some by (simp_all add: tracked_def)
    have h: "ev_fd v = fst x" "closed_fds v \<subseteq> {fst x}" "IsDisconnected v \<Longrightarrow> IsDisconnected w \<or> fst x \<in> closed_fds v"
      "0 \<le> pending_io_retries v"
      using handler_okD [OF f v(1)] w(1,2,4) by simp_all
    have fin: "set (sorted_list_of_set (closed_fds v)) = closed_fds v"
      using h(2) finite_subset by fastforce
    have c: "conns em' = (conns em)(fst x \<mapsto> v\<lparr>closed_fds := {}\<rparr>)"
      "set (em_closed_fds em') = closed_fds v \<union> set (em_closed_fds em)"
      "distinct (em_closed_fds em')" "destroyed em' = destroyed em"
      using t by (simp_all add: v(2) map_of_simps fold_insert_fd fin tracked_def)
    have d: "IsDisconnected (v\<lparr>closed_fds := {}\<rparr>) = IsDisconnected v" by (simp add: IsDisconnected_def)
    have "tracked em'"
      using t h w(3) by (auto simp: tracked_def c d split: if_splits)
    then show ?thesis using c h(2) Some v(1) by auto
  qed
  then show "tracked em'" "dom (conns em') = dom (conns em)" "destroyed em' = destroyed em"
    "set (em_closed_fds em') \<subseteq> insert (fst x) (set (em_closed_fds em)) \<and> set (em_closed_fds em) \<subseteq> set (em_closed_fds em')"
    "fst x \<notin> dom (conns em) \<Longrightarrow> em' = em"
    "conns em' = (conns em)(fst x := conns em' (fst x))"
    "\<And>w'. conns em' (fst x) = Some w' \<Longrightarrow>
      \<exists>w v. conns em (fst x) = Some w \<and> snd x w = Inr v \<and> w' = v\<lparr>closed_fds := {}\<rparr>"
    by blast+
qed

lemma tracked_Destroy:
  assumes "tracked em"
  shows "tracked (DestroyClosedConnections em)"
proof -
  have d: "distinct (em_closed_fds em)" using assms by (simp add: tracked_def)
  note e = DestroyClosed_eq [OF d]
  have bump: "ev_fd (BumpPendingIoWait 1 w) = ev_fd w" "closed_fds (BumpPendingIoWait 1 w) = closed_fds w"
    "IsDisconnected (BumpPendingIoWait 1 w) = IsDisconnected w"
    "pending_io_retries (BumpPendingIoWait 1 w) = pending_io_retries w + 1" for w
    by (simp_all add: BumpPendingIoWait_def IsDisconnected_def)
  show ?thesis
    using assms unfolding tracked_def e
    by (auto simp: e(3) kept_def after_round_def bump bind_eq_Some_conv split: if_splits)
qed

lemma active_tracked:
  assumes "tracked em" and "\<forall>x \<in> set xs. handler_ok (snd x)" and "DoWithActiveTasks xs em = Inr em'"
  shows "tracked em' \<and> dom (conns em') = dom (conns em) \<and> destroyed em' = destroyed em"
  using assms
proof (induction xs arbitrary: em)
  case (Cons x xs)
  obtain em1 where em1: "on_connection x em = Inr em1" "DoWithActiveTasks xs em1 = Inr em'"
    using Cons.prems(3) by (auto simp: res_bind_Inr_iff)
  have f: "handler_ok (snd x)" using Cons.prems(2) by simp
  note o = on_connection_tracked(1-3) [OF Cons.prems(1) f em1(1)]
  from Cons.IH [OF o(1) _ em1(2)] Cons.prems(2) o show ?case by simp
qed simp


section \<open>New connections\<close>

lemma SubmitReadOnce_keeps:
  "ev_fd (SubmitReadOnce env w) = ev_fd w" "pending_io_retries (SubmitReadOnce env w) = pending_io_retries w"
  "closed_fds (SubmitReadOnce env w) = closed_fds w" "conn_state (SubmitReadOnce env w) = conn_state w"
  by (simp_all add: SubmitReadOnce_def new_context_def finish_read_def Let_def case_prod_beta)

lemma OnEstablishing_handler:
  assumes cb: "\<forall>f. OnConnectionCallback u = Some f \<longrightarrow> handler_ok f"
  shows "handler_ok (OnEstablishing env u)"
proof -
  have "ev_fd w' = ev_fd w \<and> pending_io_retries w' = pending_io_retries w \<and>
      closed_fds w' \<subseteq> insert (ev_fd w) (closed_fds w) \<and> (IsDisconnected w' \<longrightarrow> IsDisconnected w \<or> ev_fd w \<in> closed_fds w')"
    if w': "OnEstablishing env u w = Inr w'" for w w'
  proof (cases "conn_state w = kConnecting")
    case True
    then obtain f v where v: "OnConnectionCallback u = Some f" "f (w\<lparr>conn_state := kConnected\<rparr>) = Inr v"
      "w' = SubmitReadOnce env v"
      using w' by (auto simp: OnEstablishing_def call_required_def res_bind_Inr_iff split: option.splits)
    then show ?thesis using handler_okD [of f "w\<lparr>conn_state := kConnected\<rparr>" v] cb by (auto simp: SubmitReadOnce_keeps IsDisconnected_def)
  qed (use w' in \<open>auto simp: OnEstablishing_def\<close>)
  then show ?thesis unfolding handler_ok_def by blast
qed

lemma new_connection:
  assumes "Fd env a = fd"
  obtains w where "Connecting env p a mark = Inr w" "ev_fd w = fd" "closed_fds w = {}" "pending_io_retries w = 0"
    "conn_state w = kConnecting"
proof -
  obtain b where "IoBuffer kInitialCapacity = Inr b" using IoBuffer_initial by blast
  then show thesis using that assms by (simp add: Connecting_def emit_def Eventer_def Let_def)
qed

lemma Insert_tracked:
  assumes t: "tracked em" and w: "ev_fd w = fd" "closed_fds w = {}" "pending_io_retries w = 0" "conn_state w = kConnecting"
  shows "tracked (InsertNewConnection fd w em)" "em_timer (InsertNewConnection fd w em) = em_timer em"
    "conns (InsertNewConnection fd w em) fd = Some w"
proof -
  have c: "conns (InsertNewConnection fd w em) = (conns em)(fd \<mapsto> w)"
    "em_closed_fds (InsertNewConnection fd w em) = em_closed_fds em"
    by (simp_all add: InsertNewConnection_def map_of_simps)
  show "tracked (InsertNewConnection fd w em)" using t w by (auto simp: tracked_def c IsDisconnected_def)
  show "em_timer (InsertNewConnection fd w em) = em_timer em" "conns (InsertNewConnection fd w em) fd = Some w"
    by (simp_all add: InsertNewConnection_def map_of_simps)
qed


section \<open>Closing and draining\<close>

text \<open>The contract of the callbacks that run while a connection closes.\<close>

locale closing_user =
  fixes env :: uring_env and u :: conn_user
  assumes closing_callback: "f \<in> user_callbacks u \<Longrightarrow> f w = Inr w' \<Longrightarrow>
    ev_fd w' = ev_fd w \<and> pending_io_retries w' = pending_io_retries w \<and>
    closed_fds w' \<subseteq> insert (ev_fd w) (closed_fds w) \<and> (IsDisconnected w \<longrightarrow> IsDisconnected w')"
begin

lemma call_closing:
  assumes "call_opt g w = Inr w'" and "set_option g \<subseteq> user_callbacks u"
  shows "ev_fd w' = ev_fd w \<and> pending_io_retries w' = pending_io_retries w \<and>
    closed_fds w' \<subseteq> insert (ev_fd w) (closed_fds w) \<and> (IsDisconnected w \<longrightarrow> IsDisconnected w')"
  using assms closing_callback by (auto simp: call_opt_def split: option.splits)

text \<open>Whatever the state was, a connection that is closed by force is disconnected and reported.\<close>

lemma ForceClose_closes:
  assumes "ForceClose env u w = Inr w'"
  shows "IsDisconnected w'" "ev_fd w' = ev_fd w" "closed_fds w' \<subseteq> insert (ev_fd w) (closed_fds w)"
    "\<not> IsDisconnected w \<Longrightarrow> ev_fd w \<in> closed_fds w'" "IsDisconnected w \<Longrightarrow> w' = w"
    "pending_io_retries w' = pending_io_retries w"
proof -
  have "IsDisconnected w' \<and> ev_fd w' = ev_fd w \<and> pending_io_retries w' = pending_io_retries w \<and> closed_fds w' \<subseteq> insert (ev_fd w) (closed_fds w) \<and>
    (if IsDisconnected w then w' = w else ev_fd w \<in> closed_fds w')"
  proof (cases "IsDisconnected w")
    case True
    then show ?thesis using assms by (auto simp: ForceClose_def IsDisconnected_def)
  next
    case False
    let ?w1 = "CancelPendingIo env (CancelPendingIo env (w\<lparr>conn_state := kDisconnected\<rparr>))"
    obtain w2 w3 where c: "call_opt (OnConnectionCallback u) ?w1 = Inr w2"
      "call_opt (UserCloseCallback u) w2 = Inr w3" "w' = DeleteConnection (ev_fd w3) w3"
      using assms False
      by (auto simp: ForceClose_def IsDisconnected_def DoClosing_def StopReadingWriting_def Let_def res_bind_Inr_iff)
    have w1: "ev_fd ?w1 = ev_fd w" "closed_fds ?w1 = closed_fds w" "IsDisconnected ?w1"
      "pending_io_retries ?w1 = pending_io_retries w"
      by (simp_all add: cancel_output IsDisconnected_def) (simp add: CancelPendingIo_def Let_def)
    have "ev_fd w2 = ev_fd w \<and> pending_io_retries w2 = pending_io_retries w \<and> closed_fds w2 \<subseteq> insert (ev_fd w) (closed_fds w) \<and> IsDisconnected w2"
      using call_closing [OF c(1)] w1 by (auto simp: user_callbacks_def)
    then have "ev_fd w3 = ev_fd w \<and> pending_io_retries w3 = pending_io_retries w \<and> closed_fds w3 \<subseteq> insert (ev_fd w) (closed_fds w) \<and> IsDisconnected w3"
      using call_closing [OF c(2)] by (auto simp: user_callbacks_def)
    then show ?thesis using False by (auto simp: c(3) DeleteConnection_def IsDisconnected_def)
  qed
  then show "IsDisconnected w'" "ev_fd w' = ev_fd w" "closed_fds w' \<subseteq> insert (ev_fd w) (closed_fds w)"
    "\<not> IsDisconnected w \<Longrightarrow> ev_fd w \<in> closed_fds w'" "IsDisconnected w \<Longrightarrow> w' = w"
    "pending_io_retries w' = pending_io_retries w"
    by (simp_all split: if_splits)
qed

lemma ForceClose_handler: "handler_ok (ForceClose env u)"
  using ForceClose_closes unfolding handler_ok_def by blast

lemma close_each:
  assumes "tracked em" and "DoWithActiveTasks (map (\<lambda>x. (fst x, ForceClose env u)) xs) em = Inr em'"
  shows "\<forall>fd w. conns em' fd = Some w \<longrightarrow> fd \<in> fst ` set xs \<or> (\<exists>v. conns em fd = Some v \<and> IsDisconnected v) \<longrightarrow> IsDisconnected w"
  using assms
proof (induction xs arbitrary: em)
  case (Cons x xs)
  obtain em1 where em1: "on_connection (fst x, ForceClose env u) em = Inr em1"
    "DoWithActiveTasks (map (\<lambda>x. (fst x, ForceClose env u)) xs) em1 = Inr em'"
    using Cons.prems(2) by (auto simp: res_bind_Inr_iff)
  note o = on_connection_tracked [OF Cons.prems(1) _ em1(1)]
  have h: "handler_ok (snd (fst x, ForceClose env u))" by (simp add: ForceClose_handler)
  have closed: "IsDisconnected w" if "conns em1 (fst x) = Some w" for w
    using o(7) [OF h, of w] that ForceClose_closes(1) by (auto simp: IsDisconnected_def)
  have dom: "dom (conns em') = dom (conns em1)"
    using active_tracked [OF o(1) [OF h] _ em1(2)] ForceClose_handler by auto
  show ?case
  proof (intro allI impI)
    fix fd w
    assume w: "conns em' fd = Some w" and "fd \<in> fst ` set (x # xs) \<or> (\<exists>v. conns em fd = Some v \<and> IsDisconnected v)"
    obtain w1 where w1: "conns em1 fd = Some w1" using w dom by blast
    have "fd \<in> fst ` set xs \<or> IsDisconnected w1"
    proof (cases "fd = fst x")
      case True
      then show ?thesis using closed w1 by simp
    next
      case False
      then have "conns em1 fd = conns em fd" using fun_cong [OF o(6) [OF h], of fd] by simp
      then show ?thesis using False w1 \<open>fd \<in> _ \<or> _\<close> by auto
    qed
    then show "IsDisconnected w" using Cons.IH [OF o(1) [OF h] em1(2)] w w1 by blast
  qed
qed auto

end

text \<open>A handler that may run while the event manager drains.\<close>

definition drain_handler :: "conn_cb \<Rightarrow> bool" where
  "drain_handler f \<longleftrightarrow> handler_ok f \<and> (\<forall>w w'. f w = Inr w' \<longrightarrow> IsDisconnected w \<longrightarrow> IsDisconnected w')"

definition closing :: "nat \<Rightarrow> ('c, 't) event_manager \<Rightarrow> bool" where
  "closing k em \<longleftrightarrow> tracked em \<and>
     (\<forall>fd w. conns em fd = Some w \<longrightarrow> IsDisconnected w \<and> int k \<le> pending_io_retries w)"

lemma on_connection_closing:
  assumes c: "closing k em" and f: "drain_handler (snd x)" and r: "on_connection x em = Inr em'"
  shows "closing k em'"
proof -
  have t: "tracked em" and h: "handler_ok (snd x)" using c f by (simp_all add: closing_def drain_handler_def)
  note o = on_connection_tracked [OF t h r]
  have "IsDisconnected w' \<and> int k \<le> pending_io_retries w'" if w': "conns em' fd = Some w'" for fd w'
  proof (cases "fd = fst x")
    case True
    then obtain w v where v: "conns em (fst x) = Some w" "snd x w = Inr v" "w' = v\<lparr>closed_fds := {}\<rparr>"
      using o(7) w' by blast
    then have "IsDisconnected w" "int k \<le> pending_io_retries w" using c by (simp_all add: closing_def)
    then show ?thesis using f v(2,3) handler_okD(4) [OF h v(2)] by (auto simp: drain_handler_def IsDisconnected_def)
  next
    case False
    then have "conns em fd = Some w'" using fun_cong [OF o(6), of fd] w' by simp
    then show ?thesis using c by (simp add: closing_def)
  qed
  then show ?thesis using o(1) by (simp add: closing_def)
qed

lemma active_closing:
  assumes "closing k em" and "\<forall>x \<in> set xs. drain_handler (snd x)" and "DoWithActiveTasks xs em = Inr em'"
  shows "closing k em'"
  using assms
proof (induction xs arbitrary: em)
  case (Cons x xs)
  obtain em1 where em1: "on_connection x em = Inr em1" "DoWithActiveTasks xs em1 = Inr em'"
    using Cons.prems(3) by (auto simp: res_bind_Inr_iff)
  show ?case using Cons.IH [OF on_connection_closing [OF Cons.prems(1) _ em1(1)] _ em1(2)] Cons.prems(2) by simp
qed simp

text \<open>A round of destruction leaves only connections that still wait, one try further.\<close>

definition settled :: "nat \<Rightarrow> ('c, 't) event_manager \<Rightarrow> bool" where
  "settled k em \<longleftrightarrow> closing k em \<and> set (em_closed_fds em) \<subseteq> dom (conns em) \<and>
     (\<forall>fd w. conns em fd = Some w \<longrightarrow> pending_io_retries w \<le> kMaxPendingIoRetries)"

lemma closing_round:
  assumes c: "closing k em"
  shows "settled (Suc k) (DestroyClosedConnections em)"
proof -
  have t: "tracked em" using c by (simp add: closing_def)
  then have d: "distinct (em_closed_fds em)" by (simp add: tracked_def)
  note e = DestroyClosed_eq [OF d]
  have "IsDisconnected w' \<and> int (Suc k) \<le> pending_io_retries w' \<and> pending_io_retries w' \<le> kMaxPendingIoRetries"
    if w': "conns (DestroyClosedConnections em) fd = Some w'" for fd w'
  proof -
    obtain w where w: "conns em fd = Some w" using w' by (auto simp: e(1) bind_eq_Some_conv split: if_splits)
    then have "IsDisconnected w" "int k \<le> pending_io_retries w" "fd \<in> set (em_closed_fds em)"
      using c t by (simp_all add: closing_def tracked_def)
    then have "waiting w" "w' = BumpPendingIoWait 1 w"
      using w' w by (auto simp: e(1) after_round_def split: if_splits)
    then show ?thesis using \<open>IsDisconnected w\<close> \<open>int k \<le> _\<close>
      by (simp add: BumpPendingIoWait_def waiting_def IsDisconnected_def kMaxPendingIoRetries_def)
  qed
  moreover have "set (em_closed_fds (DestroyClosedConnections em)) \<subseteq> dom (conns (DestroyClosedConnections em))"
    by (auto simp: e kept_def after_round_def)
  ultimately show ?thesis using tracked_Destroy [OF t] by (simp add: settled_def closing_def)
qed

definition owned :: "('c, 't) event_manager \<Rightarrow> nat" where
  "owned em = length (destroyed em) + card (dom (conns em))"

lemma owned_Destroy:
  assumes "distinct (em_closed_fds em)"
  shows "owned (DestroyClosedConnections em) = owned em"
proof -
  note e = DestroyClosed_eq [OF assms]
  let ?D = "{fd \<in> set (em_closed_fds em). doomed em fd}"
  have dom: "dom (conns (DestroyClosedConnections em)) = dom (conns em) - ?D"
    by (auto simp: e(1) doomed_def bind_eq_Some_conv split: if_splits)
  have sub: "?D \<subseteq> dom (conns em)" by (auto simp: doomed_def)
  have "length (filter (doomed em) (em_closed_fds em)) = card ?D"
    using distinct_card [OF distinct_filter [OF assms, of "doomed em"]] by simp
  then show ?thesis
    using card_Diff_subset [OF _ sub] card_mono [OF finite_dom_map_of sub]
    by (simp add: owned_def e(4) dom)
qed

lemma drain_ends:
  assumes "settled k em" and "1001 \<le> k + length rounds"
    and "\<forall>events \<in> set rounds. \<forall>x \<in> set events. drain_handler (snd x)"
  shows "\<exists>r. drain_loop rounds em = Some r \<and>
    (\<forall>em'. r = Inr em' \<longrightarrow> connection_map em' = [] \<and> em_closed_fds em' = [])"
  using assms
proof (induction rounds arbitrary: k em)
  case Nil
  have "conns em fd \<noteq> Some w" for fd w
  proof
    assume "conns em fd = Some w"
    then have "int k \<le> pending_io_retries w" "pending_io_retries w \<le> kMaxPendingIoRetries"
      using Nil.prems(1) by (simp_all add: settled_def closing_def)
    then show False using Nil.prems(2) by (simp add: kMaxPendingIoRetries_def)
  qed
  then have "conns em fd = None" for fd by (cases "conns em fd") simp_all
  then have "conns em = Map.empty" by (simp add: fun_eq_iff)
  then have "connection_map em = []" "em_closed_fds em = []" using Nil.prems(1) by (auto simp: settled_def)
  then show ?case by simp
next
  case (Cons events rounds)
  show ?case
  proof (cases "connection_map em = [] \<and> em_closed_fds em = []")
    case False
    show ?thesis
    proof (cases "DoWithActiveTasks events em")
      case (Inl e)
      then show ?thesis using False by auto
    next
      case (Inr em1)
      have "closing k em" using Cons.prems(1) by (simp add: settled_def)
      then have "closing k em1" using active_closing [OF _ _ Inr] Cons.prems(3) by simp
      then have "settled (Suc k) (DestroyClosedConnections em1)" by (rule closing_round)
      from Cons.IH [OF this] Cons.prems(2,3) have "\<exists>r. drain_loop rounds (DestroyClosedConnections em1) = Some r \<and>
        (\<forall>em'. r = Inr em' \<longrightarrow> connection_map em' = [] \<and> em_closed_fds em' = [])" by simp
      moreover have "drain_loop (events # rounds) em = drain_loop rounds (DestroyClosedConnections em1)"
        using False Inr by auto
      ultimately show ?thesis by (simp only:)
    qed
  qed simp
qed

lemma drain_from_closing:
  assumes c: "closing 0 em" and len: "1001 \<le> length rounds"
    and h: "\<forall>events \<in> set rounds. \<forall>x \<in> set events. drain_handler (snd x)"
  shows "\<exists>r. drain_loop rounds em = Some r \<and>
    (\<forall>em'. r = Inr em' \<longrightarrow> connection_map em' = [] \<and> em_closed_fds em' = [])"
proof -
  obtain events rest where rounds: "rounds = events # rest" using len by (cases rounds) auto
  show ?thesis
  proof (cases "connection_map em = [] \<and> em_closed_fds em = []")
    case False
    show ?thesis
    proof (cases "DoWithActiveTasks events em")
      case (Inr em1)
      have "closing 0 em1" by (rule active_closing [OF c _ Inr]) (use h rounds in simp)
      from drain_ends [OF closing_round [OF this], of rest] False Inr h len show ?thesis
        by (simp add: rounds)
    qed (use False rounds in auto)
  qed (simp add: rounds)
qed


section \<open>The loop keeps track\<close>

text \<open>What time tasks and the conditions of periodic ones may do.\<close>

definition tasks_ok ::
  "('t \<Rightarrow> ('c, 't) event_manager \<Rightarrow> ('c, 't) event_manager) \<Rightarrow>
   ('c \<Rightarrow> ('c, 't) event_manager \<Rightarrow> bool \<times> ('c, 't) event_manager) \<Rightarrow> bool" where
  "tasks_ok run cont \<longleftrightarrow> (\<forall>t em. tracked em \<longrightarrow> tracked (run t em)) \<and> (\<forall>f em. tracked em \<longrightarrow> tracked (snd (cont f em)))"

lemma tracked_quiet [simp]:
  "tracked (em\<lparr>em_timer := tps\<rparr>) = tracked em" "tracked (em\<lparr>clock_reads := n\<rparr>) = tracked em"
  "tracked (em\<lparr>should_quit := b\<rparr>) = tracked em" "tracked (WakeUp em) = tracked em" "tracked (em\<lparr>task_error := e\<rparr>) = tracked em"
  by (simp_all add: tracked_def WakeUp_def)

lemma tracked_add_task: "tracked (add_task clock tp tp' t em) = tracked em"
  by (simp add: add_task_def read_clock_def Let_def)

lemma tracked_RunEvery: "tracked (RunEveryUntil clock i t start c em) = tracked em"
  by (simp add: RunEveryUntil_def tracked_add_task Let_def)

lemma tracked_expired:
  assumes "tasks_ok run cont" and "tracked em"
  shows "tracked (DoExpiredTimeTasks clock run cont return_time em)"
proof -
  have one: "tracked (run_expired clock run cont return_time x em)" if "tracked em" for x em
    using assms(1) that
    by (auto simp: run_expired_def tasks_ok_def tracked_RunEvery Let_def case_prod_beta split: option.splits)
  have "tracked (fold (run_expired clock run cont return_time) xs em)" if "tracked em" for xs em
    using that one by (induction xs arbitrary: em) simp_all
  then show ?thesis using assms(2) by (simp add: DoExpiredTimeTasks_def read_clock_def case_prod_beta)
qed

lemma event_loop_tracked:
  assumes "tasks_ok run cont" and "tracked em"
    and "\<forall>events \<in> set rounds. \<forall>x \<in> set events. handler_ok (snd x)"
    and "event_loop clock run cont rounds em = Some (Inr em')"
  shows "tracked em'"
  using assms(2-)
proof (induction rounds arbitrary: em)
  case (Cons events rounds)
  show ?case
  proof (cases "should_quit em")
    case False
    then obtain em1 where em1: "loop_round clock run cont events em = Inr em1"
      "event_loop clock run cont rounds em1 = Some (Inr em')"
      using Cons.prems(3) by (auto split: sum.splits)
    obtain em2 now where em2: "DoWithActiveTasks events (em\<lparr>clock_reads := clock_reads em + 1\<rparr>) = Inr em2"
      "em1 = DestroyClosedConnections (DoExpiredTimeTasks clock run cont (TimePoint_now now) em2)"
      using em1(1) by (auto simp: loop_round_def read_clock_def res_bind_Inr_iff)
    have "tracked em2" using active_tracked [OF _ _ em2(1)] Cons.prems(1,2) by simp
    then have "tracked em1" unfolding em2(2) by (intro tracked_Destroy tracked_expired [OF assms(1)])
    from Cons.IH [OF this _ em1(2)] Cons.prems(2) show ?thesis by simp
  qed (use Cons.prems in auto)
qed (auto split: if_splits)

context closing_user
begin

lemma close_all_closing:
  assumes t: "tracked em" and r: "close_all env u em = Inr em'"
  shows "closing 0 em'"
proof -
  have t': "tracked em'" "dom (conns em') = dom (conns em)"
    using active_tracked [OF t _ r [unfolded close_all_def]] ForceClose_handler by auto
  have "IsDisconnected w" if "conns em' fd = Some w" for fd w
  proof -
    have "fd \<in> dom (conns em)" using that t'(2) by blast
    then have "fd \<in> fst ` set (connection_map em)" by (simp add: dom_map_of_conv_image_fst)
    then show ?thesis using close_each [OF t r [unfolded close_all_def]] that by blast
  qed
  then show ?thesis using t'(1) by (simp add: closing_def tracked_def)
qed

end

text \<open>The servers keep to the contract: their callbacks do not touch what the event manager relies on.\<close>

lemma register_closing:
  assumes s: "ServerWriteCompleteCallback s = None" "ServerCloseCallback s = None"
    and cb: "\<And>w w'. ConnectionCallback s w = Inr w' \<Longrightarrow>
      ev_fd w' = ev_fd w \<and> pending_io_retries w' = pending_io_retries w \<and> closed_fds w' = closed_fds w \<and>
      conn_state w' = conn_state w"
  shows "closing_user (register_callbacks env s)"
proof -
  let ?u = "\<lparr>OnConnectionCallback = Some (ConnectionCallback s), OnMessageCallback = Some (MessageCallback s),
     WriteCompleteCallback = ServerWriteCompleteCallback s, HighWaterMarkCallback = None, UserCloseCallback = None\<rparr>"
  have u: "closing_user ?u"
    by unfold_locales (use cb s in \<open>auto simp: user_callbacks_def IsDisconnected_def\<close>)
  note f = closing_user.ForceClose_closes [OF u]
  have remove: "ev_fd w' = ev_fd w \<and> pending_io_retries w' = pending_io_retries w \<and>
      closed_fds w' \<subseteq> insert (ev_fd w) (closed_fds w) \<and> (IsDisconnected w \<longrightarrow> IsDisconnected w')"
    if "RemoveConnection env ?u w = Inr w'" for w w'
    using f(1-3,6) [OF that [unfolded RemoveConnection_def]] by simp
  show ?thesis
  proof
    fix g w w'
    assume g: "g \<in> user_callbacks (register_callbacks env s)" "g w = Inr w'"
    then have "g = ConnectionCallback s \<or> g = RemoveConnection env ?u"
      using s by (auto simp: user_callbacks_def register_callbacks_def Let_def)
    then show "ev_fd w' = ev_fd w \<and> pending_io_retries w' = pending_io_retries w \<and>
      closed_fds w' \<subseteq> insert (ev_fd w) (closed_fds w) \<and> (IsDisconnected w \<longrightarrow> IsDisconnected w')"
      using g(2) remove cb by (auto simp: IsDisconnected_def)
  qed
qed

interpretation default_closing: closing_user env "register_callbacks env Server" for env
  by (rule register_closing) (simp_all add: Server_def DefaultOnConnectionCallback_def)

interpretation echo_closing: closing_user env "register_callbacks env (EchoServer env)" for env
  by (rule register_closing) (simp_all add: EchoServer_def server_defs DefaultOnConnectionCallback_def)

interpretation discard_closing: closing_user env "register_callbacks env (DiscardServer env)" for env
  by (rule register_closing) (simp_all add: DiscardServer_def server_defs DefaultOnConnectionCallback_def)

interpretation pingpong_closing: closing_user env "register_callbacks env (PingpongServer env)" for env
  by (rule register_closing)
    (auto simp: PingpongServer_def server_defs PingpongServer_OnConnectionCallback_def SetTcpNoDelay_def emit_def)


section \<open>Properties of the connections of a loop\<close>

text \<open>
  C7. The event manager does not hang when it is told to quit: once the loop has ended, the
  connections are closed and, whatever handlers still run, at most 1,001 rounds of draining are
  needed (a connection with I/O pending is given up after 1,000 tries), after which every connection
  is gone.
\<close>

theorem Start_ends:
  assumes "closing_user u" and "tracked em" and "tasks_ok run cont"
    and "\<forall>events \<in> set rounds. \<forall>x \<in> set events. handler_ok (snd x)"
    and "\<forall>events \<in> set drains. \<forall>x \<in> set events. drain_handler (snd x)" and "1001 \<le> length drains"
    and "event_loop clock run cont rounds (em\<lparr>should_quit := False\<rparr>) \<noteq> None"
  shows "\<exists>r. Start clock run cont env u rounds drains em = Some r \<and>
    (\<forall>em'. r = Inr em' \<longrightarrow> connection_map em' = [] \<and> em_closed_fds em' = [])"
proof -
  obtain r where r: "event_loop clock run cont rounds (em\<lparr>should_quit := False\<rparr>) = Some r" using assms(7) by blast
  show ?thesis
  proof (cases r)
    case (Inr em1)
    then have t: "tracked em1"
      using event_loop_tracked [OF assms(3) _ assms(4), of "em\<lparr>should_quit := False\<rparr>" clock em1] assms(2) r by simp
    show ?thesis
    proof (cases "close_all env u em1")
      case (Inr em2)
      have "closing 0 em2" by (rule closing_user.close_all_closing [OF assms(1) t Inr])
      from drain_from_closing [OF this assms(6,5)] show ?thesis
        using \<open>r = Inr em1\<close> Inr r by (simp add: Start_def)
    qed (simp add: Start_def r Inr)
  qed (simp add: Start_def r)
qed

lemma sample_conn_more:
  "ev_fd sample_conn = 7" "closed_fds sample_conn = {}" "pending_io_retries sample_conn = 0"
proof -
  obtain w0 where w0: "Connecting sample_env sample_poller 1 64 = Inr w0"
    "sample_conn = SubmitReadOnce sample_env (w0\<lparr>conn_state := kConnected\<rparr>)" by (rule sample_conn_steps)
  obtain b where b: "IoBuffer kInitialCapacity = Inr b" using IoBuffer_initial by blast
  have "ev_fd w0 = 7" "closed_fds w0 = {}" "pending_io_retries w0 = 0"
    using w0(1) b by (auto simp: Connecting_def emit_def Eventer_def sample_env_def)
  then show "ev_fd sample_conn = 7" "closed_fds sample_conn = {}" "pending_io_retries sample_conn = 0"
    by (simp_all add: w0(2) SubmitReadOnce_def new_context_def finish_read_def Let_def case_prod_beta)
qed

text \<open>One connection, and a task that quits the loop.\<close>

definition sample_em :: "(unit, unit) event_manager" where
  "sample_em = EventManager\<lparr>connection_map := [(7, sample_conn)], em_timer := [(TimePoint 0 0 None, ())]\<rparr>"

lemma sample_tracked: "tracked sample_em"
  by (simp add: tracked_def sample_em_def EventManager_def sample_conn_more sample_conn_fields IsDisconnected_def)

theorem Start_ends_witness:
  "\<exists>r. Start (\<lambda>n. 5) (\<lambda>t. Quit) (\<lambda>f em. (True, em)) sample_env echo_user [[]] (replicate 1001 []) sample_em = Some r"
proof -
  have u: "closing_user echo_user" unfolding echo_user_def by (rule echo_closing.closing_user_axioms)
  have t: "tasks_ok (\<lambda>t. Quit) (\<lambda>f em. (True, em :: (unit, unit) event_manager))" by (simp add: tasks_ok_def Quit_def)
  have "event_loop (\<lambda>n. 5) (\<lambda>t. Quit) (\<lambda>f em. (True, em)) [[]] (sample_em\<lparr>should_quit := False\<rparr>) \<noteq> None"
    by (simp add: loop_round_def read_clock_def DoExpiredTimeTasks_def GetExpiredTimeTasks_def sample_em_def
        EventManager_def TimePoint_order run_expired_def Quit_def WakeUp_def DestroyClosedConnections_def)
  from Start_ends [OF u sample_tracked t _ _ _ this, of "replicate 1001 []"] show ?thesis by auto
qed

text \<open>
  C8. What one round does with closed connections: a connection whose descriptor is among the closed
  ones and which is disconnected is destroyed, once, unless it has I/O pending and tries left, in
  which case it stays, with one try less, and so does its descriptor; every other connection is left
  alone, and no other descriptor remains.
\<close>

theorem DestroyClosedConnections_exact:
  assumes "distinct (em_closed_fds em)"
  shows "map_of (connection_map (DestroyClosedConnections em)) =
      (\<lambda>fd. if fd \<in> set (em_closed_fds em) then Option.bind (map_of (connection_map em) fd) after_round
            else map_of (connection_map em) fd) \<and>
    destroyed (DestroyClosedConnections em) =
      destroyed em @ map (\<lambda>fd. the (map_of (connection_map em) fd)) (filter (doomed em) (em_closed_fds em)) \<and>
    set (em_closed_fds (DestroyClosedConnections em)) = set (em_closed_fds em) \<inter> {fd. kept em fd}"
  using DestroyClosed_eq [OF assms] by auto

definition sample_closing :: "(unit, unit) event_manager" where
  "sample_closing = EventManager\<lparr>connection_map :=
     [(7, sample_conn\<lparr>conn_state := kDisconnected\<rparr>),
      (9, sample_conn\<lparr>conn_state := kDisconnected, read_in_flight := False\<rparr>)], em_closed_fds := [7, 9]\<rparr>"

lemma sample_closing_doomed: "\<not> doomed sample_closing 7" "doomed sample_closing 9"
proof -
  obtain w0 where w0: "Connecting sample_env sample_poller 1 64 = Inr w0"
    "sample_conn = SubmitReadOnce sample_env (w0\<lparr>conn_state := kConnected\<rparr>)" by (rule sample_conn_steps)
  obtain b where b: "IoBuffer kInitialCapacity = Inr b" using IoBuffer_initial by blast
  have "pending_io_wait_ms w0 = 0" using w0(1) b by (auto simp: Connecting_def emit_def Let_def)
  then have "pending_io_wait_ms sample_conn = 0"
    by (simp add: w0(2) SubmitReadOnce_def new_context_def finish_read_def Let_def case_prod_beta)
  then show "\<not> doomed sample_closing 7" "doomed sample_closing 9"
    using sample_conn_fields(4,5) sample_conn_more(3)
    by (simp_all add: sample_closing_def doomed_def after_round_def waiting_def IsDisconnected_def HasPendingIo_def
        kMaxPendingIoRetries_def kMaxPendingIoTimeoutMs_def EventManager_def)
qed

theorem DestroyClosedConnections_exact_witness:
  "destroyed (DestroyClosedConnections sample_closing) =
     [sample_conn\<lparr>conn_state := kDisconnected, read_in_flight := False\<rparr>]"
proof -
  have e: "em_closed_fds sample_closing = [7, 9]" "destroyed sample_closing = []"
    "map_of (connection_map sample_closing) 9 = Some (sample_conn\<lparr>conn_state := kDisconnected, read_in_flight := False\<rparr>)"
    by (simp_all add: sample_closing_def EventManager_def)
  show ?thesis
    using DestroyClosedConnections_exact [of sample_closing] by (simp add: e sample_closing_doomed)
qed


section \<open>Properties of time tasks\<close>

text \<open>What a task that ran leaves behind, if the condition of \<open>f\<close> says \<open>c f\<close>.\<close>

definition renewal :: "('c \<Rightarrow> bool) \<Rightarrow> 'c TimePoint \<Rightarrow> 'c TimePoint \<times> 't \<Rightarrow> ('c TimePoint \<times> 't) list" where
  "renewal c return_time x =
     (let n = tp_context (fst x); tp = TimePoint (time_point_microseconds return_time + n) n
      in if n = 0 then []
         else case IsContinue (fst x) of None \<Rightarrow> [(tp None, snd x)] | Some f \<Rightarrow> if c f then [(tp (Some f), snd x)] else [])"

lemma add_task_timer: "em_timer (add_task clock tp tp' t em) = AddTimeTask tp t (em_timer em)"
  by (simp add: add_task_def read_clock_def WakeUp_def Let_def)

lemma run_expired_timer:
  assumes "\<And>t em. em_timer (run t em) = em_timer em" and "\<And>f em. cont f em = (c f, em)"
  shows "em_timer (run_expired clock run cont return_time x em) =
    fold (\<lambda>(tp, t). AddTimeTask tp t) (renewal c return_time x) (em_timer em)"
  using assms
  by (auto simp: run_expired_def renewal_def RunEveryUntil_def add_task_timer TimePoint_from_def
      SetTaskContinueCallback_def GetTaskContinueCallback_def Let_def split: option.splits)

text \<open>
  C25. Periodic tasks: when the due tasks have run, the timer holds the tasks that were not due and,
  for each due task that is periodic and whose condition, if it has one, still holds, one new entry:
  its interval after the end of the polling, with the same interval and condition.
\<close>

theorem periodic_tasks_renewed:
  assumes "timer_ok (em_timer em)" and "\<And>t em. em_timer (run t em) = em_timer em"
    and "\<And>f em. cont f em = (c f, em)" and "now = clock (clock_reads em)"
  shows "em_timer (DoExpiredTimeTasks clock run cont return_time em) =
    fold (\<lambda>(tp, t). AddTimeTask tp t)
      (concat (map (renewal c return_time) (filter (\<lambda>x. due x \<le> now) (em_timer em))))
      (filter (\<lambda>x. now < due x) (em_timer em))"
proof -
  note one = run_expired_timer [where c = c, OF assms(2,3)]
  have "em_timer (fold (run_expired clock run cont return_time) xs e) =
      fold (\<lambda>(tp, t). AddTimeTask tp t) (concat (map (renewal c return_time) xs)) (em_timer e)" for xs e
    by (induction xs arbitrary: e) (simp_all add: one fold_append)
  then show ?thesis
    using GetExpiredTimeTasks_eq [OF assms(1), of now] assms(4)
    by (simp add: DoExpiredTimeTasks_def read_clock_def)
qed

theorem periodic_tasks_renewed_witness:
  "em_timer (DoExpiredTimeTasks (\<lambda>n. 50) (\<lambda>t em. em) (\<lambda>f em. (True, em)) (TimePoint_now 49)
     (EventManager\<lparr>em_timer := [(TimePoint 10 20 None, ''a''), (TimePoint 60 0 (Some ()), ''b'')]\<rparr>)) =
     [(TimePoint 60 0 (Some ()), ''b''), (TimePoint 69 20 None, ''a'')]"
  using periodic_tasks_renewed [where c = "\<lambda>_. True" and run = "\<lambda>t em. em" and cont = "\<lambda>f em. (True, em)" and now = 50 and
    clock = "\<lambda>n. 50" and return_time = "TimePoint_now 49" and
    em = "EventManager\<lparr>em_timer := [(TimePoint 10 20 None, ''a''), (TimePoint 60 0 (Some ()), ''b'')]\<rparr>"]
  by (simp add: timer_ok_def EventManager_def renewal_def AddTimeTask_def TimePoint_order)

lemma int32_ms:
  fixes a b :: int
  assumes "0 \<le> a" and "0 \<le> b" and "\<bar>a - b\<bar> < 2 ^ 40"
  shows "to_int32 (trunc_div a 1000 - trunc_div b 1000) = a div 1000 - b div 1000"
  using assms by (simp add: trunc_div_nonneg to_int32_small)

text \<open>
  C26. A task that is registered to run before every other becomes the first of the timer and wakes
  the loop up, so that the loop does not sleep past it (for deadlines within \<open>2 ^ 40\<close> microseconds,
  about twelve days, and a clock that does not run backwards).
\<close>

theorem RunAt_wakes_up:
  fixes em :: "('c, 't) event_manager" and tp :: "'c TimePoint"
  assumes "\<forall>x \<in> set (em_timer em). tp < fst x" and "before = clock (clock_reads em)" and "after = clock (clock_reads em + 1)"
    and "0 \<le> before" and "before \<le> after" and "0 \<le> time_point_microseconds tp"
    and "\<bar>time_point_microseconds tp - before\<bar> < 2 ^ 40" and "\<bar>time_point_microseconds tp - after\<bar> < 2 ^ 40"
  shows "em_timer (RunAt clock tp t em) = (tp, t) # em_timer em \<and>
    wake_up_counter (RunAt clock tp t em) = wake_up_counter em + 1"
proof -
  let ?d = "time_point_microseconds tp"
  have front: "AddTimeTask tp t (em_timer em) = (tp, t) # em_timer em"
    using assms(1) by (cases "em_timer em") (auto simp: AddTimeTask_def)
  have i1: "to_int32 (trunc_div ?d 1000 - trunc_div before 1000) = ?d div 1000 - before div 1000"
    and i2: "to_int32 (trunc_div ?d 1000 - trunc_div after 1000) = ?d div 1000 - after div 1000"
    using assms(4-8) by (simp_all add: int32_ms)
  have "before div 1000 \<le> after div 1000" using assms(5) by (simp add: zdiv_mono1)
  then have "to_int32 (GetMillisecond tp - GetMillisecond (TimePoint_now after :: 'c TimePoint)) \<le>
      GetMinTimeDuration before ((tp, t) # em_timer em)"
    by (simp add: GetMinTimeDuration_def GetMillisecond_def TimePoint_now_def i1 i2 Let_def)
  then show ?thesis
    using assms(2,3) by (simp add: RunAt_def add_task_def read_clock_def front WakeUp_def Let_def)
qed

theorem RunAt_wakes_up_witness:
  "wake_up_counter (RunAt (\<lambda>n. 5000) (TimePoint 9000 0 None) ''a''
     (EventManager\<lparr>em_timer := [(TimePoint 9500 0 (None :: unit option), ''b'')]\<rparr>)) = 1"
  using RunAt_wakes_up [where em = "EventManager\<lparr>em_timer := [(TimePoint 9500 0 (None :: unit option), ''b'')]\<rparr>" and
    tp = "TimePoint 9000 0 None" and clock = "\<lambda>n. 5000" and before = 5000 and after = 5000 and t = "''a''"]
  by (simp add: EventManager_def TimePoint_order)

text \<open>
  The default start of a periodic task is not now: \<open>TimePoint(TimePoint::FNow())\<close> is the point
  that lies as far in the future as the epoch in the past, so the first run of a periodic task that
  is registered without a start comes after its interval and the whole time since 1970.
\<close>

theorem default_start_delays:
  "case default_start clock em of (start, em1) \<Rightarrow>
     em_timer (RunEveryUntil clock interval t start None em1) =
       AddTimeTask (TimePoint (clock (clock_reads em) + clock (clock_reads em + 1) + interval) interval None) t (em_timer em)"
  by (simp add: default_start_def read_clock_def RunEveryUntil_def add_task_timer TimePoint_after_def
      TimePoint_from_def Let_def add.commute)

end
