(* ===== verification/Time_Server.thy ===== *)
theory Time_Server
  imports Texts Connection_Theorems Loop_Safety
begin

text \<open>
  The time server of the examples (\<^verbatim>\<open>src/example/simple_time/time.cc\<close>): it answers whatever arrives with the
  time of the read, as a date in the Gregorian calendar. \<open>gmtime_r\<close> is modelled by counting years and months; that
  the date is right is shown against the closed formula for the days before a year.

  What the callback logs of the message is left out. The time of the read is the argument \<open>now_time\<close>, in microseconds.
\<close>

section \<open>Dates\<close>

record tm =
  tm_sec :: int
  tm_min :: int
  tm_hour :: int
  tm_mday :: int
  tm_mon :: int
  tm_year :: int

definition leap_year :: "int \<Rightarrow> bool" where
  "leap_year y \<longleftrightarrow> y mod 4 = 0 \<and> y mod 100 \<noteq> 0 \<or> y mod 400 = 0"

definition year_days :: "int \<Rightarrow> int" where
  "year_days y = (if leap_year y then 366 else 365)"

definition month_days :: "int \<Rightarrow> int list" where
  "month_days y = [31, if leap_year y then 29 else 28, 31, 30, 31, 30, 31, 31, 30, 31, 30, 31]"

text \<open>The year of the day \<open>d\<close> counted from the first of January of the year \<open>y\<close>, and the day in it.\<close>

function year_of :: "int \<Rightarrow> int \<Rightarrow> int \<times> int" where
  "year_of y d =
     (if d < 0 then year_of (y - 1) (d + year_days (y - 1))
      else if year_days y \<le> d then year_of (y + 1) (d - year_days y)
      else (y, d))"
  by auto
termination
  by (relation "measure (\<lambda>(y, d). if d < 0 then nat (- d) + 400 else nat d)") (auto simp: year_days_def split: if_splits)

declare year_of.simps [simp del]

fun month_of :: "int list \<Rightarrow> int \<Rightarrow> int \<Rightarrow> int \<times> int" where
  "month_of [] m d = (m, d)"
| "month_of (l # ls) m d = (if d < l then (m, d) else month_of ls (m + 1) (d - l))"

definition gmtime_r :: "int \<Rightarrow> tm" where
  "gmtime_r seconds =
     (case year_of 1970 (seconds div 86400) of (y, yday) \<Rightarrow>
        case month_of (month_days y) 0 yday of (m, d) \<Rightarrow>
          let s = seconds mod 86400
          in \<lparr>tm_sec = s mod 60, tm_min = s div 60 mod 60, tm_hour = s div 3600, tm_mday = d + 1, tm_mon = m,
              tm_year = y - 1900\<rparr>)"

section \<open>The server\<close>

text \<open>The conversions \<^verbatim>\<open>%4d\<close> and \<^verbatim>\<open>%02d\<close>: a field of at least \<open>w\<close> characters.\<close>

definition show_field :: "char \<Rightarrow> nat \<Rightarrow> int \<Rightarrow> string" where
  "show_field c w n =
     (if 0 \<le> n then let s = show_nat (nat n) in replicate (w - length s) c @ s
      else let s = show_nat (nat (- n))
           in if c = CHR ''0'' then ''-'' @ replicate (w - 1 - length s) c @ s
              else replicate (w - 1 - length s) c @ ''-'' @ s)"

definition trunc_mod :: "int \<Rightarrow> int \<Rightarrow> int" where
  "trunc_mod a b = a - b * trunc_div a b"

definition time_text :: "int \<Rightarrow> string" where
  "time_text now_time =
     (let tm_time = gmtime_r (trunc_div now_time 1000000); two = show_field (CHR ''0'') 2
      in snprintf 64 (show_field (CHR '' '') 4 (tm_year tm_time + 1900) @ two (tm_mon tm_time + 1) @ two (tm_mday tm_time) @
           '' '' @ two (tm_hour tm_time) @ '':'' @ two (tm_min tm_time) @ '':'' @ two (tm_sec tm_time) @ ''.'' @
           show_field (CHR ''0'') 6 (trunc_mod now_time 1000000)))"

definition TimeServer_OnMessageCallback :: "uring_env \<Rightarrow> int \<Rightarrow> conn_cb" where
  "TimeServer_OnMessageCallback env now_time w =
     res_bind (RetrieveAllAsString (input_buffer w)) (\<lambda>(message, b).
       Send env no_user (bytes (time_text now_time @ [CHR 0x0A])) (w\<lparr>input_buffer := b\<rparr>))"

definition TimeServer :: "uring_env \<Rightarrow> int \<Rightarrow> server" where
  "TimeServer env now_time = SetMessageCallback (TimeServer_OnMessageCallback env now_time) Server"

lemma length_time_text: "length (time_text now_time) \<le> 63"
  by (simp add: time_text_def snprintf_def Let_def)

interpretation time_server: connection_user "no_multishot env"
    "register_callbacks (no_multishot env) (TimeServer (no_multishot env) now_time)" for env now_time
proof (rule register_user)
  have "length (bytes (time_text now_time @ [CHR 0x0A])) \<le> vector_max_size"
    using length_time_text [of now_time] by (simp add: vector_max_size_def)
  then show "message_cb_ok (no_multishot env) (MessageCallback (TimeServer (no_multishot env) now_time))"
    using answer_ok [of _ _ "\<lambda>m. bytes (time_text now_time @ [CHR 0x0A])"]
    by (simp add: TimeServer_def server_defs TimeServer_OnMessageCallback_def)
qed (simp_all add: TimeServer_def server_defs default_cb_ok)

section \<open>The date is right\<close>

text \<open>The days from the epoch to the first of January of a year, and of a month in it.\<close>

definition year_start :: "int \<Rightarrow> int" where
  "year_start y = 365 * (y - 1970) + (y - 1) div 4 - (y - 1) div 100 + (y - 1) div 400 - 477"

definition month_start :: "int \<Rightarrow> nat \<Rightarrow> int" where
  "month_start y m = sum_list (take m (month_days y))"

lemma div_pred:
  fixes y k :: int
  assumes "0 < k"
  shows "y div k = (y - 1) div k + (if y mod k = 0 then 1 else 0)"
proof (cases "y mod k = 0")
  case True
  have "y - 1 = k * (y div k - 1) + (k - 1)" using div_mult_mod_eq [of y k] True by (simp add: algebra_simps)
  from int_div_pos_eq [OF this] show ?thesis using True assms by simp
next
  case False
  have "y - 1 = k * (y div k) + (y mod k - 1)" using div_mult_mod_eq [of y k] by (simp add: algebra_simps)
  then have "(y - 1) div k = y div k"
    by (rule int_div_pos_eq) (use False pos_mod_sign [OF assms, of y] pos_mod_bound [OF assms, of y] in linarith)+
  then show ?thesis using False by simp
qed

lemma year_start_Suc: "year_start (y + 1) = year_start y + year_days y"
proof -
  let ?n = "\<lambda>k. if y mod k = 0 then 1 else 0 :: int"
  have "(4 :: int) dvd 100" "(100 :: int) dvd 400" by simp_all
  then have "y mod 4 = 0" if "y mod 100 = 0" using that dvd_trans [of 4 100 y] by (simp add: mod_eq_0_iff_dvd)
  moreover have "y mod 100 = 0" if "y mod 400 = 0"
    using that \<open>(100 :: int) dvd 400\<close> dvd_trans [of 100 400 y] by (simp add: mod_eq_0_iff_dvd)
  ultimately have n: "year_days y = 365 + ?n 4 - ?n 100 + ?n 400"
    unfolding year_days_def leap_year_def by (cases "y mod 4 = 0"; cases "y mod 100 = 0"; cases "y mod 400 = 0") simp_all
  have d: "y div 4 = (y - 1) div 4 + ?n 4" "y div 100 = (y - 1) div 100 + ?n 100" "y div 400 = (y - 1) div 400 + ?n 400"
    by (rule div_pred, simp)+
  have "year_start (y + 1) = 365 * (y - 1970) + 365 + y div 4 - y div 100 + y div 400 - 477"
    unfolding year_start_def by (simp only: add_diff_cancel) (simp add: algebra_simps)
  also have "\<dots> = year_start y + (365 + ?n 4 - ?n 100 + ?n 400)" unfolding year_start_def d by (simp only: algebra_simps)
  finally show ?thesis unfolding n .
qed

lemma year_of_right: "year_of y d = (y', d') \<Longrightarrow> year_start y' + d' = year_start y + d \<and> 0 \<le> d' \<and> d' < year_days y'"
proof (induction y d rule: year_of.induct)
  case (1 y d)
  show ?case
    using 1 year_start_Suc [of y] year_start_Suc [of "y - 1"] by (cases "d < 0"; cases "year_days y \<le> d") (simp_all add: year_of.simps [of y d])
qed

lemma month_of_right:
  assumes "month_of ls (int m) d = (m', d')" "0 \<le> d" "d < sum_list ls"
  shows "\<exists>k < length ls. m' = int (m + k) \<and> d = sum_list (take k ls) + d' \<and> 0 \<le> d' \<and> d' < ls ! k"
  using assms
proof (induction ls arbitrary: m d)
  case (Cons l ls)
  show ?case
  proof (cases "d < l")
    case True
    then show ?thesis using Cons.prems by (intro exI [of _ 0]) simp
  next
    case False
    then have "month_of ls (int (Suc m)) (d - l) = (m', d')" using Cons.prems(1) by (simp add: add.commute)
    from Cons.IH [OF this] False Cons.prems(3) obtain k where "k < length ls" "m' = int (Suc m + k)"
      "d - l = sum_list (take k ls) + d'" "0 \<le> d'" "d' < ls ! k" by auto
    then show ?thesis by (intro exI [of _ "Suc k"]) simp
  qed
qed simp

lemma month_days_sum: "sum_list (month_days y) = year_days y" "length (month_days y) = 12"
  by (simp_all add: month_days_def year_days_def)

lemma month_days_bound: "k < 12 \<Longrightarrow> month_days y ! k \<le> 31"
proof -
  assume "k < 12"
  then have "month_days y ! k \<in> set (month_days y)" by (intro nth_mem) (simp add: month_days_sum)
  then show ?thesis by (auto simp: month_days_def)
qed

text \<open>The second that a date stands for.\<close>

definition seconds_of :: "tm \<Rightarrow> int" where
  "seconds_of t =
     (year_start (tm_year t + 1900) + month_start (tm_year t + 1900) (nat (tm_mon t)) + tm_mday t - 1) * 86400 +
     tm_hour t * 3600 + tm_min t * 60 + tm_sec t"

definition tm_ok :: "tm \<Rightarrow> bool" where
  "tm_ok t \<longleftrightarrow> 0 \<le> tm_sec t \<and> tm_sec t < 60 \<and> 0 \<le> tm_min t \<and> tm_min t < 60 \<and> 0 \<le> tm_hour t \<and> tm_hour t < 24 \<and>
     1 \<le> tm_mday t \<and> tm_mday t \<le> 31 \<and> 0 \<le> tm_mon t \<and> tm_mon t < 12"

lemma hms_split: "m div 3600 * 3600 + m div 60 mod 60 * 60 + m mod 60 = m" for m :: int
proof -
  have "m div 60 div 60 = m div 3600" using zdiv_zmult2_eq [of 60 m 60] by simp
  then have a: "m div 3600 * 60 + m div 60 mod 60 = m div 60" using div_mult_mod_eq [of "m div 60" 60] by (simp only:)
  have "m div 3600 * 3600 + m div 60 mod 60 * 60 = (m div 3600 * 60 + m div 60 mod 60) * 60" by (simp add: distrib_right)
  then show ?thesis by (simp only: a div_mult_mod_eq)
qed

lemma gmtime_right: "seconds_of (gmtime_r s) = s" "tm_ok (gmtime_r s)"
  "year_start (tm_year (gmtime_r s) + 1900) \<le> s div 86400" "s div 86400 < year_start (tm_year (gmtime_r s) + 1901)"
proof -
  obtain y yd where y: "year_of 1970 (s div 86400) = (y, yd)" by fastforce
  obtain m d where md: "month_of (month_days y) (int 0) yd = (m, d)" by fastforce
  have yr: "year_start y + yd = s div 86400" "0 \<le> yd" "yd < year_days y"
    using year_of_right [OF y] by (simp_all add: year_start_def)
  obtain k where k: "k < 12" "m = int k" "yd = sum_list (take k (month_days y)) + d" "0 \<le> d" "d < month_days y ! k"
    using month_of_right [OF md yr(2)] yr(3) by (auto simp: month_days_sum)
  have t: "gmtime_r s = \<lparr>tm_sec = s mod 86400 mod 60, tm_min = s mod 86400 div 60 mod 60, tm_hour = s mod 86400 div 3600, tm_mday = d + 1,
      tm_mon = m, tm_year = y - 1900\<rparr>"
    using y md by (simp add: gmtime_r_def Let_def)
  show "seconds_of (gmtime_r s) = s"
    using yr(1) k(2,3) hms_split [of "s mod 86400"] div_mult_mod_eq [of s 86400]
    by (simp only: t seconds_of_def month_start_def tm.simps add_diff_cancel diff_add_cancel nat_int add.assoc [symmetric])
  have "s mod 86400 div 3600 \<le> 86399 div 3600" by (rule zdiv_mono1) simp_all
  then show "tm_ok (gmtime_r s)"
    using k month_days_bound [OF k(1), of y] by (simp add: t tm_ok_def pos_imp_zdiv_nonneg_iff)
  show "year_start (tm_year (gmtime_r s) + 1900) \<le> s div 86400" unfolding yr(1) [symmetric] using yr(2) by (simp add: t)
  show "s div 86400 < year_start (tm_year (gmtime_r s) + 1901)"
    unfolding yr(1) [symmetric] using yr(3) year_start_Suc [of y] by (simp add: t add.commute)
qed

section \<open>The answer can be read back\<close>

text \<open>What a client reads from the answer: the fields at their places.\<close>

definition read_time :: "string \<Rightarrow> int" where
  "read_time s =
     (let field = (\<lambda>i n. int (dec_value (take n (drop i s))))
      in seconds_of \<lparr>tm_sec = field 15 2, tm_min = field 12 2, tm_hour = field 9 2, tm_mday = field 6 2, tm_mon = field 4 2 - 1,
           tm_year = field 0 4 - 1900\<rparr> * 1000000 + field 18 6)"

lemma dec_value_pad: "of_char c \<le> (48 :: nat) \<Longrightarrow> dec_value (replicate k c @ s) = dec_value s"
proof (induction k)
  case (Suc k)
  then show ?case by (simp add: dec_value_def)
qed simp

lemma show_field_fits:
  assumes "0 \<le> n" "n < 10 ^ w" "0 < w" "of_char c \<le> (48 :: nat)"
  shows "length (show_field c w n) = w" "dec_value (show_field c w n) = nat n"
proof -
  obtain k where k: "w = Suc k" using assms(3) by (cases w) auto
  have "nat n < 10 ^ Suc k" using assms(1,2) k by (simp add: nat_less_iff)
  from length_show_nat [OF this] show "length (show_field c w n) = w" "dec_value (show_field c w n) = nat n"
    using assms k by (simp_all add: show_field_def Let_def dec_value_pad dec_value_show)
qed

lemma year_start_mono: "y \<le> y' \<Longrightarrow> year_start y \<le> year_start y'"
proof (induction y' rule: int_ge_induct)
  case (step i)
  then show ?case using year_start_Suc [of i] by (simp add: year_days_def split: if_splits)
qed simp

lemma year_in_range:
  assumes "0 \<le> s" "s < 253402300800"
  shows "0 \<le> tm_year (gmtime_r s) + 1900" "tm_year (gmtime_r s) + 1900 < 10000"
proof -
  let ?y = "tm_year (gmtime_r s) + 1900"
  have d: "0 \<le> s div 86400" "s div 86400 < 2932897"
    using assms zdiv_mono1 [of s 253402300799 86400] by (simp_all add: pos_imp_zdiv_nonneg_iff)
  show "?y < 10000"
  proof (rule ccontr)
    assume "\<not> ?y < 10000"
    then have "year_start 10000 \<le> year_start ?y" by (intro year_start_mono) simp
    then show False using gmtime_right(3) [of s] d by (simp add: year_start_def)
  qed
  show "0 \<le> ?y"
  proof (rule ccontr)
    assume "\<not> 0 \<le> ?y"
    then have "year_start (tm_year (gmtime_r s) + 1901) \<le> year_start 0" by (intro year_start_mono) simp
    then show False using gmtime_right(4) [of s] d by (simp add: year_start_def)
  qed
qed

lemma read_fields:
  assumes "length a = 4" "length b = 2" "length c = 2" "length d = 2" "length e = 2" "length f = 2" "length g = 6"
  shows "read_time (a @ b @ c @ '' '' @ d @ '':'' @ e @ '':'' @ f @ ''.'' @ g @ r) =
    seconds_of \<lparr>tm_sec = int (dec_value f), tm_min = int (dec_value e), tm_hour = int (dec_value d), tm_mday = int (dec_value c),
      tm_mon = int (dec_value b) - 1, tm_year = int (dec_value a) - 1900\<rparr> * 1000000 + int (dec_value g)"
  using assms by (simp add: read_time_def Let_def)

lemma read_time_text:
  assumes "0 \<le> now_time" "now_time < 253402300800000000"
  shows "read_time (time_text now_time @ r) = now_time" "length (time_text now_time) = 24"
proof -
  let ?s = "now_time div 1000000"
  let ?t = "gmtime_r ?s" and ?two = "show_field (CHR ''0'') 2"
  have s: "trunc_div now_time 1000000 = ?s" using assms(1) by (simp add: trunc_div_nonneg)
  then have u: "trunc_mod now_time 1000000 = now_time mod 1000000" by (simp add: trunc_mod_def minus_mult_div_eq_mod)
  have "0 \<le> ?s" "?s < 253402300800"
    using assms zdiv_mono1 [of now_time 253402300799999999 1000000] by (simp_all add: pos_imp_zdiv_nonneg_iff)
  note y = year_in_range [OF this]
  have ok: "tm_ok ?t" by (rule gmtime_right(2))
  have two: "length (?two n) = 2" "dec_value (?two n) = nat n" if "0 \<le> n" "n < 100" for n
    using show_field_fits [of n 2 "CHR ''0''"] that by simp_all
  have four: "length (show_field (CHR '' '') 4 (tm_year ?t + 1900)) = 4"
    "dec_value (show_field (CHR '' '') 4 (tm_year ?t + 1900)) = nat (tm_year ?t + 1900)"
    using show_field_fits [of "tm_year ?t + 1900" 4 "CHR '' ''"] y by simp_all
  have six: "length (show_field (CHR ''0'') 6 (now_time mod 1000000)) = 6"
    "dec_value (show_field (CHR ''0'') 6 (now_time mod 1000000)) = nat (now_time mod 1000000)"
    using show_field_fits [of "now_time mod 1000000" 6 "CHR ''0''"] by simp_all
  have l: "length (?two (tm_mon ?t + 1)) = 2" "length (?two (tm_mday ?t)) = 2" "length (?two (tm_hour ?t)) = 2"
    "length (?two (tm_min ?t)) = 2" "length (?two (tm_sec ?t)) = 2"
    using ok by (simp_all add: tm_ok_def two(1))
  then have e: "time_text now_time = show_field (CHR '' '') 4 (tm_year ?t + 1900) @ ?two (tm_mon ?t + 1) @ ?two (tm_mday ?t) @
      '' '' @ ?two (tm_hour ?t) @ '':'' @ ?two (tm_min ?t) @ '':'' @ ?two (tm_sec ?t) @ ''.'' @
      show_field (CHR ''0'') 6 (now_time mod 1000000)"
    by (simp add: time_text_def Let_def s u snprintf_def four(1) six(1))
  show "length (time_text now_time) = 24" by (simp add: e l four(1) six(1))
  have same: "seconds_of \<lparr>tm_sec = tm_sec t, tm_min = tm_min t, tm_hour = tm_hour t, tm_mday = tm_mday t, tm_mon = tm_mon t,
      tm_year = tm_year t\<rparr> = seconds_of t" for t :: tm
    by (simp add: seconds_of_def)
  have "read_time (time_text now_time @ r) = seconds_of ?t * 1000000 + now_time mod 1000000"
    using read_fields [OF four(1) l six(1), of r] ok y by (simp add: e two(2) four(2) six(2) tm_ok_def same)
  then show "read_time (time_text now_time @ r) = now_time" by (simp add: gmtime_right(1))
qed

text \<open>
  C34. The time server answers the bytes of a read, whatever they are, with one line of 25 characters, and the time of
  the read can be read back from the date in it, to the microsecond. This holds from the epoch to the end of the year 9999.
\<close>

theorem time_server_answers:
  assumes "0 \<le> now_time" "now_time < 253402300800000000" and w: "io_buffer_ok (input_buffer w)" "conn_state w = kConnected"
    and "TimeServer_OnMessageCallback env now_time w = Inr w'"
  shows "\<exists>line. accepted w' = accepted w @ bytes (line @ [CHR 0x0A]) \<and> length line = 24 \<and> read_time line = now_time \<and>
    contents (input_buffer w') = []"
proof -
  let ?b = "Refresh (length (contents (input_buffer w))) (input_buffer w)"
  have "Send env no_user (bytes (time_text now_time @ [CHR 0x0A])) (w\<lparr>input_buffer := ?b\<rparr>) = Inr w'"
    using assms(5) RetrieveAllAsString_ok [OF w(1)] by (simp add: TimeServer_OnMessageCallback_def)
  from Send_connected [OF _ this] show ?thesis
    using w read_time_text(1) [OF assms(1,2), of "[]"] read_time_text(2) [OF assms(1,2)] contents_Refresh [OF w(1)] by (intro exI [of _ "time_text now_time"]) simp
qed

theorem time_server_answers_witness:
  "\<exists>w' line. TimeServer_OnMessageCallback sample_env 1700000000123456 sample_conn = Inr w' \<and> accepted w' = bytes (line @ [CHR 0x0A]) \<and>
     length line = 24 \<and> read_time line = 1700000000123456"
proof -
  let ?t = "bytes (time_text 1700000000123456 @ [CHR 0x0A])"
  have i: "io_buffer_ok (input_buffer sample_conn)" "io_buffer_ok (output_buffer sample_conn)"
    by (simp_all add: sample_conn_fields small_buffer_ok)
  obtain o' where "Append ?t (output_buffer sample_conn) = Inr o'"
    using Append_fits [OF i(2), of ?t] length_time_text [of 1700000000123456] by (auto simp: sample_conn_fields writable_def)
  then have "\<exists>w'. Send sample_env no_user ?t (sample_conn\<lparr>input_buffer := b\<rparr>) = Inr w'" for b
    by (simp add: Send_def high_water_no_user sample_conn_fields)
  then obtain w' where run: "TimeServer_OnMessageCallback sample_env 1700000000123456 sample_conn = Inr w'"
    using RetrieveAllAsString_ok [OF i(1)] by (auto simp: TimeServer_OnMessageCallback_def)
  from time_server_answers [OF _ _ i(1) _ run] show ?thesis using run by (auto simp: sample_conn_fields)
qed

end
