(* ===== verification/Load_Balancer.thy ===== *)
theory Load_Balancer
  imports Taotu_Prelude
begin

text \<open>
  The balancer (\<^verbatim>\<open>src/src/balancer.h\<close>, \<^verbatim>\<open>src/src/balancer.cc\<close>): it picks the event manager that gets the
  next connection. An event manager is its index; the argument \<open>amounts\<close> holds what
  \<open>GetEventerAmount\<close> says of each of them, the one of the main thread at index 0. An index
  outside the vector is \<open>OutOfBounds\<close>.
\<close>

definition kRoundRobin :: int where
  "kRoundRobin = 0"

definition kMinEvents :: int where
  "kMinEvents = 1"

record balancer =
  strategy :: int
  cursor :: nat

definition Balancer :: "int \<Rightarrow> balancer" where
  "Balancer s = \<lparr>strategy = s, cursor = 0\<rparr>"

definition SetStrategy :: "int \<Rightarrow> balancer \<Rightarrow> balancer" where
  "SetStrategy s b = b\<lparr>strategy := s\<rparr>"

definition vector_at :: "'a list \<Rightarrow> nat \<Rightarrow> 'a res" where
  "vector_at xs i = (if i < length xs then Inr (xs ! i) else Inl OutOfBounds)"

text \<open>
  The loop \<open>for (i = 2; i < n; ++i)\<close>: the arguments are \<open>i\<close>, \<open>pos\<close>, \<open>min_evts\<close> and
  \<open>cursor_\<close>, which is assigned at the end of every round.
\<close>

function min_loop :: "nat list \<Rightarrow> nat \<Rightarrow> nat \<Rightarrow> nat \<Rightarrow> nat \<Rightarrow> nat" where
  "min_loop amounts i pos min_evts cur =
     (if i < length amounts
      then if amounts ! i < min_evts
           then min_loop amounts (i + 1) i (amounts ! i) i
           else min_loop amounts (i + 1) pos min_evts pos
      else cur)"
  by pat_completeness auto
termination
  by (relation "measure (\<lambda>(amounts, i, _). length amounts - i)") auto

declare min_loop.simps [simp del]

definition PickOneEventManager :: "nat list \<Rightarrow> balancer \<Rightarrow> (nat \<times> balancer) res" where
  "PickOneEventManager amounts b =
     (let evt_mng_num = length amounts
      in res_bind
        (if strategy b = kRoundRobin
         then let c = size_add (cursor b) 1
              in Inr (b\<lparr>cursor := if evt_mng_num \<le> c then 1 else c\<rparr>)
         else if strategy b = kMinEvents
         then res_bind (vector_at amounts 1) (\<lambda>min_evts.
                Inr (b\<lparr>cursor := min_loop amounts 2 1 min_evts (cursor b)\<rparr>))
         else Inr b)
        (\<lambda>b'. res_bind (vector_at amounts (cursor b')) (\<lambda>_. Inr (cursor b', b'))))"


section \<open>Round robin\<close>

lemma PickOneEventManager_round_robin:
  assumes "strategy b = kRoundRobin" and "2 \<le> length amounts" and "cursor b < length amounts"
    and "length amounts \<le> vector_max_size"
  shows "PickOneEventManager amounts b =
    (let c = if length amounts \<le> cursor b + 1 then 1 else cursor b + 1
     in Inr (c, b\<lparr>cursor := c\<rparr>))"
proof -
  have "size_add (cursor b) 1 = cursor b + 1" using assms(3,4) by (intro size_add_max) linarith
  then show ?thesis
    using assms by (simp add: PickOneEventManager_def vector_at_def Let_def)
qed

text \<open>A sequence of picks, each with the amounts of its moment.\<close>

fun picks :: "nat list list \<Rightarrow> balancer \<Rightarrow> nat list res" where
  "picks [] b = Inr []"
| "picks (amounts # rest) b =
     res_bind (PickOneEventManager amounts b) (\<lambda>(i, b').
       res_bind (picks rest b') (\<lambda>js. Inr (i # js)))"

lemma round_robin_next:
  fixes c n :: nat
  assumes "2 \<le> n" and "c < n"
  shows "(if n \<le> c + 1 then 1 else c + 1) = 1 + c mod (n - 1)"
proof (cases "n \<le> c + 1")
  case True
  then have "c = n - 1" using assms(2) by linarith
  then show ?thesis using True assms by simp
next
  case False
  then have "c mod (n - 1) = c" by (intro mod_less) simp
  then show ?thesis using False by simp
qed

lemma picks_round_robin:
  assumes "strategy b = kRoundRobin" and "2 \<le> n" and "cursor b < n" and "n \<le> vector_max_size"
    and "\<forall>amounts \<in> set history. length amounts = n"
  shows "picks history b = Inr (map (\<lambda>k. 1 + (cursor b + k) mod (n - 1)) [0..<length history])"
  using assms
proof (induction history arbitrary: b)
  case (Cons amounts rest)
  define c where "c = 1 + cursor b mod (n - 1)"
  have "cursor b mod (n - 1) < n - 1" using Cons.prems(2) by (intro mod_less_divisor) simp
  then have c: "c < n" by (simp add: c_def)
  have pick: "PickOneEventManager amounts b = Inr (c, b\<lparr>cursor := c\<rparr>)"
    using PickOneEventManager_round_robin [of b amounts] round_robin_next [OF Cons.prems(2,3)] Cons.prems
    by (simp add: c_def Let_def)
  have step: "(c + k) mod (n - 1) = (cursor b + Suc k) mod (n - 1)" for k
    using mod_add_left_eq [of "cursor b" "n - 1" "Suc k"] by (simp add: c_def)
  have "picks rest (b\<lparr>cursor := c\<rparr>) = Inr (map (\<lambda>k. 1 + (c + k) mod (n - 1)) [0..<length rest])"
    using Cons.IH [of "b\<lparr>cursor := c\<rparr>"] Cons.prems c by simp
  then have "picks (amounts # rest) b =
      Inr (c # map (\<lambda>k. 1 + (cursor b + Suc k) mod (n - 1)) [0..<length rest])"
    unfolding step by (simp add: pick)
  then show ?case
    by (simp add: upt_conv_Cons map_Suc_upt [symmetric] comp_def c_def del: upt_Suc)
qed simp



section \<open>Least events\<close>

text \<open>
  The position that the loop keeps: the first one among \<open>1 ..< i\<close> with the fewest events.
\<close>

definition least_at :: "nat list \<Rightarrow> nat \<Rightarrow> nat \<Rightarrow> bool" where
  "least_at amounts i p \<longleftrightarrow>
     1 \<le> p \<and> p < i \<and> (\<forall>j \<in> {1..<i}. amounts ! p \<le> amounts ! j) \<and>
     (\<forall>j \<in> {1..<p}. amounts ! p < amounts ! j)"

lemma min_loop_least:
  assumes "i < length amounts" and "least_at amounts i pos"
  shows "least_at amounts (length amounts) (min_loop amounts i pos (amounts ! pos) cur)"
  using assms
proof (induction "length amounts - i" arbitrary: i pos cur)
  case (Suc k)
  show ?case
  proof (cases "amounts ! i < amounts ! pos")
    case True
    have "amounts ! i < amounts ! j" if "1 \<le> j" "j < i" for j
      using True Suc.prems(2) that by (intro less_le_trans [OF True]) (simp add: least_at_def)
    then have l: "least_at amounts (i + 1) i"
      using Suc.prems(2) by (auto simp: least_at_def less_Suc_eq less_imp_le)
    show ?thesis
    proof (cases "i + 1 < length amounts")
      case more: True
      show ?thesis using Suc.hyps(1) [of "i + 1" i i] Suc.hyps(2) l more True Suc.prems(1)
        by (subst min_loop.simps) simp
    next
      case False
      then have "length amounts = i + 1" using Suc.prems(1) by simp
      then show ?thesis using l True by (subst min_loop.simps, subst min_loop.simps) simp
    qed
  next
    case False
    then have l: "least_at amounts (i + 1) pos"
      using Suc.prems(2) by (auto simp: least_at_def less_Suc_eq)
    show ?thesis
    proof (cases "i + 1 < length amounts")
      case more: True
      show ?thesis using Suc.hyps(1) [of "i + 1" pos pos] Suc.hyps(2) l more False Suc.prems(1)
        by (subst min_loop.simps) simp
    next
      case stop: False
      then have "length amounts = i + 1" using Suc.prems(1) by simp
      then show ?thesis using l False by (subst min_loop.simps, subst min_loop.simps) simp
    qed
  qed
qed simp


section \<open>Correctness\<close>

text \<open>
  Round robin is fair: with at least two event managers, the \<open>k\<close>-th pick of a new balancer is
  the manager \<open>1 + k mod (n - 1)\<close>, whatever the loads are, so the managers other than the
  one of the main thread get the connections in turn.
\<close>

theorem round_robin_fair:
  assumes "2 \<le> n" and "n \<le> vector_max_size"
    and "\<forall>amounts \<in> set history. length amounts = n"
  shows "picks history (Balancer kRoundRobin) =
    Inr (map (\<lambda>k. 1 + k mod (n - 1)) [0..<length history])"
  using picks_round_robin [of "Balancer kRoundRobin" n history] assms by (simp add: Balancer_def)

theorem round_robin_fair_witness:
  "picks [[0, 5, 1], [0, 6, 1], [0, 6, 2]] (Balancer kRoundRobin) = Inr [1, 2, 1]"
  using round_robin_fair [of 3 "[[0, 5, 1], [0, 6, 1], [0, 6, 2]]"]
  by (simp add: vector_max_size_def upt_rec)

text \<open>
  Least events: with at least three event managers the pick is the first manager, other than
  the one of the main thread, that holds the fewest events. With two managers the loop has no
  round, the cursor is not assigned, and a new balancer picks the manager of the main thread;
  with one manager the vector is read outside its bounds.
\<close>

theorem min_events_pick:
  assumes "strategy b = kMinEvents"
  shows "if length amounts \<le> 1 then PickOneEventManager amounts b = Inl OutOfBounds
    else if length amounts = 2 \<and> cursor b < 2
    then PickOneEventManager amounts b = Inr (cursor b, b)
    else 3 \<le> length amounts \<longrightarrow>
      (\<exists>p. PickOneEventManager amounts b = Inr (p, b\<lparr>cursor := p\<rparr>) \<and>
        least_at amounts (length amounts) p)"
proof -
  have other: "kMinEvents \<noteq> kRoundRobin" by (simp add: kMinEvents_def kRoundRobin_def)
  have "PickOneEventManager amounts b = Inl OutOfBounds" if "length amounts \<le> 1"
    using that assms other by (simp add: PickOneEventManager_def vector_at_def Let_def)
  moreover have "PickOneEventManager amounts b = Inr (cursor b, b)"
    if "length amounts = 2" "cursor b < 2"
    using that assms other
    by (simp add: PickOneEventManager_def vector_at_def Let_def min_loop.simps [of _ 2])
  moreover have "\<exists>p. PickOneEventManager amounts b = Inr (p, b\<lparr>cursor := p\<rparr>) \<and>
      least_at amounts (length amounts) p" if "3 \<le> length amounts"
  proof -
    have "{1..<2} = {1 :: nat}" by auto
    then have "least_at amounts 2 1" by (simp add: least_at_def)
    then have l: "least_at amounts (length amounts) (min_loop amounts 2 1 (amounts ! 1) (cursor b))"
      using that by (intro min_loop_least) simp_all
    then have "min_loop amounts 2 1 (amounts ! 1) (cursor b) < length amounts"
      by (simp add: least_at_def)
    then show ?thesis
      using that assms other l by (simp add: PickOneEventManager_def vector_at_def Let_def)
  qed
  ultimately show ?thesis by simp
qed

theorem min_events_pick_witness:
  "\<exists>p. PickOneEventManager [0, 4, 2, 2] (Balancer kMinEvents) =
     Inr (p, (Balancer kMinEvents)\<lparr>cursor := p\<rparr>) \<and> least_at [0, 4, 2, 2] 4 p"
  using min_events_pick [of "Balancer kMinEvents" "[0, 4, 2, 2]"]
  by (simp add: Balancer_def kMinEvents_def numeral_eq_Suc)

end
