(* ===== verification/Pingpong_Client.thy ===== *)
theory Pingpong_Client
  imports Load_Balancer Loop_Safety
begin

text \<open>
  The client of the ping-pong example (\<^verbatim>\<open>src/example/pingpong/pingpong_client.cc\<close>): sessions, each with a
  connection of its own, send back whatever they receive, until a timeout or until the last connection has ended.

  A session is its counters and the index of its event manager. What \<open>Client\<close> does for it is the subject of
  \<open>Client_Reactor\<close>; here it is a task of the event manager. \<open>reports\<close> are the numbers that have been printed;
  the quotients computed from them are left out. The counters are far from the bounds of \<open>int64_t\<close>. \<open>conn_num\<close> and
  the two flags are atomic, and every operation on them is one step.
\<close>

section \<open>State\<close>

datatype pp_task = TimeoutTask | StopSession nat | QuitTask

record session =
  session_manager :: nat
  session_started :: bool
  bytes_read :: int
  messages_read :: int

record 'c pingpong =
  pp_managers :: "('c, pp_task) event_manager option list"
  looping :: "nat list"
  session_count :: nat
  timeout :: int
  message :: "byte list"
  sessions :: "session list"
  conn_num :: nat
  stats_reported :: bool
  quit_requested :: bool
  pp_balancer :: balancer
  reports :: "(int \<times> int) list"

definition vector_put :: "nat \<Rightarrow> 'a \<Rightarrow> 'a list \<Rightarrow> 'a list res" where
  "vector_put i x xs = (if i < length xs then Inr (xs[i := x]) else Inl OutOfBounds)"

fun put_managers :: "nat list \<Rightarrow> ('c, pp_task) event_manager option list \<Rightarrow> ('c, pp_task) event_manager option list res" where
  "put_managers [] ms = Inr ms"
| "put_managers (i # is') ms = res_bind (vector_put i (Some EventManager) ms) (put_managers is')"

definition PingpongClient :: "nat \<Rightarrow> nat \<Rightarrow> int \<Rightarrow> nat \<Rightarrow> 'c pingpong res" where
  "PingpongClient block_size n_sessions time thread_count =
     res_bind (vector_put 0 None (replicate thread_count None @ [None])) (\<lambda>ms.
     res_bind (put_managers [1] ms) (\<lambda>ms.
     res_bind (put_managers [2..<size_add thread_count 1] ms) (\<lambda>ms.
       Inr \<lparr>pp_managers = ms, looping = [2..<size_add thread_count 1], session_count = n_sessions, timeout = time,
            message = map (\<lambda>i. of_nat (i mod 128)) [1..<block_size + 1], sessions = [], conn_num = 0,
            stats_reported = False, quit_requested = False, pp_balancer = Balancer 0, reports = []\<rparr>)))"

text \<open>An operation on the event manager at an index.\<close>

definition on_manager ::
  "nat \<Rightarrow> (('c, pp_task) event_manager \<Rightarrow> ('c, pp_task) event_manager) \<Rightarrow> 'c pingpong \<Rightarrow> 'c pingpong res" where
  "on_manager i f c =
     res_bind (vector_at (pp_managers c) i) (\<lambda>m.
       case m of None \<Rightarrow> Inl NullPointer | Some em \<Rightarrow> Inr (c\<lparr>pp_managers := (pp_managers c)[i := Some (f em)]\<rparr>))"

section \<open>Sessions\<close>

definition Session :: "nat \<Rightarrow> session" where
  "Session i = \<lparr>session_manager = i, session_started = False, bytes_read = 0, messages_read = 0\<rparr>"

definition Session_Start :: "session \<Rightarrow> session" where
  "Session_Start s = s\<lparr>session_started := True\<rparr>"

definition Session_Stop :: "clock \<Rightarrow> nat \<Rightarrow> 'c pingpong \<Rightarrow> 'c pingpong res" where
  "Session_Stop clock k c = on_manager (session_manager (sessions c ! k)) (RunSoon clock (StopSession k)) c"

fun stop_sessions :: "clock \<Rightarrow> nat list \<Rightarrow> 'c pingpong \<Rightarrow> 'c pingpong res" where
  "stop_sessions clock [] c = Inr c"
| "stop_sessions clock (k # ks) c = res_bind (Session_Stop clock k c) (stop_sessions clock ks)"

definition ReportStatsOnce :: "'c pingpong \<Rightarrow> 'c pingpong" where
  "ReportStatsOnce c =
     (if stats_reported c then c
      else c\<lparr>stats_reported := True,
             reports := reports c @ [(sum_list (map bytes_read (sessions c)), sum_list (map messages_read (sessions c)))]\<rparr>)"

definition RequestQuit :: "'c pingpong \<Rightarrow> 'c pingpong" where
  "RequestQuit c =
     (if quit_requested c then c
      else c\<lparr>quit_requested := True,
             pp_managers := take 1 (pp_managers c) @ map (map_option (\<lambda>em. WakeUp (Quit em))) (drop 1 (pp_managers c))\<rparr>)"

definition OnConnecting :: "'c pingpong \<Rightarrow> 'c pingpong" where
  "OnConnecting c = c\<lparr>conn_num := size_add (conn_num c) 1\<rparr>"

definition OnDisconnecting :: "'c pingpong \<Rightarrow> 'c pingpong" where
  "OnDisconnecting c =
     (let c1 = c\<lparr>conn_num := size_sub (conn_num c) 1\<rparr>
      in if conn_num c1 = 0 then RequestQuit (ReportStatsOnce c1) else c1)"

definition DoWithTimeout :: "clock \<Rightarrow> 'c pingpong \<Rightarrow> 'c pingpong res" where
  "DoWithTimeout clock c =
     res_bind (stop_sessions clock [0..<length (sessions c)] (ReportStatsOnce c)) (\<lambda>c1. Inr (RequestQuit c1))"

text \<open>
  The callbacks of a session. The client behind the weak pointer is an argument, \<open>None\<close> when it is gone. A message without
  bytes has no first element whose address could be taken.
\<close>

definition Session_OnConnection :: "uring_env \<Rightarrow> connecting \<Rightarrow> 'c pingpong option \<Rightarrow> (connecting \<times> 'c pingpong option) res" where
  "Session_OnConnection env w master_client =
     (if IsConnected w
      then let w1 = SetTcpNoDelay True w
           in case master_client of
                None \<Rightarrow> Inr (w1, None)
              | Some c \<Rightarrow>
                  if message c = [] then Inl OutOfBounds
                  else res_bind (Send env no_user (message c) w1) (\<lambda>w2. Inr (w2, Some (OnConnecting c)))
      else Inr (w, map_option OnDisconnecting master_client))"

definition Session_OnMessage :: "uring_env \<Rightarrow> connecting \<Rightarrow> session \<Rightarrow> (connecting \<times> session) res" where
  "Session_OnMessage env w s =
     res_bind (Send_buffer env no_user (input_buffer w) w) (\<lambda>(b, w1).
       Inr (w1\<lparr>input_buffer := b\<rparr>,
            s\<lparr>messages_read := messages_read s + 1,
              bytes_read := bytes_read s + int (GetReadableBytes (input_buffer w))\<rparr>))"

section \<open>Starting and ending\<close>

definition int_mul :: "int \<Rightarrow> int \<Rightarrow> int res" where
  "int_mul a b = (if - (2 ^ 31) \<le> a * b \<and> a * b < 2 ^ 31 then Inr (a * b) else Inl SignedOverflow)"

fun start_sessions :: "nat \<Rightarrow> 'c pingpong \<Rightarrow> 'c pingpong res" where
  "start_sessions 0 c = Inr c"
| "start_sessions (Suc n) c =
     res_bind (PickOneEventManager (replicate (length (pp_managers c)) 0) (pp_balancer c)) (\<lambda>(i, b).
       start_sessions n (c\<lparr>pp_balancer := b, sessions := sessions c @ [Session_Start (Session i)]\<rparr>))"

text \<open>\<open>Start\<close> until the loop of the second event manager runs, and after it.\<close>

definition Pingpong_Start :: "clock \<Rightarrow> 'c pingpong \<Rightarrow> 'c pingpong res" where
  "Pingpong_Start clock c =
     res_bind (int_mul (timeout c) 1000) (\<lambda>t.
     res_bind (int_mul t 1000) (\<lambda>t.
     res_bind (on_manager 1 (RunAfter clock t TimeoutTask) c) (start_sessions (session_count c))))"

definition Pingpong_Finish :: "'c pingpong \<Rightarrow> 'c pingpong" where
  "Pingpong_Finish c =
     c\<lparr>pp_managers := take 2 (pp_managers c) @ map (map_option (\<lambda>em. WakeUp (Quit em))) (drop 2 (pp_managers c)), looping := []\<rparr>"

fun quit_soon :: "clock \<Rightarrow> nat list \<Rightarrow> 'c pingpong \<Rightarrow> 'c pingpong res" where
  "quit_soon clock [] c = Inr c"
| "quit_soon clock (i # is') c = res_bind (on_manager i (RunSoon clock QuitTask) c) (quit_soon clock is')"

definition destroy_pingpong :: "clock \<Rightarrow> 'c pingpong \<Rightarrow> 'c pingpong res" where
  "destroy_pingpong clock c =
     res_bind (quit_soon clock [1..<length (pp_managers c)] (c\<lparr>sessions := []\<rparr>)) (\<lambda>c1.
       Inr (c1\<lparr>pp_managers := map (\<lambda>_. None) (pp_managers c1)\<rparr>))"

section \<open>Runs\<close>

text \<open>
  A run of the client: sessions are connected, messages arrive, connections end, and the timeout fires, in any order. \<open>cs\<close> are the
  connections of the sessions, \<open>rs\<close> the bytes that each has received.
\<close>

inductive pp_reach :: "uring_env \<Rightarrow> clock \<Rightarrow> 'c pingpong \<Rightarrow> (nat \<rightharpoonup> connecting) \<Rightarrow> (nat \<Rightarrow> byte list) \<Rightarrow> bool" for env clock where
  pp_start: "PingpongClient block_size n time threads = Inr c0 \<Longrightarrow> n \<le> vector_max_size \<Longrightarrow> threads \<le> vector_max_size \<Longrightarrow>
    Pingpong_Start clock c0 = Inr c \<Longrightarrow> pp_reach env clock c Map.empty (\<lambda>_. [])"
| pp_up: "pp_reach env clock c cs rs \<Longrightarrow> k < length (sessions c) \<Longrightarrow> cs k = None \<Longrightarrow> conn_state w = kConnected \<Longrightarrow> accepted w = [] \<Longrightarrow>
    Session_OnConnection env w (Some c) = Inr (w', Some c') \<Longrightarrow> pp_reach env clock c' (cs(k \<mapsto> w')) rs"
| pp_message: "pp_reach env clock c cs rs \<Longrightarrow> cs k = Some w \<Longrightarrow> conn_state w = kConnected \<Longrightarrow> io_buffer_ok b \<Longrightarrow>
    Session_OnMessage env (w\<lparr>input_buffer := b\<rparr>) (sessions c ! k) = Inr (w', s') \<Longrightarrow>
    pp_reach env clock (c\<lparr>sessions := (sessions c)[k := s']\<rparr>) (cs(k \<mapsto> w')) (rs(k := rs k @ contents b))"
| pp_down: "pp_reach env clock c cs rs \<Longrightarrow> cs k = Some w \<Longrightarrow> conn_state w = kConnected \<Longrightarrow>
    Session_OnConnection env (w\<lparr>conn_state := kDisconnected\<rparr>) (Some c) = Inr (w', Some c') \<Longrightarrow> pp_reach env clock c' (cs(k \<mapsto> w')) rs"
| pp_timeout: "pp_reach env clock c cs rs \<Longrightarrow> DoWithTimeout clock c = Inr c' \<Longrightarrow> pp_reach env clock c' cs rs"

definition connected :: "(nat \<rightharpoonup> connecting) \<Rightarrow> nat set" where
  "connected cs = {k. \<exists>w. cs k = Some w \<and> conn_state w = kConnected}"

text \<open>Which event managers exist and are told to quit.\<close>

definition quitting :: "'c pingpong \<Rightarrow> bool option list" where
  "quitting c = map (map_option should_quit) (drop 1 (pp_managers c))"

definition echoed :: "'c pingpong \<Rightarrow> (nat \<rightharpoonup> connecting) \<Rightarrow> (nat \<Rightarrow> byte list) \<Rightarrow> bool" where
  "echoed c cs rs \<longleftrightarrow> (\<forall>k w. cs k = Some w \<longrightarrow> k < length (sessions c) \<and> accepted w = message c @ rs k) \<and>
     (\<forall>k. cs k = None \<longrightarrow> rs k = []) \<and> (\<forall>k < length (sessions c). bytes_read (sessions c ! k) = int (length (rs k)))"

definition ended :: "'c pingpong \<Rightarrow> (nat \<rightharpoonup> connecting) \<Rightarrow> bool" where
  "ended c cs \<longleftrightarrow> conn_num c = card (connected cs) \<and> None \<notin> set (quitting c) \<and>
     (dom cs \<noteq> {} \<and> connected cs = {} \<longrightarrow> quit_requested c) \<and>
     (quit_requested c \<longrightarrow> stats_reported c \<and> (\<forall>q \<in> set (quitting c). q = Some True)) \<and>
     length (reports c) = (if stats_reported c then 1 else 0)"

definition pp_inv :: "'c pingpong \<Rightarrow> (nat \<rightharpoonup> connecting) \<Rightarrow> (nat \<Rightarrow> byte list) \<Rightarrow> bool" where
  "pp_inv c cs rs \<longleftrightarrow> length (sessions c) \<le> vector_max_size \<and> dom cs \<subseteq> {..<length (sessions c)} \<and> echoed c cs rs \<and> ended c cs"

lemma RunSoon_quit: "should_quit (RunSoon clock t em) = should_quit em"
  by (simp add: RunSoon_def WakeUp_def read_clock_def split: prod.splits)

lemma RunAfter_quit: "should_quit (RunAfter clock d t em) = should_quit em"
  by (simp add: RunAfter_def add_task_def WakeUp_def read_clock_def Let_def split: prod.splits)

text \<open>Operations that only give tasks to event managers.\<close>

definition only_tasks :: "'c pingpong \<Rightarrow> 'c pingpong \<Rightarrow> bool" where
  "only_tasks c c' \<longleftrightarrow> (\<exists>ms. c' = c\<lparr>pp_managers := ms\<rparr> \<and> map (map_option should_quit) ms = map (map_option should_quit) (pp_managers c))"

lemma on_manager_tasks:
  assumes "on_manager i f c = Inr c'" "\<And>em. should_quit (f em) = should_quit em"
  shows "only_tasks c c'"
proof -
  obtain em where em: "i < length (pp_managers c)" "pp_managers c ! i = Some em" "c' = c\<lparr>pp_managers := (pp_managers c)[i := Some (f em)]\<rparr>"
    using assms(1) by (auto simp: on_manager_def vector_at_def res_bind_Inr_iff split: if_splits option.splits)
  then have "map (map_option should_quit) ((pp_managers c)[i := Some (f em)]) = map (map_option should_quit) (pp_managers c)"
    by (simp add: map_update assms(2) list_update_same_conv)
  then show ?thesis using em(3) by (auto simp: only_tasks_def)
qed

lemma only_tasks_trans: "only_tasks c c1 \<Longrightarrow> only_tasks c1 c2 \<Longrightarrow> only_tasks c c2"
  by (auto simp: only_tasks_def)

lemma stop_sessions_tasks: "stop_sessions clock ks c = Inr c' \<Longrightarrow> only_tasks c c'"
proof (induction ks arbitrary: c)
  case Nil
  then show ?case unfolding only_tasks_def by (intro exI [of _ "pp_managers c"]) simp
next
  case (Cons k ks)
  then obtain c1 where c1: "Session_Stop clock k c = Inr c1" "stop_sessions clock ks c1 = Inr c'" by (auto simp: res_bind_Inr_iff)
  have "only_tasks c c1" by (rule on_manager_tasks [OF c1(1) [unfolded Session_Stop_def]]) (rule RunSoon_quit)
  then show ?case using Cons.IH [OF c1(2)] by (rule only_tasks_trans)
qed

lemma only_tasks_quitting: "only_tasks c c' \<Longrightarrow> quitting c' = quitting c"
  by (auto simp: only_tasks_def quitting_def drop_map [symmetric])

section \<open>The invariant\<close>

lemma connected_bound: "dom cs \<subseteq> {..<n} \<Longrightarrow> finite (connected cs) \<and> card (connected cs) \<le> n"
proof -
  assume d: "dom cs \<subseteq> {..<n}"
  have "connected cs \<subseteq> {..<n}" using d by (auto simp: connected_def)
  then show ?thesis using card_mono [of "{..<n}" "connected cs"] finite_subset by auto
qed

lemma connected_upd:
  "conn_state w = kConnected \<Longrightarrow> connected (cs(k \<mapsto> w)) = insert k (connected cs)"
  "conn_state w = kDisconnected \<Longrightarrow> connected (cs(k \<mapsto> w)) = connected cs - {k}"
  by (auto simp: connected_def split: if_splits)

lemma up_effect:
  assumes "Session_OnConnection env w (Some c) = Inr (w', Some c')" "conn_state w = kConnected"
  shows "c' = OnConnecting c \<and> conn_state w' = kConnected \<and> accepted w' = accepted w @ message c"
proof -
  have "Send env no_user (message c) (SetTcpNoDelay True w) = Inr w'" "c' = OnConnecting c"
    using assms by (auto simp: Session_OnConnection_def IsConnected_def Let_def res_bind_Inr_iff split: if_splits)
  then show ?thesis
    using Send_connected [of "SetTcpNoDelay True w"] assms(2) by (simp add: SetTcpNoDelay_def emit_def)
qed

lemma down_effect:
  assumes "Session_OnConnection env (w\<lparr>conn_state := kDisconnected\<rparr>) (Some c) = Inr (w', Some c')"
  shows "c' = OnDisconnecting c \<and> w' = w\<lparr>conn_state := kDisconnected\<rparr>"
  using assms by (auto simp: Session_OnConnection_def IsConnected_def)

lemma message_effect:
  assumes "Session_OnMessage env (w\<lparr>input_buffer := b\<rparr>) s = Inr (w', s')" "conn_state w = kConnected" "io_buffer_ok b"
  shows "conn_state w' = kConnected \<and> accepted w' = accepted w @ contents b \<and>
    s' = s\<lparr>messages_read := messages_read s + 1, bytes_read := bytes_read s + int (length (contents b))\<rparr>"
proof -
  obtain w1 where "Send env no_user (contents b) (w\<lparr>input_buffer := b\<rparr>) = Inr w1" "w' = w1\<lparr>input_buffer := RefreshRW b\<rparr>"
    "s' = s\<lparr>messages_read := messages_read s + 1, bytes_read := bytes_read s + int (length (contents b))\<rparr>"
    using assms by (auto simp: Session_OnMessage_def Send_buffer_def res_bind_Inr_iff mem_read_contents GetReadableBytes_contents)
  then show ?thesis using Send_connected [of "w\<lparr>input_buffer := b\<rparr>"] assms(2) by simp
qed

text \<open>The start.\<close>

lemma put_managers_ok:
  assumes "put_managers ks ms = Inr ms'"
  shows "length ms' = length ms \<and> (\<forall>j < length ms. ms' ! j = (if j \<in> set ks then Some EventManager else ms ! j))"
  using assms
proof (induction ks arbitrary: ms)
  case (Cons k ks)
  then have "k < length ms" "put_managers ks (ms[k := Some EventManager]) = Inr ms'"
    by (auto simp: vector_put_def res_bind_Inr_iff split: if_splits)
  from Cons.IH [OF this(2)] this(1) show ?case by (simp add: nth_list_update)
qed simp

lemma PingpongClient_fields:
  assumes "PingpongClient block_size n time threads = Inr c" "threads \<le> vector_max_size"
  shows "1 \<le> threads" "length (pp_managers c) = threads + 1" "None \<notin> set (quitting c)" "sessions c = []" "session_count c = n"
    "conn_num c = 0" "\<not> stats_reported c" "\<not> quit_requested c" "reports c = []" "pp_balancer c = Balancer 0"
proof -
  let ?ms = "(replicate threads None @ [None])[0 := None] :: ('a, pp_task) event_manager option list"
  have t: "size_add threads (Suc 0) = Suc threads" using assms(2) size_add_small [of threads "Suc 0"] by (simp add: vector_max_size_def)
  obtain ms1 ms where ms: "put_managers [1] ?ms = Inr ms1" "put_managers [2..<Suc threads] ms1 = Inr ms" "pp_managers c = ms"
    "sessions c = []" "session_count c = n" "conn_num c = 0" "\<not> stats_reported c" "\<not> quit_requested c" "reports c = []"
    "pp_balancer c = Balancer 0"
    using assms(1) by (auto simp: PingpongClient_def res_bind_Inr_iff t vector_put_def simp del: put_managers.simps upt_Suc split: if_splits)
  show "1 \<le> threads" using ms(1) by (auto simp: vector_put_def res_bind_Inr_iff split: if_splits)
  note p = put_managers_ok [OF ms(1)] put_managers_ok [OF ms(2)]
  then show l: "length (pp_managers c) = threads + 1" using ms(3) by simp
  have "ms ! j \<noteq> None" if "1 \<le> j" "j < threads + 1" for j using p that by (cases "j = 1") auto
  then have "None \<notin> set (drop 1 ms)" using l ms(3) by (force simp: in_set_conv_nth)
  then show "None \<notin> set (quitting c)" using ms(3) by (auto simp: quitting_def)
  show "sessions c = []" "session_count c = n" "conn_num c = 0" "\<not> stats_reported c" "\<not> quit_requested c" "reports c = []"
    "pp_balancer c = Balancer 0"
    by (fact ms)+
qed

lemma start_sessions_fields:
  assumes "start_sessions n c = Inr c'"
  shows "\<exists>b ss. c' = c\<lparr>pp_balancer := b, sessions := sessions c @ ss\<rparr> \<and> length ss = n \<and> (\<forall>s \<in> set ss. bytes_read s = 0)"
  using assms
proof (induction n arbitrary: c)
  case 0
  then show ?case by (intro exI [of _ "pp_balancer c"] exI [of _ "[]"]) simp
next
  case (Suc n)
  then obtain i b where "start_sessions n (c\<lparr>pp_balancer := b, sessions := sessions c @ [Session_Start (Session i)]\<rparr>) = Inr c'"
    by (auto simp: res_bind_Inr_iff)
  from Suc.IH [OF this] obtain b' ss where
    "c' = c\<lparr>pp_balancer := b', sessions := sessions c @ Session_Start (Session i) # ss\<rparr>" "length ss = n" "\<forall>s \<in> set ss. bytes_read s = 0"
    by auto
  then show ?case
    by (intro exI [of _ b'] exI [of _ "Session_Start (Session i) # ss"]) (simp add: Session_Start_def Session_def)
qed

lemma start_inv:
  assumes c0: "PingpongClient block_size n time threads = Inr c0" "n \<le> vector_max_size" "threads \<le> vector_max_size"
    and start: "Pingpong_Start clock c0 = Inr c"
  shows "pp_inv c Map.empty (\<lambda>_. [])"
proof -
  note f = PingpongClient_fields [OF c0(1,3)]
  obtain t c1 where c1: "on_manager 1 (RunAfter clock t TimeoutTask) c0 = Inr c1" "start_sessions n c1 = Inr c"
    using start f(5) by (auto simp: Pingpong_Start_def res_bind_Inr_iff)
  have o: "only_tasks c0 c1" by (rule on_manager_tasks [OF c1(1)]) (rule RunAfter_quit)
  obtain b ss where ss: "c = c1\<lparr>pp_balancer := b, sessions := sessions c1 @ ss\<rparr>" "length ss = n" "\<forall>s \<in> set ss. bytes_read s = 0"
    using start_sessions_fields [OF c1(2)] by blast
  have "quitting c = quitting c0" using only_tasks_quitting [OF o] ss(1) by (simp add: quitting_def)
  moreover have "sessions c = ss" "conn_num c = 0" "\<not> quit_requested c" "\<not> stats_reported c" "reports c = []"
    using o ss(1) f by (auto simp: only_tasks_def)
  ultimately show ?thesis
    using ss(2,3) c0(2) f(3) by (simp add: pp_inv_def echoed_def ended_def connected_def)
qed

text \<open>The end: what \<open>OnDisconnecting\<close> and the timeout do.\<close>

lemma RequestQuit_quitting:
  assumes "None \<notin> set (quitting c)"
  shows "quitting (RequestQuit c) = (if quit_requested c then quitting c else map (\<lambda>_. Some True) (quitting c))"
proof (cases "pp_managers c")
  case (Cons m ms)
  have "map_option should_quit (map_option (\<lambda>em. WakeUp (Quit em)) x) = Some True" if "x \<in> set ms" for x
  proof (cases x)
    case None
    then show ?thesis using that assms Cons by (auto simp: quitting_def image_iff)
  qed (simp add: WakeUp_def Quit_def)
  then show ?thesis using Cons by (simp add: RequestQuit_def quitting_def)
qed (simp add: RequestQuit_def quitting_def)

lemma RequestQuit_fields [simp]:
  "sessions (RequestQuit c) = sessions c" "message (RequestQuit c) = message c" "conn_num (RequestQuit c) = conn_num c"
  "stats_reported (RequestQuit c) = stats_reported c" "reports (RequestQuit c) = reports c" "quit_requested (RequestQuit c)"
  by (simp_all add: RequestQuit_def)

lemma ReportStatsOnce_fields [simp]:
  "sessions (ReportStatsOnce c) = sessions c" "message (ReportStatsOnce c) = message c" "conn_num (ReportStatsOnce c) = conn_num c"
  "stats_reported (ReportStatsOnce c)" "quit_requested (ReportStatsOnce c) = quit_requested c" "quitting (ReportStatsOnce c) = quitting c"
  "length (reports (ReportStatsOnce c)) = (if stats_reported c then length (reports c) else Suc (length (reports c)))"
  by (simp_all add: ReportStatsOnce_def quitting_def)

lemma end_inv:
  assumes "ended c cs" "only_tasks (ReportStatsOnce (c\<lparr>conn_num := n\<rparr>)) c1" "n = card (connected cs')"
  shows "ended (RequestQuit c1) cs'"
proof -
  have o: "quitting c1 = quitting c" "conn_num c1 = n" "quit_requested c1 = quit_requested c" "stats_reported c1"
    "reports c1 = reports (ReportStatsOnce (c\<lparr>conn_num := n\<rparr>))"
    using assms(2) only_tasks_quitting [OF assms(2)] by (auto simp: only_tasks_def) (simp_all add: quitting_def)
  have "length (reports (ReportStatsOnce (c\<lparr>conn_num := n\<rparr>))) = 1"
    using assms(1) by (simp add: ended_def)
  then show ?thesis
    using assms(1,3) o RequestQuit_quitting [of c1] by (auto simp: ended_def)
qed

lemma only_tasks_refl: "only_tasks c c"
  unfolding only_tasks_def by (intro exI [of _ "pp_managers c"]) simp

lemma echoed_same: "sessions c' = sessions c \<Longrightarrow> message c' = message c \<Longrightarrow> echoed c' cs rs = echoed c cs rs"
  by (simp add: echoed_def)

text \<open>Each step keeps the invariant.\<close>

lemma up_inv:
  assumes i: "pp_inv c cs rs" and k: "k < length (sessions c)" "cs k = None" and w: "conn_state w = kConnected" "accepted w = []"
    and r: "Session_OnConnection env w (Some c) = Inr (w', Some c')"
  shows "pp_inv c' (cs(k \<mapsto> w')) rs"
proof -
  note e = up_effect [OF r w(1)] and i = i [unfolded pp_inv_def]
  have "k \<notin> connected cs" "finite (connected cs)" "card (connected cs) \<le> vector_max_size"
    using k(2) connected_bound [of cs "length (sessions c)"] i by (auto simp: connected_def)
  then have "size_add (conn_num c) 1 = card (connected (cs(k \<mapsto> w')))"
    using i e by (simp add: connected_upd(1) ended_def size_add_small vector_max_size_def)
  then have "ended c' (cs(k \<mapsto> w'))"
    using i e by (simp add: ended_def OnConnecting_def connected_upd(1) quitting_def)
  moreover have "echoed c' (cs(k \<mapsto> w')) rs" using i e k w(2) by (auto simp: echoed_def OnConnecting_def)
  ultimately show ?thesis using i e k(1) by (simp add: pp_inv_def OnConnecting_def del: fun_upd_apply)
qed

lemma message_inv:
  assumes i: "pp_inv c cs rs" and w: "cs k = Some w" "conn_state w = kConnected" "io_buffer_ok b"
    and r: "Session_OnMessage env (w\<lparr>input_buffer := b\<rparr>) (sessions c ! k) = Inr (w', s')"
  shows "pp_inv (c\<lparr>sessions := (sessions c)[k := s']\<rparr>) (cs(k \<mapsto> w')) (rs(k := rs k @ contents b))"
proof -
  note e = message_effect [OF r w(2,3)] and i = i [unfolded pp_inv_def]
  have k: "k < length (sessions c)" "k \<in> connected cs" using i w(1,2) by (auto simp: connected_def)
  have "ended (c\<lparr>sessions := (sessions c)[k := s']\<rparr>) (cs(k \<mapsto> w'))"
    using i e k by (auto simp: ended_def connected_upd(1) insert_absorb quitting_def)
  moreover have "echoed (c\<lparr>sessions := (sessions c)[k := s']\<rparr>) (cs(k \<mapsto> w')) (rs(k := rs k @ contents b))"
    using i e k w(1) by (auto simp: echoed_def nth_list_update)
  ultimately show ?thesis using i k by (simp add: pp_inv_def del: fun_upd_apply)
qed

lemma down_inv:
  assumes i: "pp_inv c cs rs" and w: "cs k = Some w" "conn_state w = kConnected"
    and r: "Session_OnConnection env (w\<lparr>conn_state := kDisconnected\<rparr>) (Some c) = Inr (w', Some c')"
  shows "pp_inv c' (cs(k \<mapsto> w')) rs"
proof -
  note e = down_effect [OF r] and i = i [unfolded pp_inv_def]
  have k: "k < length (sessions c)" "k \<in> connected cs" using i w by (auto simp: connected_def)
  note b = connected_bound [OF i [THEN conjunct2, THEN conjunct1]]
  have u: "connected (cs(k \<mapsto> w')) = connected cs - {k}" using e by (simp add: connected_upd(2))
  have "1 \<le> card (connected cs)" using b k(2) by (auto simp: Suc_le_eq card_gt_0_iff)
  then have n: "size_sub (conn_num c) 1 = card (connected (cs(k \<mapsto> w')))"
    using i b k u by (simp add: ended_def size_sub_small card_Diff_singleton vector_max_size_def)
  let ?c = "c\<lparr>conn_num := size_sub (conn_num c) 1\<rparr>"
  have "ended c' (cs(k \<mapsto> w'))"
  proof (cases "size_sub (conn_num c) 1 = 0")
    case True
    then have "c' = RequestQuit (ReportStatsOnce ?c)" using e by (simp add: OnDisconnecting_def Let_def)
    then show ?thesis using end_inv [of c cs "size_sub (conn_num c) 1" _ "cs(k \<mapsto> w')", OF _ only_tasks_refl n] i by simp
  next
    case False
    then have c': "c' = ?c" using e by (simp add: OnDisconnecting_def Let_def)
    have "connected (cs(k \<mapsto> w')) \<noteq> {}" using False n by auto
    then show ?thesis using i n unfolding c' by (simp add: ended_def quitting_def del: fun_upd_apply)
  qed
  moreover have s: "sessions c' = sessions c" "message c' = message c" using e by (simp_all add: OnDisconnecting_def Let_def)
  moreover have "echoed c' (cs(k \<mapsto> w')) rs" using i e w(1) unfolding echoed_same [OF s] by (auto simp: echoed_def)
  ultimately show ?thesis using i k by (simp add: pp_inv_def del: fun_upd_apply)
qed

lemma timeout_inv:
  assumes i: "pp_inv c cs rs" and r: "DoWithTimeout clock c = Inr c'"
  shows "pp_inv c' cs rs"
proof -
  obtain c1 where c1: "stop_sessions clock [0..<length (sessions c)] (ReportStatsOnce c) = Inr c1" "c' = RequestQuit c1"
    using r by (auto simp: DoWithTimeout_def res_bind_Inr_iff)
  note o = stop_sessions_tasks [OF c1(1)] and i = i [unfolded pp_inv_def]
  have same: "c\<lparr>conn_num := card (connected cs)\<rparr> = c" using i by (simp add: ended_def)
  have "ended c' cs" using end_inv [of c cs "card (connected cs)" c1 cs, unfolded same] i o c1(2) by simp
  moreover have s: "sessions c' = sessions c" "message c' = message c" using o c1(2) by (auto simp: only_tasks_def)
  ultimately show ?thesis using i unfolding pp_inv_def echoed_same [OF s] s by simp
qed

lemma pp_reach_inv: "pp_reach env clock c cs rs \<Longrightarrow> pp_inv c cs rs"
proof (induction rule: pp_reach.induct)
  case pp_start
  then show ?case by (rule start_inv)
next
  case pp_up
  show ?case by (rule up_inv [OF pp_up.IH pp_up.hyps(2-6)])
next
  case pp_message
  show ?case by (rule message_inv [OF pp_message.IH pp_message.hyps(2-5)])
next
  case pp_down
  show ?case by (rule down_inv [OF pp_down.IH pp_down.hyps(2-4)])
next
  case pp_timeout
  show ?case by (rule timeout_inv [OF pp_timeout.IH pp_timeout.hyps(2)])
qed


definition sample_pingpong :: "unit pingpong" where
  "sample_pingpong = (case res_bind (PingpongClient 2 1 1 1) (Pingpong_Start (\<lambda>_. 0)) of Inr c \<Rightarrow> c)"

lemma sample_pingpong_start:
  "pp_reach env (\<lambda>_. 0) sample_pingpong Map.empty (\<lambda>_. [])" "length (sessions sample_pingpong) = 1" "length (message sample_pingpong) = 2"
proof -
  have s: "size_add 1 1 = 2" "size_add 0 (Suc 0) = Suc 0" by (simp_all add: size_add_def)
  obtain c0 :: "unit pingpong" where c0: "PingpongClient 2 1 1 1 = Inr c0" "pp_managers c0 = [None, Some EventManager]"
    "session_count c0 = 1" "timeout c0 = 1" "sessions c0 = []" "pp_balancer c0 = Balancer 0" "length (message c0) = 2"
    using s by (simp add: PingpongClient_def vector_put_def)
  obtain c where c: "Pingpong_Start (\<lambda>_. 0) c0 = Inr c" "length (sessions c) = 1" "length (message c) = 2"
    using c0 s by (simp add: Pingpong_Start_def int_mul_def on_manager_def vector_at_def PickOneEventManager_def Balancer_def kRoundRobin_def)
  then have e: "sample_pingpong = c" using c0(1) by (simp add: sample_pingpong_def)
  show "pp_reach env (\<lambda>_. 0) sample_pingpong Map.empty (\<lambda>_. [])"
    unfolding e by (rule pp_start [OF c0(1) _ _ c(1)]) (simp_all add: vector_max_size_def)
  show "length (sessions sample_pingpong) = 1" "length (message sample_pingpong) = 2" using c e by simp_all
qed


end
