(* ===== verification/Framing.thy ===== *)
theory Framing
  imports Taotu_Prelude
begin

text \<open>
  Streams cut into frames. The codecs of the program share one shape: a loop looks at the front
  of the readable bytes, hands a complete frame to a callback and consumes it, stops when the
  frame is not complete yet, and stops with an error callback when the front cannot be a frame.
  \<open>drain\<close> is that loop on a byte string, for any reader \<open>step\<close> of one frame.

  The locale \<open>framing\<close> is the contract of a reader with its encoder; inside it the stream
  properties are proved once: every encoded sequence is read back, and the result does not
  depend on where the stream is cut into deliveries. The RPC codec and the chat codec
  interpret it.
\<close>

named_theorems frame_simps \<open>one frame of a codec\<close>

datatype 'ev frame =
    Wait \<comment> \<open>not complete: leave the bytes\<close>
  | Frame (events: "'ev list") (consumed: nat)
  | Reject (events: "'ev list") \<comment> \<open>not a frame: leave the bytes and stop\<close>

function drain :: "(byte list \<Rightarrow> 'ev frame) \<Rightarrow> byte list \<Rightarrow> 'ev list \<times> bool \<times> byte list" where
  "drain step bs =
     (case step bs of
        Wait \<Rightarrow> ([], True, bs)
      | Reject evs \<Rightarrow> (evs, False, bs)
      | Frame evs n \<Rightarrow>
          if n = 0 \<or> bs = [] then (evs, True, bs)
          else case drain step (drop n bs) of (evs', good, rest) \<Rightarrow> (evs @ evs', good, rest))"
  by auto
termination
  by (relation "measure (\<lambda>(step, bs). length bs)") auto

declare drain.simps [simp del]

lemma drain_Wait: "step bs = Wait \<Longrightarrow> drain step bs = ([], True, bs)"
  by (simp add: drain.simps)

lemma drain_Reject: "step bs = Reject evs \<Longrightarrow> drain step bs = (evs, False, bs)"
  by (simp add: drain.simps)

lemma drain_Frame:
  "step bs = Frame evs n \<Longrightarrow> 0 < n \<Longrightarrow> n \<le> length bs \<Longrightarrow>
   drain step bs =
     (case drain step (drop n bs) of (evs', good, rest) \<Rightarrow> (evs @ evs', good, rest))"
  by (subst drain.simps) auto

lemmas drain_cases = drain_Wait drain_Reject drain_Frame

text \<open>Deliveries: each one is added to the bytes left over and drained, until an error.\<close>

fun feed ::
  "(byte list \<Rightarrow> 'ev frame) \<Rightarrow> byte list \<Rightarrow> byte list list \<Rightarrow> 'ev list \<times> bool \<times> byte list"
where
  "feed step left [] = ([], True, left)"
| "feed step left (c # cs) =
     (case drain step (left @ c) of (evs, good, rest) \<Rightarrow>
        if good then case feed step rest cs of (evs', good', rest') \<Rightarrow> (evs @ evs', good', rest')
        else (evs, False, rest))"

locale framing =
  fixes step :: "byte list \<Rightarrow> 'ev frame"
    and encode :: "'m \<Rightarrow> byte list"
    and delivered :: "'m \<Rightarrow> 'ev list"
    and sendable :: "'m \<Rightarrow> bool"
    and limit :: nat
  assumes step_Nil: "step [] = Wait"
    and step_encode:
      "sendable m \<Longrightarrow> length (encode m @ rest) \<le> limit \<Longrightarrow>
       step (encode m @ rest) = Frame (delivered m) (length (encode m))"
    and encode_nonempty: "sendable m \<Longrightarrow> encode m \<noteq> []"
    and step_Frame:
      "step bs = Frame evs n \<Longrightarrow> length (bs @ more) \<le> limit \<Longrightarrow>
       0 < n \<and> n \<le> length bs \<and> step (bs @ more) = Frame evs n"
    and step_Reject:
      "step bs = Reject evs \<Longrightarrow> length (bs @ more) \<le> limit \<Longrightarrow> step (bs @ more) = Reject evs"
begin

lemma drain_Nil: "drain step [] = ([], True, [])"
  by (simp add: drain_Wait step_Nil)

text \<open>Every sequence of encoded messages is read back, in order and completely.\<close>

lemma drain_encode:
  assumes "list_all sendable ms" and "length (concat (map encode ms) @ rest) \<le> limit"
  shows "drain step (concat (map encode ms) @ rest) =
    (case drain step rest of (evs, good, left) \<Rightarrow> (concat (map delivered ms) @ evs, good, left))"
  using assms
proof (induction ms)
  case Nil
  then show ?case by (simp split: prod.splits)
next
  case (Cons m ms)
  let ?rest = "concat (map encode ms) @ rest"
  have "step (encode m @ ?rest) = Frame (delivered m) (length (encode m))"
    using Cons.prems by (intro step_encode) simp_all
  then show ?case
    using Cons encode_nonempty [of m] by (auto simp: drain_Frame split: prod.splits)
qed

lemma drain_roundtrip:
  "list_all sendable ms \<Longrightarrow> length (concat (map encode ms)) \<le> limit \<Longrightarrow>
   drain step (concat (map encode ms)) = (concat (map delivered ms), True, [])"
  using drain_encode [of ms "[]"] by (simp add: drain_Nil)

text \<open>More bytes behind a drained string continue where the drain stopped.\<close>

lemma drain_append:
  assumes "length (bs @ more) \<le> limit"
  shows "drain step (bs @ more) =
    (case drain step bs of (evs, good, rest) \<Rightarrow>
       if good then case drain step (rest @ more) of (evs', good', rest') \<Rightarrow> (evs @ evs', good', rest')
       else (evs, False, rest @ more))"
  using assms
proof (induction "length bs" arbitrary: bs rule: less_induct)
  case less
  show ?case
  proof (cases "step bs")
    case Wait
    then show ?thesis by (simp add: drain_Wait split: prod.splits)
  next
    case (Reject evs)
    with step_Reject less.prems have "step (bs @ more) = Reject evs" by blast
    then show ?thesis using Reject by (simp add: drain_Reject)
  next
    case (Frame evs n)
    note fr = step_Frame [OF Frame less.prems]
    have "drain step (bs @ more) =
        (case drain step (drop n bs @ more) of (evs', good, rest) \<Rightarrow> (evs @ evs', good, rest))"
      using fr by (simp add: drain_Frame)
    moreover have "drain step bs =
        (case drain step (drop n bs) of (evs', good, rest) \<Rightarrow> (evs @ evs', good, rest))"
      using fr Frame by (simp add: drain_Frame)
    moreover have "length (drop n bs) < length bs" "length (drop n bs @ more) \<le> limit"
      using fr less.prems by auto
    ultimately show ?thesis using less.hyps [of "drop n bs"] by (auto split: prod.splits)
  qed
qed

lemma drain_left: "drain step bs = (evs, good, rest) \<Longrightarrow> length rest \<le> length bs"
proof (induction "length bs" arbitrary: bs evs rule: less_induct)
  case less
  show ?case
  proof (cases "step bs")
    case (Frame es n)
    show ?thesis
    proof (cases "n = 0 \<or> bs = []")
      case True
      then show ?thesis using less.prems Frame by (simp add: drain.simps [of step bs])
    next
      case False
      then obtain es' where "drain step (drop n bs) = (es', good, rest)"
        using less.prems Frame by (simp add: drain.simps [of step bs] split: prod.splits)
      then show ?thesis using less.hyps [of "drop n bs" es'] False by (cases bs) auto
    qed
  qed (use less.prems in \<open>auto simp: drain_cases\<close>)
qed

lemma drain_again:
  "drain step bs = (evs, True, rest) \<Longrightarrow> length bs \<le> limit \<Longrightarrow> drain step rest = ([], True, rest)"
proof (induction "length bs" arbitrary: bs evs rule: less_induct)
  case less
  show ?case
  proof (cases "step bs")
    case Wait
    then show ?thesis using less.prems drain_Wait [of step bs] by simp
  next
    case (Reject es)
    then show ?thesis using less.prems by (simp add: drain_Reject)
  next
    case (Frame es n)
    have fr: "0 < n" "n \<le> length bs" using step_Frame [OF Frame, of "[]"] less.prems by auto
    then obtain es' where "drain step (drop n bs) = (es', True, rest)"
      using less.prems Frame by (simp add: drain_Frame split: prod.splits)
    then show ?thesis using less.hyps [of "drop n bs" es'] less.prems(2) fr by auto
  qed
qed

text \<open>Where the stream is cut does not matter, as long as nothing in it is rejected.\<close>

lemma feed_drain:
  assumes "length (left @ concat cs) \<le> limit" and "drain step left = ([], True, left)"
    and "drain step (left @ concat cs) = (evs, True, rest)"
  shows "feed step left cs = (evs, True, rest)"
  using assms
proof (induction cs arbitrary: left evs)
  case Nil
  then show ?case by simp
next
  case (Cons c cs)
  have len: "length ((left @ c) @ concat cs) \<le> limit" using Cons.prems(1) by simp
  obtain es good r where d: "drain step (left @ c) = (es, good, r)" by (metis prod_cases3)
  from drain_append [OF len] Cons.prems(3) d have good by (auto split: if_splits)
  then obtain es' where f: "drain step (r @ concat cs) = (es', True, rest)" "evs = es @ es'"
    using drain_append [OF len] Cons.prems(3) d by (auto split: prod.splits)
  have "drain step r = ([], True, r)" using drain_again [of "left @ c" es r] d \<open>good\<close> len by simp
  moreover have "length (r @ concat cs) \<le> limit" using drain_left [OF d] len by simp
  ultimately have "feed step r cs = (es', True, rest)" using Cons.IH f(1) by blast
  then show ?case using d \<open>good\<close> f(2) by simp
qed

lemma feed_roundtrip:
  assumes "list_all sendable ms" and "length (concat (map encode ms)) \<le> limit"
    and "concat cs = concat (map encode ms)"
  shows "feed step [] cs = (concat (map delivered ms), True, [])"
  using assms drain_roundtrip [OF assms(1,2)] by (intro feed_drain) (simp_all add: drain_Nil)

end

end
