(* ===== verification/Rpc_Codec.thy ===== *)
theory Rpc_Codec
  imports Io_Buffer Framing
begin

text \<open>
  The RPC message codec (\<^verbatim>\<open>src/src/rpc_codec.h\<close>, \<^verbatim>\<open>src/src/rpc_codec.cc\<close>). A frame is the length of
  what follows (4 bytes, big-endian), the tag, the serialised message, and the Adler-32
  checksum of tag and message.

  Code outside the repository is an argument: \<open>adler32\<close> of zlib, and of a Protocol Buffers
  message \<open>ByteSizeLong\<close>, \<open>SerializeWithCachedSizesToArray\<close> and \<open>ParseFromArray\<close>. The
  callbacks are the events of the result, in the order they are made; what the raw callback
  answers is a field of the codec. \<open>le\<close> is the byte order of the host.

  The asynchronous \<open>OnMessage\<close> refines \<open>drain\<close> with the reader \<open>rpc_step\<close>, which
  interprets the locale \<open>framing\<close>.
\<close>

section \<open>The codec\<close>

datatype ErrorCode =
    kNoError | kInvalidLength | kChecksumError | kInvalidNameLength | kUnknownMessageType
  | kParseError

definition kHeaderLength :: int where
  "kHeaderLength = 4"

definition kChecksumLength :: int where
  "kChecksumLength = 4"

definition kMaxMessageLength :: int where
  "kMaxMessageLength = 64 * 1024 * 1024"

text \<open>
  The members that the two constructors set. \<open>None\<close> is an empty \<open>std::function\<close>. The tag is a
  literal of a few bytes, so the narrowing of its size to \<open>int\<close> is exact.
\<close>

record rpc_codec =
  tag :: "byte list"
  AsyncRawCallback :: "(byte list \<Rightarrow> bool) option"
  SyncRawCallback :: "(byte list \<Rightarrow> bool) option"

definition RpcCodec_async :: "byte list \<Rightarrow> (byte list \<Rightarrow> bool) option \<Rightarrow> rpc_codec" where
  "RpcCodec_async tag_arg raw = \<lparr>tag = tag_arg, AsyncRawCallback = raw, SyncRawCallback = None\<rparr>"

definition RpcCodec_sync :: "byte list \<Rightarrow> (byte list \<Rightarrow> bool) option \<Rightarrow> rpc_codec" where
  "RpcCodec_sync tag_arg raw = \<lparr>tag = tag_arg, AsyncRawCallback = None, SyncRawCallback = raw\<rparr>"

definition kMinMessageLength :: "rpc_codec \<Rightarrow> int" where
  "kMinMessageLength c = int (length (tag c)) + kChecksumLength"

text \<open>The callbacks, as the caller of the codec sees them.\<close>

datatype 'm rpc_event =
    RawCall "byte list"
  | MessageCall 'm
  | ErrCall ErrorCode

type_synonym adler = "64 word \<Rightarrow> byte list \<Rightarrow> 64 word"


section \<open>Checksum and parsing\<close>

definition Checksum :: "adler \<Rightarrow> byte list \<Rightarrow> 32 word" where
  "Checksum adler32 buf = ucast (adler32 1 buf)"

definition AsInt32 :: "bool \<Rightarrow> byte list \<Rightarrow> 32 word" where
  "AsInt32 le buf = htobe le 4 (of_host_image le buf)"

definition ValidateChecksum :: "adler \<Rightarrow> bool \<Rightarrow> byte list \<Rightarrow> bool res" where
  "ValidateChecksum adler32 le buf =
     res_bind (mem_read (length buf - nat kChecksumLength) 4 buf) (\<lambda>last4.
       let expected_checksum = AsInt32 le last4;
           checksum = Checksum adler32 (take (length buf - nat kChecksumLength) buf)
       in Inr (expected_checksum = checksum))"

definition ParseFromBuffer :: "(byte list \<Rightarrow> 'm option) \<Rightarrow> byte list \<Rightarrow> 'm option" where
  "ParseFromBuffer ParseFromArray buf = ParseFromArray buf"

definition Parse ::
  "adler \<Rightarrow> (byte list \<Rightarrow> 'm option) \<Rightarrow> bool \<Rightarrow> rpc_codec \<Rightarrow> byte list \<Rightarrow> (ErrorCode + 'm) res" where
  "Parse adler32 ParseFromArray le c buf =
     res_bind (ValidateChecksum adler32 le buf) (\<lambda>valid.
       if valid then
         res_bind (mem_read 0 (length (tag c)) buf) (\<lambda>front.
           if front = tag c then
             res_bind (mem_read (length (tag c))
                         (length buf - nat kChecksumLength - length (tag c)) buf) (\<lambda>data.
               case ParseFromBuffer ParseFromArray data of
                 None \<Rightarrow> Inr (Inl kParseError)
               | Some m \<Rightarrow> Inr (Inr m))
           else Inr (Inl kUnknownMessageType))
       else Inr (Inl kChecksumError))"

definition ErrorCode2String :: "ErrorCode \<Rightarrow> string" where
  "ErrorCode2String e =
     (case e of
        kNoError \<Rightarrow> ''NoError''
      | kInvalidLength \<Rightarrow> ''InvalidLength''
      | kChecksumError \<Rightarrow> ''CheckSumError''
      | kInvalidNameLength \<Rightarrow> ''InvalidNameLen''
      | kUnknownMessageType \<Rightarrow> ''UnknownMessageType''
      | kParseError \<Rightarrow> ''ParseError'')"


section \<open>Receiving\<close>

text \<open>One frame whose bytes are all in the buffer: the raw callback, then the parser.\<close>

definition frame_bytes :: "int \<Rightarrow> io_buffer \<Rightarrow> byte list res" where
  "frame_bytes len b = mem_read (reading_index b) (nat (kHeaderLength + len)) (buffer b)"

function OnMessage ::
  "adler \<Rightarrow> (byte list \<Rightarrow> 'm option) \<Rightarrow> bool \<Rightarrow> rpc_codec \<Rightarrow> io_buffer \<Rightarrow>
   ('m rpc_event list \<times> io_buffer) res"
where
  "OnMessage adler32 ParseFromArray le c b =
     (if int (GetReadableBytes b) < kMinMessageLength c + kHeaderLength then Inr ([], b)
      else res_bind (GetReadableInt32 le b) (\<lambda>w.
        let len = sint w
        in if kMaxMessageLength < len \<or> len < kMinMessageLength c
           then Inr ([ErrCall kInvalidLength], b)
           else if int (GetReadableBytes b) < kHeaderLength + len then Inr ([], b)
           else res_bind (frame_bytes len b) (\<lambda>raw.
             let raw_call = (if AsyncRawCallback c = None then [] else [RawCall raw]);
                 b1 = Refresh (nat (kHeaderLength + len)) b
             in if AsyncRawCallback c \<noteq> None \<and> \<not> the (AsyncRawCallback c) raw
                then res_bind (OnMessage adler32 ParseFromArray le c b1) (\<lambda>(evs, b').
                       Inr (raw_call @ evs, b'))
                else res_bind (Parse adler32 ParseFromArray le c (drop (nat kHeaderLength) raw)) (\<lambda>r.
                  case r of
                    Inr m \<Rightarrow>
                      res_bind (OnMessage adler32 ParseFromArray le c b1) (\<lambda>(evs, b').
                        Inr (raw_call @ MessageCall m # evs, b'))
                  | Inl error_code \<Rightarrow> Inr (raw_call @ [ErrCall error_code], b)))))"
  by pat_completeness auto
termination
  by (relation "measure (\<lambda>(_, _, _, c, b). GetReadableBytes b)")
    (auto simp: GetReadableBytes_Refresh kMinMessageLength_def kHeaderLength_def kChecksumLength_def)

declare OnMessage.simps [simp del]

text \<open>
  The synchronous reader blocks on the descriptor. \<open>getsockopt\<close> fails (\<open>None\<close>) or gives the
  pending socket error; \<open>rs\<close> are the results of the calls to \<open>recv\<close>, and \<open>None\<close> a
  reader that has used them all and is still calling \<open>recv\<close>.
\<close>

definition CheckSocketStatusValid :: "int option \<Rightarrow> int \<Rightarrow> bool" where
  "CheckSocketStatusValid getsockopt sock_fd =
     (if sock_fd < 0 then False
      else case getsockopt of None \<Rightarrow> False | Some error \<Rightarrow> error = 0)"

lemma recv_loop_shorter:
  "recv_loop rs read_len n b = Inr (Some (k, rs', b')) \<Longrightarrow>
   length rs' \<le> length rs \<and> (read_len \<noteq> 0 \<longrightarrow> length rs' < length rs)"
proof (induction rs arbitrary: read_len n b)
  case Nil
  then show ?case by (subst (asm) recv_loop.simps) (auto split: if_splits)
next
  case (Cons r rs)
  show ?case
  proof (cases "read_len = 0")
    case True
    then show ?thesis using Cons.prems by (subst (asm) recv_loop.simps) auto
  next
    case False
    then obtain l m c where "recv_loop rs l m c = Inr (Some (k, rs', b'))"
      using Cons.prems by (subst (asm) recv_loop.simps)
        (auto simp: res_bind_Inr_iff split: sum.splits)
    from Cons.IH [OF this] show ?thesis by auto
  qed
qed

function fill_loop ::
  "nat \<Rightarrow> recv_result list \<Rightarrow> io_buffer \<Rightarrow> (recv_result list \<times> io_buffer) option res"
where
  "fill_loop target rs b =
     (if target \<le> GetReadableBytes b then Inr (Some (rs, b))
      else res_bind (ReadFromFd_len rs (target - GetReadableBytes b) b) (\<lambda>r.
        case r of
          None \<Rightarrow> Inr None
        | Some (n, rs', b') \<Rightarrow> fill_loop target rs' b'))"
  by pat_completeness auto
termination
  by (relation "measure (\<lambda>(_, rs, _). length rs)")
    (auto simp: ReadFromFd_len_def res_bind_Inr_iff dest: recv_loop_shorter)

declare fill_loop.simps [simp del]

text \<open>
  The condition tests \<open>AsyncRawCallback_\<close> and calls \<open>SyncRawCallback_\<close>.
\<close>

definition sync_raw_verdict :: "rpc_codec \<Rightarrow> byte list \<Rightarrow> bool res" where
  "sync_raw_verdict c raw =
     (if AsyncRawCallback c = None then Inr True
      else case SyncRawCallback c of None \<Rightarrow> Inl BadFunctionCall | Some f \<Rightarrow> Inr (f raw))"

definition OnMessage_sync ::
  "adler \<Rightarrow> (byte list \<Rightarrow> 'm option) \<Rightarrow> bool \<Rightarrow> rpc_codec \<Rightarrow> int option \<Rightarrow> int \<Rightarrow>
   recv_result list \<Rightarrow> io_buffer \<Rightarrow>
   ('m rpc_event list \<times> recv_result list \<times> io_buffer) option res" where
  "OnMessage_sync adler32 ParseFromArray le c getsockopt sock_fd rs b =
     (if \<not> CheckSocketStatusValid getsockopt sock_fd then Inr (Some ([], rs, b))
      else res_bind (fill_loop (nat (kMinMessageLength c + kHeaderLength)) rs b) (\<lambda>r1.
        case r1 of
          None \<Rightarrow> Inr None
        | Some (rs1, b1) \<Rightarrow>
            res_bind (GetReadableInt32 le b1) (\<lambda>w.
              let len = sint w
              in if kMaxMessageLength < len \<or> len < kMinMessageLength c
                 then Inr (Some ([ErrCall kInvalidLength], rs1, b1))
                 else res_bind (fill_loop (nat (kHeaderLength + len)) rs1 b1) (\<lambda>r2.
                   case r2 of
                     None \<Rightarrow> Inr None
                   | Some (rs2, b2) \<Rightarrow>
                       res_bind (frame_bytes len b2) (\<lambda>raw.
                         let raw_call = (if AsyncRawCallback c = None then [] else [RawCall raw]);
                             b3 = Refresh (nat (kHeaderLength + len)) b2
                         in res_bind (sync_raw_verdict c raw) (\<lambda>go_on.
                           if \<not> go_on then Inr (Some (raw_call, rs2, b3))
                           else res_bind (Parse adler32 ParseFromArray le c
                                            (drop (nat kHeaderLength) raw)) (\<lambda>r.
                             case r of
                               Inr m \<Rightarrow> Inr (Some (raw_call @ [MessageCall m], rs2, b3))
                             | Inl error_code \<Rightarrow>
                                 Inr (Some (raw_call @ [ErrCall error_code], rs2, b2)))))))))"


section \<open>Sending\<close>

definition Serialize2Buffer ::
  "('m \<Rightarrow> nat) \<Rightarrow> ('m \<Rightarrow> byte list) \<Rightarrow> 'm \<Rightarrow> io_buffer \<Rightarrow> (int \<times> io_buffer) res" where
  "Serialize2Buffer ByteSizeLong SerializeToArray message b =
     (let byte_size = ByteSizeLong message
      in res_bind (EnsureWritableSpace (size_add byte_size (nat kChecksumLength)) b) (\<lambda>b1.
        res_bind (mem_write (writing_index b1) (SerializeToArray message) (buffer b1)) (\<lambda>m.
          let b2 = b1\<lparr>buffer := m\<rparr>
          in if length (SerializeToArray message) \<noteq> byte_size then Inr (- 1, b2)
             else Inr (to_int32 (int byte_size), RefreshW byte_size b2))))"

definition FillEmptyBuffer ::
  "adler \<Rightarrow> ('m \<Rightarrow> nat) \<Rightarrow> ('m \<Rightarrow> byte list) \<Rightarrow> bool \<Rightarrow> rpc_codec \<Rightarrow> 'm \<Rightarrow> io_buffer \<Rightarrow> io_buffer res"
where
  "FillEmptyBuffer adler32 ByteSizeLong SerializeToArray le c message b =
     res_bind (Append (tag c) b) (\<lambda>b1.
       res_bind (Serialize2Buffer ByteSizeLong SerializeToArray message b1) (\<lambda>(byte_size, b2).
         res_bind (mem_read (reading_index b2) (GetReadableBytes b2 mod 2 ^ 32) (buffer b2)) (\<lambda>src.
           res_bind (AppendInt32 le (Checksum adler32 src) b2) (\<lambda>b3.
             let len = htobe le 4 (word_of_nat (GetReadableBytes b3) :: 32 word)
             in SetHeadContent (host_image le 4 len) b3))))"

text \<open>The buffer that \<open>Send\<close> hands to \<open>Connecting::Send\<close>.\<close>

definition Send ::
  "adler \<Rightarrow> ('m \<Rightarrow> nat) \<Rightarrow> ('m \<Rightarrow> byte list) \<Rightarrow> bool \<Rightarrow> rpc_codec \<Rightarrow> 'm \<Rightarrow> io_buffer res" where
  "Send adler32 ByteSizeLong SerializeToArray le c message =
     res_bind (IoBuffer kInitialCapacity)
       (FillEmptyBuffer adler32 ByteSizeLong SerializeToArray le c message)"

text \<open>The blocking \<open>Send\<close>: the results of \<open>send\<close>, and the bytes the kernel has taken.\<close>

fun send_loop ::
  "(int + nat) list \<Rightarrow> nat \<Rightarrow> io_buffer \<Rightarrow> (byte list \<times> io_buffer) option res"
where
  "send_loop rs buffer_size b =
     (if buffer_size = 0 then Inr (Some ([], b))
      else case rs of
        [] \<Rightarrow> Inr None
      | r # rs' \<Rightarrow>
          res_bind (WriteToFd r b) (\<lambda>(bytes_sent, out, b1).
            res_bind (send_loop rs' (nat ((int buffer_size - bytes_sent) mod 2 ^ 64)) b1) (\<lambda>r'.
              Inr (map_option (\<lambda>(out', b2). (out @ out', b2)) r'))))"

declare send_loop.simps [simp del]

definition Send_sync ::
  "adler \<Rightarrow> ('m \<Rightarrow> nat) \<Rightarrow> ('m \<Rightarrow> byte list) \<Rightarrow> bool \<Rightarrow> rpc_codec \<Rightarrow> int option \<Rightarrow> int \<Rightarrow>
   (int + nat) list \<Rightarrow> 'm \<Rightarrow> byte list option res" where
  "Send_sync adler32 ByteSizeLong SerializeToArray le c getsockopt sock_fd rs message =
     (if \<not> CheckSocketStatusValid getsockopt sock_fd then Inr (Some [])
      else res_bind (Send adler32 ByteSizeLong SerializeToArray le c message) (\<lambda>b.
        res_bind (send_loop rs (GetReadableBytes b) b) (\<lambda>r. Inr (map_option fst r))))"


section \<open>The frame on the wire\<close>

definition rpc_body :: "adler \<Rightarrow> ('m \<Rightarrow> byte list) \<Rightarrow> rpc_codec \<Rightarrow> 'm \<Rightarrow> byte list" where
  "rpc_body adler32 ser c m =
     tag c @ ser m @ be_bytes 4 (Checksum adler32 (tag c @ ser m))"

definition rpc_encode :: "adler \<Rightarrow> ('m \<Rightarrow> byte list) \<Rightarrow> rpc_codec \<Rightarrow> 'm \<Rightarrow> byte list" where
  "rpc_encode adler32 ser c m =
     be_bytes 4 (word_of_nat (length (rpc_body adler32 ser c m)) :: 32 word) @
     rpc_body adler32 ser c m"

definition parse_frame ::
  "adler \<Rightarrow> (byte list \<Rightarrow> 'm option) \<Rightarrow> rpc_codec \<Rightarrow> byte list \<Rightarrow> ErrorCode + 'm" where
  "parse_frame adler32 parse c body =
     (let n = length body - 4
      in if be_word (drop n body) \<noteq> Checksum adler32 (take n body) then Inl kChecksumError
         else if take (length (tag c)) body \<noteq> tag c then Inl kUnknownMessageType
         else case parse (drop (length (tag c)) (take n body)) of
           None \<Rightarrow> Inl kParseError | Some m \<Rightarrow> Inr m)"

definition raw_events :: "rpc_codec \<Rightarrow> byte list \<Rightarrow> 'm rpc_event list" where
  "raw_events c raw = (if AsyncRawCallback c = None then [] else [RawCall raw])"

definition raw_skips :: "rpc_codec \<Rightarrow> byte list \<Rightarrow> bool" where
  "raw_skips c raw = (case AsyncRawCallback c of None \<Rightarrow> False | Some f \<Rightarrow> \<not> f raw)"

definition rpc_step ::
  "adler \<Rightarrow> (byte list \<Rightarrow> 'm option) \<Rightarrow> rpc_codec \<Rightarrow> byte list \<Rightarrow> 'm rpc_event frame" where
  "rpc_step adler32 parse c bs =
     (if int (length bs) < kMinMessageLength c + kHeaderLength then Wait
      else
        let len = sint (be_word (take 4 bs) :: 32 word); n = nat (kHeaderLength + len);
            raw = take n bs
        in if kMaxMessageLength < len \<or> len < kMinMessageLength c
           then Reject [ErrCall kInvalidLength]
           else if int (length bs) < kHeaderLength + len then Wait
           else if raw_skips c raw then Frame (raw_events c raw) n
           else case parse_frame adler32 parse c (drop 4 raw) of
             Inr m \<Rightarrow> Frame (raw_events c raw @ [MessageCall m]) n
           | Inl e \<Rightarrow> Reject (raw_events c raw @ [ErrCall e]))"

text \<open>What the callbacks see of an encoded message.\<close>

definition rpc_delivered ::
  "adler \<Rightarrow> ('m \<Rightarrow> byte list) \<Rightarrow> rpc_codec \<Rightarrow> 'm \<Rightarrow> 'm rpc_event list" where
  "rpc_delivered adler32 ser c m =
     (let raw = rpc_encode adler32 ser c m
      in raw_events c raw @ (if raw_skips c raw then [] else [MessageCall m]))"

text \<open>
  A message that can be sent: the parser understands its serialisation, and the frame is not
  longer than the receiver accepts.
\<close>

definition rpc_sendable ::
  "adler \<Rightarrow> (byte list \<Rightarrow> 'm option) \<Rightarrow> ('m \<Rightarrow> byte list) \<Rightarrow> rpc_codec \<Rightarrow> 'm \<Rightarrow> bool" where
  "rpc_sendable adler32 parse ser c m \<longleftrightarrow>
     parse (ser m) = Some m \<and>
     int (length (rpc_body adler32 ser c m)) \<le> kMaxMessageLength"

lemmas rpc_lengths = kMinMessageLength_def kHeaderLength_def kChecksumLength_def

lemma Parse_eq:
  assumes "kMinMessageLength c \<le> int (length body)"
  shows "Parse adler32 parse le c body = Inr (parse_frame adler32 parse c body)"
proof -
  have len: "length (tag c) + 4 \<le> length body" using assms by (simp add: rpc_lengths)
  have "ValidateChecksum adler32 le body =
      Inr (be_word (drop (length body - 4) body) = Checksum adler32 (take (length body - 4) body))"
    using len by (simp add: ValidateChecksum_def mem_read_in AsInt32_def htobe_of_host_image
        kChecksumLength_def)
  moreover have "take (length body - 4 - length (tag c)) (drop (length (tag c)) body) =
      drop (length (tag c)) (take (length body - 4) body)"
    by (simp add: drop_take)
  ultimately show ?thesis
    using len by (auto simp: Parse_def parse_frame_def mem_read_in ParseFromBuffer_def
        kChecksumLength_def Let_def split: option.splits)
qed

lemma parse_frame_encode:
  assumes "parse (ser m) = Some m"
  shows "parse_frame adler32 parse c (rpc_body adler32 ser c m) = Inr m"
  using assms by (simp add: parse_frame_def rpc_body_def be_word_be_bytes)

lemma sint_word_of_nat_32:
  assumes "n < 2 ^ 31"
  shows "sint (word_of_nat n :: 32 word) = int n"
proof -
  have "sint (word_of_int (int n) :: 32 word) = signed_take_bit 31 (int n)"
    by (subst sint_sbintrunc') simp
  also have "\<dots> = int n" using assms by (intro signed_take_bit_int_eq_self) auto
  finally show ?thesis by simp
qed

text \<open>The length field of an encoded message.\<close>

lemma rpc_encode_header:
  assumes "int (length (rpc_body adler32 ser c m)) \<le> kMaxMessageLength"
  shows "sint (be_word (take 4 (rpc_encode adler32 ser c m @ rest)) :: 32 word) =
    int (length (rpc_body adler32 ser c m))"
proof -
  have "length (rpc_body adler32 ser c m) < 2 ^ 31" using assms by (simp add: kMaxMessageLength_def)
  then show ?thesis by (simp add: rpc_encode_def be_word_be_bytes sint_word_of_nat_32)
qed

lemma length_rpc_encode [simp]:
  "length (rpc_encode adler32 ser c m) = 4 + length (rpc_body adler32 ser c m)"
  by (simp add: rpc_encode_def)

lemma length_rpc_body: "kMinMessageLength c \<le> int (length (rpc_body adler32 ser c m))"
  by (simp add: rpc_body_def rpc_lengths)

lemma rpc_step_encode:
  assumes "rpc_sendable adler32 parse ser c m"
  shows "rpc_step adler32 parse c (rpc_encode adler32 ser c m @ rest) =
    Frame (rpc_delivered adler32 ser c m) (length (rpc_encode adler32 ser c m))"
proof -
  let ?e = "rpc_encode adler32 ser c m" and ?b = "rpc_body adler32 ser c m"
  have max: "int (length ?b) \<le> kMaxMessageLength" and parse: "parse (ser m) = Some m"
    using assms by (auto simp: rpc_sendable_def)
  have n: "nat (kHeaderLength + int (length ?b)) = length ?e"
    by (simp add: kHeaderLength_def)
  have raw: "take (length ?e) (?e @ rest) = ?e" "drop 4 ?e = ?b"
    by (simp_all add: rpc_encode_def)
  have guards: "\<not> int (length (?e @ rest)) < kMinMessageLength c + kHeaderLength"
    "\<not> (kMaxMessageLength < int (length ?b) \<or> int (length ?b) < kMinMessageLength c)"
    "\<not> int (length (?e @ rest)) < kHeaderLength + int (length ?b)"
    using max length_rpc_body [of c adler32 ser m] by (simp_all add: kHeaderLength_def)
  show ?thesis
    unfolding rpc_step_def rpc_encode_header [OF max] Let_def n raw parse_frame_encode [of parse ser, OF parse]
    using guards by (simp add: rpc_delivered_def Let_def)
qed

text \<open>A frame that is complete, or refused, stays so when more bytes arrive.\<close>

lemma rpc_step_more:
  assumes "rpc_step adler32 parse c bs \<noteq> Wait"
  shows "rpc_step adler32 parse c (bs @ rest) = rpc_step adler32 parse c bs"
proof -
  have min: "\<not> int (length bs) < kMinMessageLength c + kHeaderLength"
    using assms by (auto simp: rpc_step_def)
  then have "4 \<le> length bs" by (simp add: rpc_lengths)
  then have t: "take 4 (bs @ rest) = take 4 bs" by simp
  define len where "len = sint (be_word (take 4 bs) :: 32 word)"
  show ?thesis
  proof (cases "kMaxMessageLength < len \<or> len < kMinMessageLength c")
    case True
    then show ?thesis using min t by (auto simp: rpc_step_def len_def)
  next
    case False
    then have all: "kHeaderLength + len \<le> int (length bs)"
      using assms min by (auto simp: rpc_step_def len_def [symmetric] Let_def split: if_splits)
    then have r: "take (nat (kHeaderLength + len)) (bs @ rest) = take (nat (kHeaderLength + len)) bs"
      by simp
    show ?thesis
      using min all False unfolding rpc_step_def t len_def [symmetric] Let_def r by simp
  qed
qed

lemma rpc_step_Frame:
  assumes "rpc_step adler32 parse c bs = Frame evs n"
  shows "0 < n \<and> n \<le> length bs"
  using assms by (auto simp: rpc_step_def rpc_lengths Let_def split: if_splits sum.splits)

interpretation rpc: framing "rpc_step adler32 parse c" "rpc_encode adler32 ser c"
  "rpc_delivered adler32 ser c" "rpc_sendable adler32 parse ser c" vector_max_size
  for adler32 parse ser c
proof unfold_locales
  show "rpc_step adler32 parse c [] = Wait" by (simp add: rpc_step_def rpc_lengths)
  show "rpc_encode adler32 ser c m \<noteq> []" for m
    using length_rpc_encode [of adler32 ser c m] by (metis add_is_0 list.size(3) zero_neq_numeral)
qed (auto simp: rpc_step_encode rpc_step_more dest: rpc_step_Frame)


section \<open>\<open>OnMessage\<close> refines the frame loop\<close>

lemma drain_frame_next:
  assumes "rpc_step adler32 parse c bs = Frame evs n"
  shows "drain (rpc_step adler32 parse c) bs =
    (case drain (rpc_step adler32 parse c) (drop n bs) of (evs', good, rest) \<Rightarrow>
       (evs @ evs', good, rest))"
  using rpc_step_Frame [OF assms] assms by (simp add: drain_Frame)

text \<open>One round of the loop, by what the reader says of the readable bytes.\<close>

lemma OnMessage_unfold:
  assumes ok: "io_buffer_ok b"
  shows "OnMessage adler32 parse le c b =
    (case rpc_step adler32 parse c (contents b) of
       Wait \<Rightarrow> Inr ([], b)
     | Reject evs \<Rightarrow> Inr (evs, b)
     | Frame evs n \<Rightarrow>
         res_bind (OnMessage adler32 parse le c (Refresh n b)) (\<lambda>(evs', b').
           Inr (evs @ evs', b')))"
proof (cases "int (length (contents b)) < kMinMessageLength c + kHeaderLength")
  case True
  then show ?thesis
    by (subst OnMessage.simps) (simp add: rpc_step_def GetReadableBytes_contents [OF ok])
next
  case False
  then have "\<not> length (contents b) < 4" by (simp add: rpc_lengths)
  then have w: "GetReadableInt32 le b = Inr (be_word (take 4 (contents b)))"
    by (simp add: GetReadableInt_ok [OF ok])
  define len where "len = sint (be_word (take 4 (contents b)) :: 32 word)"
  show ?thesis
  proof (cases "kMaxMessageLength < len \<or> len < kMinMessageLength c \<or>
      int (length (contents b)) < kHeaderLength + len")
    case True
    then show ?thesis using False w
      by (subst OnMessage.simps)
        (auto simp: rpc_step_def GetReadableBytes_contents [OF ok] len_def [symmetric] Let_def)
  next
    case g: False
    let ?n = "nat (kHeaderLength + len)"
    have raw: "frame_bytes len b = Inr (take ?n (contents b))"
      unfolding frame_bytes_def using g by (intro mem_read_contents [OF ok]) auto
    have "Parse adler32 parse le c (drop 4 (take ?n (contents b))) =
        Inr (parse_frame adler32 parse c (drop 4 (take ?n (contents b))))"
      using g by (intro Parse_eq) (auto simp: kHeaderLength_def min_def)
    then show ?thesis using False w g raw
      by (subst OnMessage.simps) (auto simp: rpc_step_def GetReadableBytes_contents [OF ok]
          len_def [symmetric] Let_def raw_skips_def raw_events_def kHeaderLength_def
          split: sum.splits option.splits prod.splits)
  qed
qed

lemma OnMessage_refines_drain:
  assumes "io_buffer_ok b" and "drain (rpc_step adler32 parse c) (contents b) = (evs, good, rest)"
  shows "\<exists>b'. OnMessage adler32 parse le c b = Inr (evs, b') \<and> io_buffer_ok b' \<and>
    contents b' = rest \<and>
    (kReservedCapacity \<le> writing_index b \<longrightarrow>
       kReservedCapacity \<le> writing_index b' \<and> writable b \<le> writable b')"
  using assms
proof (induction "length (contents b)" arbitrary: b evs rule: less_induct)
  case less
  show ?case
  proof (cases "rpc_step adler32 parse c (contents b)")
    case (Frame es n)
    note n = rpc_step_Frame [OF Frame]
    have c: "contents (Refresh n b) = drop n (contents b)" "io_buffer_ok (Refresh n b)"
      using less.prems(1) by (simp_all add: contents_Refresh Refresh_ok)
    obtain evs' where d: "drain (rpc_step adler32 parse c) (contents (Refresh n b)) = (evs', good, rest)"
      "evs = es @ evs'"
      using less.prems(2) drain_frame_next [OF Frame] c(1) by (auto split: prod.splits)
    have "length (contents (Refresh n b)) < length (contents b)" using n unfolding c(1) length_drop by linarith
    from less.hyps [OF this c(2) d(1)] show ?thesis
      using Frame d(2) Refresh_room [of b n] by (fastforce simp: OnMessage_unfold [OF less.prems(1)])
  qed (use less.prems in \<open>auto simp: drain_cases OnMessage_unfold\<close>)
qed


section \<open>\<open>FillEmptyBuffer\<close> writes the frame\<close>

lemma EnsureWritableSpace_fresh:
  assumes "io_buffer_ok b" and "reading_index b = kReservedCapacity"
    and "kReservedCapacity + length (contents b) + n \<le> vector_max_size"
  shows "\<exists>b'. EnsureWritableSpace n b = Inr b' \<and> io_buffer_ok b' \<and> contents b' = contents b \<and>
    reading_index b' = kReservedCapacity \<and> n \<le> writable b'"
proof -
  note no = fresh_no_overrun [OF assms(2), of n]
  have w: "writing_index b = kReservedCapacity + length (contents b)"
    using length_contents [OF assms(1)] assms(2) io_buffer_okD(1) [OF assms(1)] by simp
  obtain b' where b': "EnsureWritableSpace n b = Inr b'"
    using ReserveWritableSpace_grow [OF assms(1) _ no] assms(3) w
    by (cases "writable b < n") (auto simp: EnsureWritableSpace_def GetWritableBytes_ok [OF assms(1)])
  have "n \<le> vector_max_size" using assms(3) by linarith
  from EnsureWritableSpace_ok [OF assms(1) this no b'] b' show ?thesis using assms(2) by auto
qed

lemma Serialize2Buffer_ok:
  assumes ok: "io_buffer_ok b" and r: "reading_index b = kReservedCapacity"
    and size: "ByteSizeLong m = length (ser m)"
    and max: "12 + length (contents b) + length (ser m) \<le> vector_max_size"
  shows "\<exists>b'. Serialize2Buffer ByteSizeLong ser m b = Inr (to_int32 (int (length (ser m))), b') \<and>
    io_buffer_ok b' \<and> contents b' = contents b @ ser m \<and> reading_index b' = kReservedCapacity"
proof -
  let ?n = "length (ser m) + 4"
  have n: "size_add (length (ser m)) (nat kChecksumLength) = ?n"
    using max by (simp add: size_add_max kChecksumLength_def)
  have "kReservedCapacity + length (contents b) + ?n \<le> vector_max_size"
    using max by (simp add: kReservedCapacity_def)
  from EnsureWritableSpace_fresh [OF ok r this] obtain b1 where
    b1: "EnsureWritableSpace ?n b = Inr b1" "io_buffer_ok b1" "contents b1 = contents b"
      "reading_index b1 = kReservedCapacity" "?n \<le> writable b1" by blast
  then have "length (ser m) \<le> writable b1" by simp
  from write_contents [OF b1(2) this] obtain mem where
    mem: "mem_write (writing_index b1) (ser m) (buffer b1) = Inr mem"
      "io_buffer_ok (RefreshW (length (ser m)) (b1\<lparr>buffer := mem\<rparr>))"
      "contents (RefreshW (length (ser m)) (b1\<lparr>buffer := mem\<rparr>)) = contents b1 @ ser m" by blast
  have "Serialize2Buffer ByteSizeLong ser m b =
      Inr (to_int32 (int (length (ser m))), RefreshW (length (ser m)) (b1\<lparr>buffer := mem\<rparr>))"
    by (simp add: Serialize2Buffer_def size n b1(1) mem(1) Let_def)
  with mem(2,3) b1(3,4) show ?thesis by (simp add: RefreshW_def)
qed

lemma FillEmptyBuffer_ok:
  assumes ok: "io_buffer_ok b" and fresh: "contents b = []" "reading_index b = kReservedCapacity"
    and size: "ByteSizeLong m = length (ser m)"
    and max: "length (rpc_body adler32 ser c m) < 2 ^ 32"
  shows "\<exists>b'. FillEmptyBuffer adler32 ByteSizeLong ser le c m b = Inr b' \<and> io_buffer_ok b' \<and>
    contents b' = rpc_encode adler32 ser c m"
proof -
  let ?p = "tag c @ ser m"
  have len: "length ?p + 4 < 2 ^ 32" using max by (simp add: rpc_body_def)
  then have vmax: "length (tag c) + length (ser m) + 24 \<le> vector_max_size"
    by (simp add: vector_max_size_def)
  obtain b1 where b1: "Append (tag c) b = Inr b1" "io_buffer_ok b1" "contents b1 = tag c"
    "reading_index b1 = kReservedCapacity"
    using Append_fresh [OF ok fresh(2), of "tag c"] fresh(1) vmax by (auto simp: kReservedCapacity_def)
  obtain n b2 where b2: "Serialize2Buffer ByteSizeLong ser m b1 = Inr (n, b2)" "io_buffer_ok b2"
    "contents b2 = ?p" "reading_index b2 = kReservedCapacity"
    using Serialize2Buffer_ok [of b1 ByteSizeLong m ser, OF b1(2,4) size] b1(3) vmax by auto
  have src: "mem_read (reading_index b2) (GetReadableBytes b2 mod 2 ^ 32) (buffer b2) = Inr ?p"
    using mem_read_contents [OF b2(2), of "length ?p"] len
    by (simp add: GetReadableBytes_contents [OF b2(2)] b2(3))
  obtain b3 where b3: "Append (be_bytes 4 (Checksum adler32 ?p)) b2 = Inr b3" "io_buffer_ok b3"
    "contents b3 = rpc_body adler32 ser c m" "reading_index b3 = kReservedCapacity"
    using Append_fresh [OF b2(2,4), of "be_bytes 4 (Checksum adler32 ?p)"] b2(3) vmax
    by (auto simp: kReservedCapacity_def rpc_body_def)
  define h where "h = be_bytes 4 (word_of_nat (length (rpc_body adler32 ser c m)) :: 32 word)"
  have "FillEmptyBuffer adler32 ByteSizeLong ser le c m b = SetHeadContent h b3"
    using src by (simp add: FillEmptyBuffer_def b1(1) b2(1) AppendInt_eq b3(1,3) h_def
        GetReadableBytes_contents [OF b3(2)] host_image_htobe)
  moreover have "length h \<le> reading_index b3" by (simp add: h_def b3(4) kReservedCapacity_def)
  ultimately show ?thesis
    using SetHeadContent_ok [OF b3(2), of h] b3(3) by (auto simp: rpc_encode_def h_def)
qed

lemma Send_ok:
  assumes "ByteSizeLong m = length (ser m)" and "length (rpc_body adler32 ser c m) < 2 ^ 32"
  shows "\<exists>b. Send adler32 ByteSizeLong ser le c m = Inr b \<and> io_buffer_ok b \<and>
    contents b = rpc_encode adler32 ser c m"
proof -
  obtain b0 where b0: "IoBuffer kInitialCapacity = Inr b0" "io_buffer_ok b0" "contents b0 = []"
    "reading_index b0 = kReservedCapacity"
    using IoBuffer_initial by blast
  from FillEmptyBuffer_ok [of b0 ByteSizeLong m ser adler32 c le, OF b0(2-4) assms] show ?thesis by (auto simp: Send_def b0(1))
qed


section \<open>Deliveries into a buffer\<close>

text \<open>A connection's input: each delivery is appended to the buffer and \<open>OnMessage\<close> is called.\<close>

fun receive ::
  "adler \<Rightarrow> (byte list \<Rightarrow> 'm option) \<Rightarrow> bool \<Rightarrow> rpc_codec \<Rightarrow> byte list list \<Rightarrow> io_buffer \<Rightarrow>
   ('m rpc_event list \<times> io_buffer) res"
where
  "receive adler32 parse le c [] b = Inr ([], b)"
| "receive adler32 parse le c (d # ds) b =
     res_bind (Append d b) (\<lambda>b1.
       res_bind (OnMessage adler32 parse le c b1) (\<lambda>(evs, b2).
         res_bind (receive adler32 parse le c ds b2) (\<lambda>(evs', b3). Inr (evs @ evs', b3))))"

lemma receive_feed:
  assumes "io_buffer_ok b" and "kReservedCapacity \<le> writing_index b"
    and "length (concat ds) \<le> writable b"
    and "feed (rpc_step adler32 parse c) (contents b) ds = (evs, True, rest)"
  shows "\<exists>b'. receive adler32 parse le c ds b = Inr (evs, b') \<and> io_buffer_ok b' \<and> contents b' = rest"
  using assms
proof (induction ds arbitrary: b evs)
  case Nil
  then show ?case by simp
next
  case (Cons d ds)
  have room: "length d \<le> writable b" using Cons.prems(3) by simp
  obtain b1 where b1: "Append d b = Inr b1" "io_buffer_ok b1" "contents b1 = contents b @ d"
    using Append_fits [OF Cons.prems(1) room] by blast
  have w1: "writable b1 = writable b - length d"
    by (rule writable_Append [OF Cons.prems(1) room b1(1)])
  have res1: "kReservedCapacity \<le> writing_index b1"
    using w1 room writable_plus [OF b1(2)] writable_plus [OF Cons.prems(1)] Cons.prems(2)
      Append_length [OF Cons.prems(1) room b1(1)] by linarith
  obtain es r where dr: "drain (rpc_step adler32 parse c) (contents b1) = (es, True, r)"
    using Cons.prems(4) b1(3) by (auto split: prod.splits if_splits)
  then obtain es' where f: "feed (rpc_step adler32 parse c) r ds = (es', True, rest)" "evs = es @ es'"
    using Cons.prems(4) b1(3) by (auto split: prod.splits)
  obtain b2 where b2: "OnMessage adler32 parse le c b1 = Inr (es, b2)" "io_buffer_ok b2"
    "contents b2 = r" "kReservedCapacity \<le> writing_index b2" "writable b1 \<le> writable b2"
    using OnMessage_refines_drain [OF b1(2) dr] res1 by blast
  have "length (concat ds) \<le> writable b2" using Cons.prems(3) w1 b2(5) by simp
  from Cons.IH [OF b2(2,4) this] f b2(3) show ?case by (auto simp: b1(1) b2(1))
qed


section \<open>The blocking calls\<close>

lemma fill_loop_ok:
  assumes ok: "io_buffer_ok b" and r: "reading_index b = kReservedCapacity"
    and max: "kReservedCapacity + target \<le> vector_max_size"
    and le: "length (contents b) \<le> target" and rs: "recv_ok rs (target - length (contents b))"
    and all: "length (received_bytes rs) = target - length (contents b)"
  shows "\<exists>b'. fill_loop target (rs @ rs') b = Inr (Some (rs', b')) \<and> io_buffer_ok b' \<and>
    contents b' = contents b @ received_bytes rs \<and> reading_index b' = kReservedCapacity"
proof (cases "length (contents b) = target")
  case True
  moreover have "rs = []"
    using rs all True by (cases rs) (auto elim: recv_ok.elims)
  ultimately show ?thesis
    using ok r by (subst fill_loop.simps) (simp add: GetReadableBytes_contents)
next
  case False
  let ?n = "target - length (contents b)"
  have n: "kReservedCapacity + length (contents b) + ?n \<le> vector_max_size" "?n \<le> vector_max_size"
    using le max by simp_all
  obtain b1 where b1: "EnsureWritableSpace ?n b = Inr b1"
    using EnsureWritableSpace_fresh [OF ok r n(1)] by blast
  obtain b2 where b2: "ReadFromFd_len (rs @ rs') ?n b = Inr (Some (int ?n, rs', b2))"
    "io_buffer_ok b2" "contents b2 = contents b @ received_bytes rs"
    "reading_index b2 = kReservedCapacity"
    using ReadFromFd_len_ok [OF ok n(2) fresh_no_overrun [OF r] rs all b1] r by auto
  have "length (contents b2) = target" using b2(3) all le by simp
  then have "fill_loop target rs' b2 = Inr (Some (rs', b2))"
    by (subst fill_loop.simps) (simp add: GetReadableBytes_contents [OF b2(2)])
  then show ?thesis
    using b2 False le by (subst fill_loop.simps) (simp add: GetReadableBytes_contents [OF ok])
qed

lemma OnMessage_sync_ok:
  assumes send: "rpc_sendable adler32 parse ser c m" and raw: "AsyncRawCallback c = None"
    and sock: "CheckSocketStatusValid so fd"
    and ok: "io_buffer_ok b" "reading_index b = kReservedCapacity" "contents b = []"
    and bytes: "received_bytes rs1 @ received_bytes rs2 = rpc_encode adler32 ser c m"
    and rs1: "recv_ok rs1 (length (tag c) + 8)" "length (received_bytes rs1) = length (tag c) + 8"
    and rs2: "recv_ok rs2 (length (received_bytes rs2))"
  shows "\<exists>b'. OnMessage_sync adler32 parse le c so fd (rs1 @ rs2 @ rs') b =
    Inr (Some ([MessageCall m], rs', b')) \<and> io_buffer_ok b' \<and> contents b' = []"
proof -
  let ?e = "rpc_encode adler32 ser c m" and ?b = "rpc_body adler32 ser c m"
  have max: "int (length ?b) \<le> kMaxMessageLength" and parse: "parse (ser m) = Some m"
    using send by (auto simp: rpc_sendable_def)
  have vmax: "kReservedCapacity + (4 + length ?b) \<le> vector_max_size"
    using max by (simp add: kReservedCapacity_def kMaxMessageLength_def vector_max_size_def)
  have len: "length (received_bytes rs1) + length (received_bytes rs2) = 4 + length ?b"
    using arg_cong [OF bytes, of length] by simp
  have n1: "nat (kMinMessageLength c + kHeaderLength) = length (tag c) + 8"
    by (simp add: rpc_lengths)
  have n2: "nat (kHeaderLength + int (length ?b)) = 4 + length ?b" by (simp add: kHeaderLength_def)
  have n4: "nat kHeaderLength = 4" by (simp add: kHeaderLength_def)
  have le1: "kReservedCapacity + (length (tag c) + 8) \<le> vector_max_size" using vmax len rs1(2) by linarith
  obtain b1 where b1: "fill_loop (length (tag c) + 8) (rs1 @ rs2 @ rs') b = Inr (Some (rs2 @ rs', b1))"
    "io_buffer_ok b1" "contents b1 = received_bytes rs1" "reading_index b1 = kReservedCapacity"
    using fill_loop_ok [OF ok(1,2) le1, of rs1] ok(3) rs1 by auto
  have "take 4 (contents b1 @ received_bytes rs2) = take 4 (contents b1)" using b1(3) rs1(2) by simp
  then have t4: "take 4 (contents b1) = take 4 ?e" using b1(3) bytes by simp
  have left: "4 + length ?b - length (contents b1) = length (received_bytes rs2)"
    "length (contents b1) \<le> 4 + length ?b"
    using len b1(3) by simp_all
  obtain b2 where b2: "fill_loop (4 + length ?b) (rs2 @ rs') b1 = Inr (Some (rs', b2))"
    "io_buffer_ok b2" "contents b2 = ?e" "reading_index b2 = kReservedCapacity"
    using fill_loop_ok [OF b1(2,4) vmax left(2), of rs2 rs'] b1(3) rs2 bytes unfolding left(1) by auto
  have w: "GetReadableInt32 le b1 = Inr (be_word (take 4 ?e))"
    using rs1(2) t4 by (simp add: GetReadableInt_ok [OF b1(2)] b1(3))
  have hd: "sint (be_word (take 4 ?e) :: 32 word) = int (length ?b)"
    using rpc_encode_header [OF max, of "[]"] by simp
  have fr: "frame_bytes (int (length ?b)) b2 = Inr ?e"
    using mem_read_contents [OF b2(2), of "length ?e"] b2(3) by (simp add: frame_bytes_def n2)
  have pa: "Parse adler32 parse le c (drop 4 ?e) = Inr (Inr m)"
    using Parse_eq [OF length_rpc_body, of adler32 parse le c adler32 ser m]
      parse_frame_encode [of parse ser m, OF parse] by (simp add: rpc_encode_def)
  have rf: "contents (Refresh (4 + length ?b) b2) = []" "io_buffer_ok (Refresh (4 + length ?b) b2)"
    using b2(2,3) by (simp_all add: contents_Refresh Refresh_ok)
  show ?thesis
    using sock max length_rpc_body [of c adler32 ser m] rf
    by (simp add: OnMessage_sync_def n1 b1(1) w hd n2 b2(1) fr raw sync_raw_verdict_def n4 pa)
qed

text \<open>\<open>send_ok rs n\<close>: every call to \<open>send\<close> takes some of the bytes that are left.\<close>

fun send_ok :: "(int + nat) list \<Rightarrow> nat \<Rightarrow> bool" where
  "send_ok [] n = (n = 0)"
| "send_ok (Inl e # rs) n = False"
| "send_ok (Inr k # rs) n = (0 < k \<and> k \<le> n \<and> send_ok rs (n - k))"

lemma send_loop_ok:
  assumes "io_buffer_ok b" and "send_ok rs (length (contents b))"
  shows "\<exists>b'. send_loop rs (length (contents b)) b = Inr (Some (contents b, b')) \<and> contents b' = []"
  using assms
proof (induction rs arbitrary: b)
  case Nil
  then show ?case by (subst send_loop.simps) simp
next
  case (Cons r rs)
  then obtain k where k: "r = Inr k" "0 < k" "k \<le> length (contents b)"
    "send_ok rs (length (contents b) - k)" by (cases r) auto
  have c: "contents (Refresh k b) = drop k (contents b)" "io_buffer_ok (Refresh k b)"
    using Cons.prems(1) by (simp_all add: contents_Refresh Refresh_ok)
  have "length (contents b) < 2 ^ 64"
    using io_buffer_okD [OF Cons.prems(1)] length_contents [OF Cons.prems(1)] by (intro size_le_max) linarith
  then have "int (length (contents b)) < int (2 ^ 64)" by (simp only: of_nat_less_iff)
  then have "nat ((int (length (contents b)) - int k) mod 2 ^ 64) = length (contents (Refresh k b))"
    using k(3) c(1) by (simp add: mod_pos_pos_trivial)
  moreover obtain b' where "send_loop rs (length (contents (Refresh k b))) (Refresh k b) =
      Inr (Some (drop k (contents b), b'))" "contents b' = []"
    using Cons.IH [OF c(2)] k(4) c(1) by auto
  moreover have "contents b \<noteq> []" using k(2,3) by auto
  ultimately show ?case
    using k by (subst send_loop.simps) (simp add: WriteToFd_ok [OF Cons.prems(1)])
qed

text \<open>A failed call counts as minus one byte: at the end one byte too many is waited for.\<close>

lemma send_loop_zero:
  "io_buffer_ok b \<Longrightarrow> send_loop (replicate k (Inr 0)) 1 b = Inr None"
proof (induction k)
  case 0
  then show ?case by (subst send_loop.simps) simp
next
  case (Suc k)
  then show ?case by (subst send_loop.simps) (simp add: WriteToFd_ok)
qed

lemma send_loop_miscounts:
  assumes ok: "io_buffer_ok b" and "0 < length (contents b)"
  shows "send_loop (Inl e # Inr (length (contents b)) # replicate k (Inr 0)) (length (contents b)) b
    = Inr None"
proof -
  let ?n = "length (contents b)"
  have "?n + 1 \<le> vector_max_size + 1"
    using io_buffer_okD [OF ok] length_contents [OF ok] by linarith
  then have "int (?n + 1) < int (2 ^ 64)"
    by (simp only: of_nat_less_iff) (simp add: vector_max_size_def)
  then have n: "(int ?n + 1) mod 2 ^ 64 = int ?n + 1" "nat (int ?n + 1) = ?n + 1"
    by (simp_all add: mod_pos_pos_trivial)
  have "send_loop (Inr ?n # replicate k (Inr 0)) (?n + 1) b = Inr None"
    using assms(2) send_loop_zero [OF Refresh_ok [OF ok]]
    by (subst send_loop.simps) (simp add: WriteToFd_ok [OF ok])
  then show ?thesis
    using assms(2) n by (subst send_loop.simps) (simp add: WriteToFd_ok [OF ok])
qed


section \<open>Correctness\<close>

lemma rpc_encode_tag: "tag c = tag c' \<Longrightarrow> rpc_encode adler32 ser c m = rpc_encode adler32 ser c' m"
  by (simp add: rpc_encode_def rpc_body_def)

lemma rpc_sendable_tag:
  "tag c = tag c' \<Longrightarrow> rpc_sendable adler32 parse ser c m = rpc_sendable adler32 parse ser c' m"
  by (simp add: rpc_sendable_def rpc_body_def)

lemma Parse_tag:
  assumes "tag c = tag c'"
  shows "Parse adler32 parse le c = Parse adler32 parse le c'"
  unfolding Parse_def assms ..

lemma rpc_sendable_size:
  "rpc_sendable adler32 parse ser c m \<Longrightarrow> length (rpc_body adler32 ser c m) < 2 ^ 32"
  by (simp add: rpc_sendable_def kMaxMessageLength_def)

lemma Send_all:
  assumes "\<And>m. ByteSizeLong m = length (ser m)" and "list_all (rpc_sendable adler32 parse ser c) ms"
  shows "\<exists>ss. map (Send adler32 ByteSizeLong ser le c) ms = map Inr ss \<and>
    map contents ss = map (rpc_encode adler32 ser c) ms"
  using assms(2)
proof (induction ms)
  case (Cons m ms)
  then obtain ss where ss: "map (Send adler32 ByteSizeLong ser le c) ms = map Inr ss"
    "map contents ss = map (rpc_encode adler32 ser c) ms" by auto
  obtain s where "Send adler32 ByteSizeLong ser le c m = Inr s"
    "contents s = rpc_encode adler32 ser c m"
    using Send_ok [of ByteSizeLong m ser adler32 c le] assms(1) Cons.prems rpc_sendable_size
    by fastforce
  with ss show ?case by (intro exI [of _ "s # ss"]) simp
qed simp

lemma rpc_stream:
  assumes "\<And>m. ByteSizeLong m = length (ser m)"
    and "list_all (rpc_sendable adler32 parse ser c) ms"
    and "tag c' = tag c" and "AsyncRawCallback c' = None"
  shows "\<exists>ss. map (Send adler32 ByteSizeLong ser le c) ms = map Inr ss \<and>
    map contents ss = map (rpc_encode adler32 ser c) ms \<and>
    (\<forall>ds b. concat ds = concat (map contents ss) \<and> io_buffer_ok b \<and> contents b = [] \<and>
       kReservedCapacity \<le> writing_index b \<and> length (concat ds) \<le> GetWritableBytes b \<longrightarrow>
       (\<exists>b'. receive adler32 parse le' c' ds b = Inr (map MessageCall ms, b') \<and> contents b' = []))"
proof -
  obtain ss where ss: "map (Send adler32 ByteSizeLong ser le c) ms = map Inr ss"
    "map contents ss = map (rpc_encode adler32 ser c) ms"
    using Send_all [of ByteSizeLong ser, OF assms(1,2)] by blast
  have enc: "map contents ss = map (rpc_encode adler32 ser c') ms"
    by (simp add: ss(2) rpc_encode_tag [OF assms(3)])
  have send: "list_all (rpc_sendable adler32 parse ser c') ms"
    using assms(2) by (simp add: list_all_iff rpc_sendable_tag [OF assms(3)])
  have del: "rpc_delivered adler32 ser c' = (\<lambda>m. [MessageCall m])"
    using assms(4) by (simp add: fun_eq_iff rpc_delivered_def raw_events_def raw_skips_def Let_def)
  have "\<exists>b'. receive adler32 parse le' c' ds b = Inr (map MessageCall ms, b') \<and> contents b' = []"
    if "concat ds = concat (map contents ss)" "io_buffer_ok b" "contents b = []"
      "kReservedCapacity \<le> writing_index b" "length (concat ds) \<le> GetWritableBytes b" for ds b
  proof -
    have room: "length (concat ds) \<le> writable b" using that(2,5) by (simp add: GetWritableBytes_ok)
    then have "length (concat (map (rpc_encode adler32 ser c') ms)) \<le> vector_max_size"
      using that(1) enc io_buffer_okD(4) [OF that(2)] writable_plus [OF that(2)] by simp
    from rpc.feed_roundtrip [OF send this, of ds] that(1) enc
    have "feed (rpc_step adler32 parse c') (contents b) ds = (map MessageCall ms, True, [])"
      by (simp add: that(3) del)
    from receive_feed [OF that(2,4) room this] show ?thesis by blast
  qed
  with ss show ?thesis by blast
qed



text \<open>
  C15. What one round of \<open>OnMessage\<close> does with a header and enough bytes behind it, on every branch,
  in a codec without raw callback: a length outside the bounds is reported; an incomplete frame
  waits; a wrong checksum, a foreign tag and an unparsable payload are reported in this order of
  precedence, each leaving the buffer as it was; and otherwise the message is delivered and
  exactly its frame is consumed.
\<close>

theorem OnMessage_branches:
  fixes len :: "32 word"
  assumes ok: "io_buffer_ok b" and raw: "AsyncRawCallback c = None"
    and bytes: "contents b = be_bytes 4 len @ bs" and min: "length (tag c) + 4 \<le> length bs"
  shows "OnMessage adler32 parse le c b =
    (let body = take (nat (sint len)) bs; n = length body - 4
     in if sint len < int (length (tag c)) + 4 \<or> 64 * 1024 * 1024 < sint len
        then Inr ([ErrCall kInvalidLength], b)
        else if int (length bs) < sint len then Inr ([], b)
        else if be_word (drop n body) \<noteq> Checksum adler32 (take n body)
        then Inr ([ErrCall kChecksumError], b)
        else if take (length (tag c)) body \<noteq> tag c then Inr ([ErrCall kUnknownMessageType], b)
        else case parse (drop (length (tag c)) (take n body)) of
          None \<Rightarrow> Inr ([ErrCall kParseError], b)
        | Some m \<Rightarrow> res_bind (OnMessage adler32 parse le c (Refresh (nat (sint len) + 4) b))
            (\<lambda>(evs, b'). Inr (MessageCall m # evs, b')))"
proof -
  have skip: "\<not> raw_skips c r" "raw_events c r = []" for r
    using raw by (simp_all add: raw_skips_def raw_events_def)
  have w: "be_word (take 4 (contents b)) = len" by (simp add: bytes be_word_be_bytes)
  have n: "nat (kHeaderLength + sint len) = nat (sint len) + 4"
    "drop 4 (take (nat (sint len) + 4) (contents b)) = take (nat (sint len)) bs" if "0 \<le> sint len"
    using that by (simp_all add: kHeaderLength_def bytes)
  have "int (length (contents b)) = 4 + int (length bs)" by (simp add: bytes)
  then show ?thesis
    using min n unfolding OnMessage_unfold [OF ok] rpc_step_def w Let_def
    by (auto simp: skip parse_frame_def Let_def kMaxMessageLength_def rpc_lengths
        split: option.splits)
qed

theorem OnMessage_branches_witness:
  "OnMessage (\<lambda>a bs. a) Some True (RpcCodec_async [82, 80] None)
     \<lparr>buffer = replicate 8 0 @ [0, 0, 0, 7, 82, 80, 5, 0, 0, 0, 2], reading_index = 8, writing_index = 19\<rparr>
   = Inr ([ErrCall kChecksumError],
     \<lparr>buffer = replicate 8 0 @ [0, 0, 0, 7, 82, 80, 5, 0, 0, 0, 2], reading_index = 8, writing_index = 19\<rparr>)"
proof -
  let ?b = "\<lparr>buffer = replicate 8 0 @ [0, 0, 0, 7, 82, 80, 5, 0, 0, 0, 2 :: byte],
    reading_index = 8, writing_index = 19\<rparr>"
  have len: "be_bytes 4 (7 :: 32 word) = [0, 0, 0, 7]" by code_simp
  have sum: "be_word [0, 0, 0, 2] \<noteq> (1 :: 32 word)" by code_simp
  have "contents ?b = be_bytes 4 (7 :: 32 word) @ [82, 80, 5, 0, 0, 0, 2]"
    unfolding len by (simp add: contents_def)
  then show ?thesis
    using OnMessage_branches [of ?b "RpcCodec_async [82, 80] None" 7 "[82, 80, 5, 0, 0, 0, 2]"
        "\<lambda>a bs. a" Some True] sum
    by (simp add: small_buffer_ok RpcCodec_async_def Checksum_def Let_def)
qed

text \<open>
  The blocking \<open>OnMessage\<close>: when the descriptor delivers one encoded message, in however
  many pieces for the fixed part and for the rest, into an empty buffer, the call returns after
  reading exactly that frame, with the message delivered and the buffer empty.
\<close>

theorem OnMessage_sync_roundtrip:
  assumes "rpc_sendable adler32 parse ser (RpcCodec_sync t raw) m"
    and "CheckSocketStatusValid so fd"
    and "io_buffer_ok b" "GetReservedBytes b = kReservedCapacity" "GetReadableBytes b = 0"
    and "received_bytes rs1 @ received_bytes rs2 = rpc_encode adler32 ser (RpcCodec_sync t raw) m"
    and "recv_ok rs1 (length t + 8)" "length (received_bytes rs1) = length t + 8"
    and "recv_ok rs2 (length (received_bytes rs2))"
  shows "\<exists>b'. OnMessage_sync adler32 parse le (RpcCodec_sync t raw) so fd (rs1 @ rs2 @ rs') b =
    Inr (Some ([MessageCall m], rs', b')) \<and> io_buffer_ok b' \<and> GetReadableBytes b' = 0"
proof -
  have "contents b = []" "reading_index b = kReservedCapacity"
    using assms(3-5) by (simp_all add: GetReadableBytes_contents GetReservedBytes_def)
  then show ?thesis
    using OnMessage_sync_ok [of adler32 parse ser "RpcCodec_sync t raw" m so fd b rs1 rs2 le rs'] assms
    by (auto simp: RpcCodec_sync_def GetReadableBytes_contents)
qed

theorem OnMessage_sync_roundtrip_witness:
  "\<exists>b'. OnMessage_sync (\<lambda>a bs. a) Some True (RpcCodec_sync [82, 80] None) (Some 0) 5
     ([Inr [0, 0, 0], Inr [7, 82, 80, 5, 0, 0, 0]] @ [Inr [1]] @ [])
     \<lparr>buffer = replicate 40 0, reading_index = 8, writing_index = 8\<rparr>
   = Inr (Some ([MessageCall [5]], [], b')) \<and> io_buffer_ok b' \<and> GetReadableBytes b' = 0"
proof (rule OnMessage_sync_roundtrip [where ser = id])
  have "be_bytes 4 (7 :: 32 word) = [0, 0, 0, 7]" "be_bytes 4 (1 :: 32 word) = [0, 0, 0, 1]"
    by code_simp+
  then show "received_bytes [Inr [0, 0, 0], Inr [7, 82, 80, 5, 0, 0, 0]] @ received_bytes [Inr [1]] =
      rpc_encode (\<lambda>a bs. a) id (RpcCodec_sync [82, 80] None) [5]"
    by (simp add: rpc_encode_def rpc_body_def RpcCodec_sync_def Checksum_def)
  show "io_buffer_ok \<lparr>buffer = replicate 40 0, reading_index = 8, writing_index = 8\<rparr>"
    by (simp add: small_buffer_ok)
qed (simp_all add: rpc_sendable_def rpc_body_def RpcCodec_sync_def kMaxMessageLength_def
    CheckSocketStatusValid_def GetReservedBytes_def kReservedCapacity_def GetReadableBytes_def
    size_sub_def)

text \<open>
  The raw callback of a codec built by the synchronous constructor is never consulted: the
  blocking \<open>OnMessage\<close> behaves the same with any raw callback and with none.
\<close>

theorem sync_raw_callback_ignored:
  "OnMessage_sync adler32 parse le (RpcCodec_sync t raw) so fd rs b =
   OnMessage_sync adler32 parse le (RpcCodec_sync t None) so fd rs b"
proof -
  let ?c = "RpcCodec_sync t raw" and ?d = "RpcCodec_sync t None"
  have e: "AsyncRawCallback ?c = AsyncRawCallback ?d" "tag ?c = tag ?d"
    by (simp_all add: RpcCodec_sync_def)
  have v: "sync_raw_verdict ?c = sync_raw_verdict ?d"
    by (simp add: fun_eq_iff sync_raw_verdict_def RpcCodec_sync_def)
  have k: "kMinMessageLength ?c = kMinMessageLength ?d" unfolding kMinMessageLength_def e ..
  show ?thesis unfolding OnMessage_sync_def e k v Parse_tag [OF e(2)] ..
qed

lemma Send_sync_ok:
  assumes "ByteSizeLong m = length (ser m)" and "length (rpc_body adler32 ser c m) < 2 ^ 32"
    and "CheckSocketStatusValid so fd" and "send_ok rs (length (rpc_encode adler32 ser c m))"
  shows "Send_sync adler32 ByteSizeLong ser le c so fd rs m = Inr (Some (rpc_encode adler32 ser c m))"
proof -
  obtain b where b: "Send adler32 ByteSizeLong ser le c m = Inr b" "io_buffer_ok b"
    "contents b = rpc_encode adler32 ser c m"
    using Send_ok [of ByteSizeLong m ser, OF assms(1,2)] by blast
  then show ?thesis
    using send_loop_ok [OF b(2), of rs] assms(3,4)
    by (auto simp: Send_sync_def b(1) b(3) [symmetric] GetReadableBytes_contents [OF b(2)]
        simp del: length_rpc_encode)
qed

text \<open>
  The blocking \<open>Send\<close> writes the whole frame and returns when every call to \<open>send\<close> takes
  some of the bytes, however few; but one failed call makes it miscount: after all the bytes
  have been taken it still waits for one byte more, and has not returned after any number of
  further calls.
\<close>

theorem Send_sync_outcomes:
  assumes "ByteSizeLong m = length (ser m)" and "length (rpc_body adler32 ser c m) < 2 ^ 32"
    and "CheckSocketStatusValid so fd"
  shows "(send_ok rs (length (rpc_encode adler32 ser c m)) \<longrightarrow>
      Send_sync adler32 ByteSizeLong ser le c so fd rs m = Inr (Some (rpc_encode adler32 ser c m))) \<and>
    Send_sync adler32 ByteSizeLong ser le c so fd
      (Inl e # Inr (length (rpc_encode adler32 ser c m)) # replicate k (Inr 0)) m = Inr None"
proof -
  obtain b where b: "Send adler32 ByteSizeLong ser le c m = Inr b" "io_buffer_ok b"
    "contents b = rpc_encode adler32 ser c m"
    using Send_ok [of ByteSizeLong m ser, OF assms(1,2)] by blast
  have "0 < length (contents b)" by (simp add: b(3))
  then show ?thesis
    using Send_sync_ok [of ByteSizeLong m ser, OF assms, where rs = rs and le = le] send_loop_miscounts [OF b(2), of e k] assms(3)
    by (auto simp: Send_sync_def b(1) b(3) [symmetric] GetReadableBytes_contents [OF b(2)]
        simp del: length_rpc_encode)
qed

theorem Send_sync_outcomes_witness:
  "Send_sync (\<lambda>a bs. a) length id True (RpcCodec_sync [82] None) (Some 0) 3 [Inr 2, Inr 8] [5] =
     Inr (Some (rpc_encode (\<lambda>a bs. a) id (RpcCodec_sync [82] None) [5])) \<and>
   Send_sync (\<lambda>a bs. a) length id True (RpcCodec_sync [82] None) (Some 0) 3
     [Inl 11, Inr 10, Inr 0, Inr 0] [5] = Inr None"
proof -
  have "replicate 2 (Inr 0) = [Inr 0, Inr 0 :: int + nat]" by (simp add: numeral_2_eq_2)
  then show ?thesis
    using Send_sync_outcomes [of length "[5]" id "\<lambda>a bs. a" "RpcCodec_sync [82] None" "Some 0" 3
        "[Inr 2, Inr 8]" True 11 2]
    by (simp add: rpc_body_def RpcCodec_sync_def CheckSocketStatusValid_def)
qed

end
