(* ===== verification/Chat_Codec.thy ===== *)
theory Chat_Codec
  imports Rpc_Codec
begin

text \<open>
  The message codec of the chat room example (\<^verbatim>\<open>src/example/chat_room/message_codec.cc\<close>): a frame is
  the length of the message (4 bytes, big-endian) and the message. The buffer is the library's
  \<open>IoBuffer\<close>; the calls to the message callback and to \<open>ShutDownWrite\<close> are the events. The
  reader \<open>chat_step\<close> is the second interpretation of the locale \<open>framing\<close>.
\<close>

definition kHeadLength :: int where
  "kHeadLength = 4"

datatype chat_event =
    ChatMessage "byte list"
  | ChatShutDownWrite

function Codec_OnMessage :: "bool \<Rightarrow> io_buffer \<Rightarrow> (chat_event list \<times> io_buffer) res" where
  "Codec_OnMessage le b =
     (if int (GetReadableBytes b) < kHeadLength then Inr ([], b)
      else res_bind (GetReadableInt32 le b) (\<lambda>w.
        let msg_len = sint w
        in if 65536 < msg_len \<or> msg_len < 0 then Inr ([ChatShutDownWrite], b)
           else if msg_len + kHeadLength \<le> to_int32 (int (GetReadableBytes b))
           then let b1 = Refresh (nat kHeadLength) b
                in res_bind (mem_read (reading_index b1) (nat msg_len) (buffer b1)) (\<lambda>message.
                     res_bind (Codec_OnMessage le (Refresh (nat msg_len) b1)) (\<lambda>(evs, b').
                       Inr (ChatMessage message # evs, b')))
           else Inr ([], b)))"
  by pat_completeness auto
termination
  by (relation "measure (\<lambda>(_, b). GetReadableBytes b)")
    (auto simp: GetReadableBytes_Refresh kHeadLength_def)

declare Codec_OnMessage.simps [simp del]

text \<open>The buffer that \<open>Codec::Send\<close> hands to \<open>Connecting::Send\<close>.\<close>

definition Codec_Send :: "bool \<Rightarrow> byte list \<Rightarrow> io_buffer res" where
  "Codec_Send le message =
     res_bind (IoBuffer kInitialCapacity) (\<lambda>b.
       res_bind (Append message b) (\<lambda>b1.
         SetHeadContentInt32 le (word_of_nat (length message)) b1))"


section \<open>The reader of one frame\<close>

definition chat_encode :: "byte list \<Rightarrow> byte list" where
  "chat_encode m = be_bytes 4 (word_of_nat (length m) :: 32 word) @ m"

definition chat_sendable :: "byte list \<Rightarrow> bool" where
  "chat_sendable m \<longleftrightarrow> length m \<le> 65536"

definition chat_step :: "byte list \<Rightarrow> chat_event frame" where
  "chat_step bs =
     (if length bs < 4 then Wait
      else
        let msg_len = sint (be_word (take 4 bs) :: 32 word)
        in if 65536 < msg_len \<or> msg_len < 0 then Reject [ChatShutDownWrite]
           else if msg_len + 4 \<le> to_int32 (int (length bs))
           then Frame [ChatMessage (take (nat msg_len) (drop 4 bs))] (4 + nat msg_len)
           else Wait)"

definition int_max :: nat where
  "int_max = 2 ^ 31 - 1"

lemma to_int32_max: "n \<le> int_max \<Longrightarrow> to_int32 (int n) = int n"
  by (rule to_int32_small) (auto simp: int_max_def)

lemma chat_step_encode:
  assumes "chat_sendable m" and "length (chat_encode m @ rest) \<le> int_max"
  shows "chat_step (chat_encode m @ rest) = Frame [ChatMessage m] (length (chat_encode m))"
proof -
  have "sint (word_of_nat (length m) :: 32 word) = int (length m)"
    using assms(1) by (intro sint_word_of_nat_32) (simp add: chat_sendable_def)
  moreover have "to_int32 (int (length (chat_encode m @ rest))) = int (length (chat_encode m @ rest))"
    using assms(2) by (rule to_int32_max)
  ultimately show ?thesis
    using assms(1) by (simp add: chat_step_def chat_encode_def be_word_be_bytes chat_sendable_def)
qed

lemma chat_step_more:
  assumes "chat_step bs \<noteq> Wait" and "length (bs @ rest) \<le> int_max"
  shows "chat_step (bs @ rest) = chat_step bs"
proof -
  have min: "\<not> length bs < 4" using assms(1) by (auto simp: chat_step_def)
  then have t: "take 4 (bs @ rest) = take 4 bs" "drop 4 (bs @ rest) = drop 4 bs @ rest" by simp_all
  define len where "len = sint (be_word (take 4 bs) :: 32 word)"
  have i: "to_int32 (int (length (bs @ rest))) = int (length (bs @ rest))"
    "to_int32 (int (length bs)) = int (length bs)"
    using assms(2) by (intro to_int32_max; simp)+
  show ?thesis
  proof (cases "65536 < len \<or> len < 0")
    case True
    then show ?thesis using min t by (auto simp: chat_step_def len_def)
  next
    case False
    then have all: "len + 4 \<le> int (length bs)"
      using assms(1) min i(2) by (auto simp: chat_step_def len_def [symmetric] Let_def split: if_splits)
    then have "take (nat len) (drop 4 bs @ rest) = take (nat len) (drop 4 bs)" by simp
    then show ?thesis
      using min all False unfolding chat_step_def t i len_def [symmetric] Let_def by simp
  qed
qed

lemma chat_step_Frame:
  "chat_step bs = Frame evs n \<Longrightarrow> length bs \<le> int_max \<Longrightarrow> 0 < n \<and> n \<le> length bs"
  using to_int32_max [of "length bs"]
  by (auto simp: chat_step_def Let_def split: if_splits)

interpretation chat: framing chat_step chat_encode "\<lambda>m. [ChatMessage m]" chat_sendable int_max
proof unfold_locales
  show "chat_step [] = Wait" by (simp add: chat_step_def)
  show "chat_encode m \<noteq> []" for m
    by (simp add: chat_encode_def) (metis length_be_bytes list.size(3) zero_neq_numeral)
  show "0 < n \<and> n \<le> length bs \<and> chat_step (bs @ rest) = Frame evs n"
    if "chat_step bs = Frame evs n" "length (bs @ rest) \<le> int_max" for bs evs n rest
    using chat_step_Frame [OF that(1)] chat_step_more [of bs rest] that by simp
qed (auto simp: chat_step_encode chat_step_more)


section \<open>\<open>OnMessage\<close> refines the frame loop\<close>

lemma Codec_OnMessage_unfold:
  assumes ok: "io_buffer_ok b" and max: "length (contents b) \<le> int_max"
  shows "Codec_OnMessage le b =
    (case chat_step (contents b) of
       Wait \<Rightarrow> Inr ([], b)
     | Reject evs \<Rightarrow> Inr (evs, b)
     | Frame evs n \<Rightarrow>
         res_bind (Codec_OnMessage le (Refresh (n - 4) (Refresh 4 b))) (\<lambda>(evs', b').
           Inr (evs @ evs', b')))"
proof (cases "length (contents b) < 4")
  case True
  then show ?thesis
    by (subst Codec_OnMessage.simps)
      (simp add: chat_step_def GetReadableBytes_contents [OF ok] kHeadLength_def)
next
  case False
  then have w: "GetReadableInt32 le b = Inr (be_word (take 4 (contents b)))"
    by (simp add: GetReadableInt_ok [OF ok])
  define len where "len = sint (be_word (take 4 (contents b)) :: 32 word)"
  have b1: "io_buffer_ok (Refresh 4 b)" "contents (Refresh 4 b) = drop 4 (contents b)"
    using ok by (simp_all add: Refresh_ok contents_Refresh)
  note i = to_int32_max [OF max]
  show ?thesis
  proof (cases "0 \<le> len \<and> len \<le> 65536 \<and> len + 4 \<le> int (length (contents b))")
    case True
    then have "nat len \<le> length (contents b) - 4" by linarith
    then have "mem_read (reading_index (Refresh 4 b)) (nat len) (buffer (Refresh 4 b)) =
        Inr (take (nat len) (drop 4 (contents b)))"
      using mem_read_contents [OF b1(1), of "nat len"] by (simp add: b1(2))
    then show ?thesis using True False w i
      by (subst Codec_OnMessage.simps) (simp add: chat_step_def GetReadableBytes_contents [OF ok]
          kHeadLength_def len_def [symmetric] Let_def)
  next
    case g: False
    then show ?thesis using False w i
      by (subst Codec_OnMessage.simps) (auto simp: chat_step_def GetReadableBytes_contents [OF ok]
          kHeadLength_def len_def [symmetric] Let_def)
  qed
qed

lemma Codec_OnMessage_refines_drain:
  assumes "io_buffer_ok b" and "length (contents b) \<le> int_max"
    and "drain chat_step (contents b) = (evs, good, rest)"
  shows "\<exists>b'. Codec_OnMessage le b = Inr (evs, b') \<and> io_buffer_ok b' \<and> contents b' = rest"
  using assms
proof (induction "length (contents b)" arbitrary: b evs rule: less_induct)
  case less
  show ?case
  proof (cases "chat_step (contents b)")
    case (Frame es n)
    note n = chat_step_Frame [OF Frame less.prems(2)]
    let ?b = "Refresh (n - 4) (Refresh 4 b)"
    have "4 \<le> n" using Frame by (auto simp: chat_step_def Let_def split: if_splits)
    then have c: "contents ?b = drop n (contents b)" "io_buffer_ok ?b"
      using less.prems(1) by (simp_all add: contents_Refresh Refresh_ok)
    obtain evs' where d: "drain chat_step (contents ?b) = (evs', good, rest)" "evs = es @ evs'"
      using less.prems(3) drain_Frame [of chat_step, OF Frame] n c(1) by (auto split: prod.splits)
    have "length (contents ?b) < length (contents b)" "length (contents ?b) \<le> int_max"
      using n less.prems(2) unfolding c(1) length_drop by linarith+
    from less.hyps [OF this(1) c(2) this(2) d(1)] show ?thesis
      using Frame d(2) by (auto simp: Codec_OnMessage_unfold [OF less.prems(1,2)])
  qed (use less.prems in \<open>auto simp: drain_cases Codec_OnMessage_unfold\<close>)
qed

lemma Codec_Send_ok:
  assumes "length m \<le> int_max"
  shows "\<exists>b. Codec_Send le m = Inr b \<and> io_buffer_ok b \<and> contents b = chat_encode m"
proof -
  obtain b0 where b0: "IoBuffer kInitialCapacity = Inr b0" "io_buffer_ok b0" "contents b0 = []"
    "reading_index b0 = kReservedCapacity"
    using IoBuffer_initial by blast
  have "kReservedCapacity + length (contents b0) + length m \<le> vector_max_size"
    using assms b0(3) by (simp add: int_max_def vector_max_size_def kReservedCapacity_def)
  from Append_fresh [OF b0(2,4) this] b0(3) obtain b1 where
    b1: "Append m b0 = Inr b1" "io_buffer_ok b1" "contents b1 = m"
      "reading_index b1 = kReservedCapacity" by auto
  define h where "h = be_bytes 4 (word_of_nat (length m) :: 32 word)"
  have "Codec_Send le m = SetHeadContent h b1"
    by (simp add: Codec_Send_def b0(1) b1(1) SetHeadContentInt_eq h_def)
  moreover have "length h \<le> reading_index b1" by (simp add: h_def b1(4) kReservedCapacity_def)
  ultimately show ?thesis
    using SetHeadContent_ok [OF b1(2), of h] b1(3) by (auto simp: chat_encode_def h_def)
qed


section \<open>Correctness\<close>

lemma Codec_OnMessage_encoded:
  assumes "list_all (\<lambda>m. length m \<le> 65536) ms" "length rest < 4" "io_buffer_ok b" "contents b = concat (map chat_encode ms) @ rest"
    "length (contents b) \<le> int_max"
  shows "\<exists>b'. Codec_OnMessage le b = Inr (map ChatMessage ms, b') \<and> contents b' = rest"
proof -
  have "list_all chat_sendable ms" using assms(1) by (simp add: list_all_iff chat_sendable_def)
  moreover have "drain chat_step rest = ([], True, rest)"
    using assms(2) by (simp add: drain_Wait chat_step_def)
  ultimately have "drain chat_step (contents b) = (map ChatMessage ms, True, rest)"
    using chat.drain_encode [of ms rest] assms(4,5) by simp
  then show ?thesis using Codec_OnMessage_refines_drain [OF assms(3,5)] by blast
qed

text \<open>
  The chat codec carries every message of at most 65536 bytes: the frames that \<open>Send\<close> makes
  of a list of messages, put one after the other into a buffer together with the beginning
  of another frame, are delivered by one call of \<open>OnMessage\<close>, in order, and the beginning is
  left for the next call.
\<close>

theorem chat_roundtrip:
  assumes "list_all (\<lambda>m. length m \<le> 65536) ms" and "length rest < 4"
    and "io_buffer_ok b" "contents b = concat (map chat_encode ms) @ rest"
    and "length (contents b) \<le> int_max"
  shows "(\<forall>m \<in> set ms. \<exists>s. Codec_Send le m = Inr s \<and> contents s = chat_encode m) \<and>
    (\<exists>b'. Codec_OnMessage le' b = Inr (map ChatMessage ms, b') \<and> contents b' = rest)"
proof -
  have "\<exists>b'. Codec_OnMessage le' b = Inr (map ChatMessage ms, b') \<and> contents b' = rest"
    by (rule Codec_OnMessage_encoded [OF assms])
  moreover have "\<exists>s. Codec_Send le m = Inr s \<and> contents s = chat_encode m" if "m \<in> set ms" for m
    using that assms(1) Codec_Send_ok [of m le] by (fastforce simp: list_all_iff int_max_def)
  ultimately show ?thesis by blast
qed

theorem chat_roundtrip_witness:
  "\<exists>b'. Codec_OnMessage True \<lparr>buffer = replicate 8 0 @ [0, 0, 0, 2, 72, 105, 0, 0, 0, 0, 0],
       reading_index = 8, writing_index = 19\<rparr> = Inr ([ChatMessage [72, 105], ChatMessage []], b') \<and>
     contents b' = [0]"
proof -
  let ?b = "\<lparr>buffer = replicate 8 0 @ [0, 0, 0, 2, 72, 105, 0, 0, 0, 0, 0 :: byte],
    reading_index = 8, writing_index = 19\<rparr>"
  have "be_bytes 4 (2 :: 32 word) = [0, 0, 0, 2]" "be_bytes 4 (0 :: 32 word) = [0, 0, 0, 0]"
    by code_simp+
  then have "contents ?b = concat (map chat_encode [[72, 105], []]) @ [0]"
    by (simp add: contents_def chat_encode_def)
  then show ?thesis
    using chat_roundtrip [of "[[72, 105], []]" "[0]" ?b True True]
    by (simp add: small_buffer_ok int_max_def chat_encode_def)
qed

end
