(* ===== verification/Chat_Room.thy ===== *)
theory Chat_Room
  imports Chat_Codec Connection_Theorems
begin

text \<open>
  The chat room of the examples (\<^verbatim>\<open>src/example/chat_room/chat_server.cc\<close>,
  \<^verbatim>\<open>src/example/chat_room/chat_client.cc\<close>): the server keeps the set of its connections and sends every message to all
  of them but the one it came from.

  Connections are objects with an address: \<open>chat_conns\<close> are those that exist. A \<open>std::set\<close> of pointers is the
  sorted list of the addresses. Printing and the lock are left out: each operation holds the lock while it runs.
\<close>

section \<open>The server\<close>

record chat_room =
  members :: "nat list"
  chat_conns :: "nat \<rightharpoonup> connecting"

definition ChatServer :: chat_room where
  "ChatServer = \<lparr>members = [], chat_conns = Map.empty\<rparr>"

definition ChatServer_OnConnection :: "nat \<Rightarrow> chat_room \<Rightarrow> chat_room res" where
  "ChatServer_OnConnection a r =
     (case chat_conns r a of
        None \<Rightarrow> Inl UseAfterFree
      | Some w \<Rightarrow> Inr (r\<lparr>members := (if IsConnected w then List.insort a (remove1 a (members r)) else remove1 a (members r))\<rparr>))"

text \<open>\<open>Codec::Send\<close> to a member.\<close>

definition chat_send :: "uring_env \<Rightarrow> bool \<Rightarrow> byte list \<Rightarrow> nat \<Rightarrow> chat_room \<Rightarrow> chat_room res" where
  "chat_send env le message a r =
     (case chat_conns r a of
        None \<Rightarrow> Inl UseAfterFree
      | Some w \<Rightarrow>
          res_bind (Codec_Send le message) (\<lambda>b.
          res_bind (Send_buffer env no_user b w) (\<lambda>(b', w').
            Inr (r\<lparr>chat_conns := (chat_conns r)(a \<mapsto> w')\<rparr>))))"

fun send_others :: "uring_env \<Rightarrow> bool \<Rightarrow> byte list \<Rightarrow> int \<Rightarrow> nat list \<Rightarrow> chat_room \<Rightarrow> chat_room res" where
  "send_others env le message conn_fd [] r = Inr r"
| "send_others env le message conn_fd (a # as) r =
     (case chat_conns r a of
        None \<Rightarrow> Inl UseAfterFree
      | Some w \<Rightarrow>
          res_bind (if conn_fd \<noteq> ev_fd w then chat_send env le message a r else Inr r)
            (send_others env le message conn_fd as))"

definition ChatServer_OnCodecMessage :: "uring_env \<Rightarrow> bool \<Rightarrow> int \<Rightarrow> byte list \<Rightarrow> chat_room \<Rightarrow> chat_room res" where
  "ChatServer_OnCodecMessage env le conn_fd message r = send_others env le message conn_fd (members r) r"

text \<open>The message callback: what the codec calls for the connection \<open>a\<close>.\<close>

fun chat_events :: "uring_env \<Rightarrow> bool \<Rightarrow> nat \<Rightarrow> chat_event list \<Rightarrow> chat_room \<Rightarrow> chat_room res" where
  "chat_events env le a [] r = Inr r"
| "chat_events env le a (e # es) r =
     (case chat_conns r a of
        None \<Rightarrow> Inl UseAfterFree
      | Some w \<Rightarrow>
          res_bind
            (case e of
               ChatMessage m \<Rightarrow> ChatServer_OnCodecMessage env le (ev_fd w) m r
             | ChatShutDownWrite \<Rightarrow> Inr (r\<lparr>chat_conns := (chat_conns r)(a \<mapsto> ShutDownWrite w)\<rparr>))
            (chat_events env le a es))"

definition ChatServer_OnMessage :: "uring_env \<Rightarrow> bool \<Rightarrow> nat \<Rightarrow> chat_room \<Rightarrow> chat_room res" where
  "ChatServer_OnMessage env le a r =
     (case chat_conns r a of
        None \<Rightarrow> Inl UseAfterFree
      | Some w \<Rightarrow>
          res_bind (Codec_OnMessage le (input_buffer w)) (\<lambda>(evs, b).
            chat_events env le a evs (r\<lparr>chat_conns := (chat_conns r)(a \<mapsto> w\<lparr>input_buffer := b\<rparr>)\<rparr>)))"

section \<open>The client\<close>

text \<open>A client sees its connection through a pointer; the rest is the client of the library.\<close>

definition ChatClient_OnConnection :: "nat \<Rightarrow> connecting \<Rightarrow> nat option" where
  "ChatClient_OnConnection a w = (if IsConnected w then Some a else None)"

definition ChatClient_Write :: "uring_env \<Rightarrow> bool \<Rightarrow> byte list \<Rightarrow> nat option \<Rightarrow> chat_room \<Rightarrow> chat_room res" where
  "ChatClient_Write env le message connection r =
     (case connection of None \<Rightarrow> Inr r | Some a \<Rightarrow> chat_send env le message a r)"

section \<open>Messages reach the others\<close>

text \<open>The members exist and are connected.\<close>

definition room_ok :: "chat_room \<Rightarrow> bool" where
  "room_ok r \<longleftrightarrow> distinct (members r) \<and> (\<forall>a \<in> set (members r). \<exists>w. chat_conns r a = Some w \<and> conn_state w = kConnected)"

lemma ChatServer_OnConnection_keeps:
  assumes "room_ok r" "ChatServer_OnConnection a r = Inr r'"
  shows "room_ok r' \<and> (\<exists>w. chat_conns r a = Some w \<and> set (members r') = (if conn_state w = kConnected then insert a else (\<lambda>A. A - {a})) (set (members r)))"
  using assms
  by (auto simp: ChatServer_OnConnection_def room_ok_def IsConnected_def set_insort_key distinct_insort distinct_remove1
    set_remove1_eq split: option.splits if_splits)

text \<open>\<open>got r as fd bs r'\<close>: the connections of \<open>as\<close> with another descriptor than \<open>fd\<close> got the bytes \<open>bs\<close>.\<close>

definition got :: "chat_room \<Rightarrow> nat set \<Rightarrow> int \<Rightarrow> byte list \<Rightarrow> chat_room \<Rightarrow> bool" where
  "got r as fd bs r' \<longleftrightarrow> members r' = members r \<and>
     (\<forall>a. case chat_conns r a of
            None \<Rightarrow> chat_conns r' a = None
          | Some w \<Rightarrow> (\<exists>w'. chat_conns r' a = Some w' \<and> ev_fd w' = ev_fd w \<and> conn_state w' = conn_state w \<and>
              input_buffer w' = input_buffer w \<and>
              accepted w' = accepted w @ (if a \<in> as \<and> ev_fd w \<noteq> fd then bs else [])))"

lemma gotE:
  assumes "got r as fd bs r'" "chat_conns r a = Some w"
  obtains w' where "chat_conns r' a = Some w'" "ev_fd w' = ev_fd w" "conn_state w' = conn_state w"
    "input_buffer w' = input_buffer w" "accepted w' = accepted w @ (if a \<in> as \<and> ev_fd w \<noteq> fd then bs else [])"
  using assms(1) [unfolded got_def, THEN conjunct2, THEN spec, of a] assms(2) by auto

lemma got_None: "got r as fd bs r' \<Longrightarrow> chat_conns r a = None \<Longrightarrow> chat_conns r' a = None"
  by (drule got_def [THEN iffD1], drule conjunct2, drule spec [of _ a]) simp

lemma chat_send_got:
  assumes "chat_conns r a = Some w" "conn_state w = kConnected" "length m \<le> 65536" "ev_fd w \<noteq> fd" "chat_send env le m a r = Inr r'"
  shows "got r {a} fd (chat_encode m) r'"
proof -
  have "length m \<le> int_max" using assms(3) by (simp add: int_max_def)
  then obtain b where b: "Codec_Send le m = Inr b" "io_buffer_ok b" "contents b = chat_encode m" using Codec_Send_ok by blast
  obtain w' where w': "Send env no_user (chat_encode m) w = Inr w'" "r' = r\<lparr>chat_conns := (chat_conns r)(a \<mapsto> w')\<rparr>"
    using assms(1,5) b
    by (auto simp: chat_send_def Send_buffer_def res_bind_Inr_iff mem_read_contents GetReadableBytes_contents)
  show ?thesis
    using Send_connected [OF assms(2) w'(1)] assms(1,2,4) by (auto simp: got_def w'(2) split: option.splits)
qed

lemma got_none: "got r {} fd bs r"
  by (auto simp: got_def split: option.splits)

lemma got_trans:
  assumes "got r as fd bs r1" "got r1 as' fd bs r'" "as \<inter> as' = {}"
  shows "got r (as \<union> as') fd bs r'"
  unfolding got_def
proof (intro conjI allI)
  show "members r' = members r" using assms by (simp add: got_def)
  fix a
  show "case chat_conns r a of None \<Rightarrow> chat_conns r' a = None
    | Some w \<Rightarrow> \<exists>w'. chat_conns r' a = Some w' \<and> ev_fd w' = ev_fd w \<and> conn_state w' = conn_state w \<and>
        input_buffer w' = input_buffer w \<and> accepted w' = accepted w @ (if a \<in> as \<union> as' \<and> ev_fd w \<noteq> fd then bs else [])"
  proof (cases "chat_conns r a")
    case None
    then show ?thesis using got_None [OF assms(2) got_None [OF assms(1) None]] by simp
  next
    case (Some w)
    obtain w1 where w1: "chat_conns r1 a = Some w1" "ev_fd w1 = ev_fd w" "conn_state w1 = conn_state w"
      "input_buffer w1 = input_buffer w" "accepted w1 = accepted w @ (if a \<in> as \<and> ev_fd w \<noteq> fd then bs else [])"
      by (rule gotE [OF assms(1) Some])
    obtain w' where "chat_conns r' a = Some w'" "ev_fd w' = ev_fd w1" "conn_state w' = conn_state w1"
      "input_buffer w' = input_buffer w1" "accepted w' = accepted w1 @ (if a \<in> as' \<and> ev_fd w1 \<noteq> fd then bs else [])"
      by (rule gotE [OF assms(2) w1(1)])
    then show ?thesis using Some w1 assms(3) by auto
  qed
qed

lemma got_conn:
  assumes "got r as fd bs r'" "chat_conns r a = Some w" "conn_state w = kConnected"
  shows "\<exists>w'. chat_conns r' a = Some w' \<and> conn_state w' = kConnected"
  using gotE [OF assms(1,2)] assms(3) by metis

lemma send_others_got:
  assumes "distinct xs" "\<forall>a \<in> set xs. \<exists>w. chat_conns r a = Some w \<and> conn_state w = kConnected" "length m \<le> 65536"
    and "send_others env le m fd xs r = Inr r'"
  shows "got r (set xs) fd (chat_encode m) r'"
  using assms
proof (induction xs arbitrary: r)
  case (Cons a xs)
  obtain w where w: "chat_conns r a = Some w" "conn_state w = kConnected" using Cons.prems(2) by auto
  obtain r1 where r1: "(if fd \<noteq> ev_fd w then chat_send env le m a r else Inr r) = Inr r1" "send_others env le m fd xs r1 = Inr r'"
    using Cons.prems(4) w(1) by (auto simp: res_bind_Inr_iff)
  have g: "got r {a} fd (chat_encode m) r1"
  proof (cases "fd = ev_fd w")
    case True
    then have "r1 = r" using r1(1) by simp
    then show ?thesis using w(1) True by (auto simp: got_def split: option.splits)
  qed (use chat_send_got [OF w Cons.prems(3)] r1(1) in auto)
  have "got r1 (set xs) fd (chat_encode m) r'"
    using Cons.IH [of r1] Cons.prems(1-3) r1(2) got_conn [OF g] by (metis distinct.simps(2) list.set_intros(2))
  from got_trans [OF g this] Cons.prems(1) show ?case by simp
qed (simp add: got_none)

lemma got_more:
  assumes "got r as fd bs r1" "got r1 as fd bs' r'"
  shows "got r as fd (bs @ bs') r'"
  unfolding got_def
proof (intro conjI allI)
  show "members r' = members r" using assms by (simp add: got_def)
  fix a
  show "case chat_conns r a of None \<Rightarrow> chat_conns r' a = None
    | Some w \<Rightarrow> \<exists>w'. chat_conns r' a = Some w' \<and> ev_fd w' = ev_fd w \<and> conn_state w' = conn_state w \<and>
        input_buffer w' = input_buffer w \<and> accepted w' = accepted w @ (if a \<in> as \<and> ev_fd w \<noteq> fd then bs @ bs' else [])"
  proof (cases "chat_conns r a")
    case None
    then show ?thesis using got_None [OF assms(2) got_None [OF assms(1) None]] by simp
  next
    case (Some w)
    obtain w1 where w1: "chat_conns r1 a = Some w1" "ev_fd w1 = ev_fd w" "conn_state w1 = conn_state w"
      "input_buffer w1 = input_buffer w" "accepted w1 = accepted w @ (if a \<in> as \<and> ev_fd w \<noteq> fd then bs else [])"
      by (rule gotE [OF assms(1) Some])
    obtain w' where "chat_conns r' a = Some w'" "ev_fd w' = ev_fd w1" "conn_state w' = conn_state w1"
      "input_buffer w' = input_buffer w1" "accepted w' = accepted w1 @ (if a \<in> as \<and> ev_fd w1 \<noteq> fd then bs' else [])"
      by (rule gotE [OF assms(2) w1(1)])
    then show ?thesis using Some w1 by auto
  qed
qed

lemma room_ok_got:
  assumes "room_ok r" "got r as fd bs r'"
  shows "room_ok r'"
proof -
  have "members r' = members r" using assms(2) by (simp add: got_def)
  then show ?thesis using assms(1) got_conn [OF assms(2)] unfolding room_ok_def by metis
qed

lemma chat_events_got:
  assumes "room_ok r" "chat_conns r a = Some w" "list_all (\<lambda>m. length m \<le> 65536) ms" "chat_events env le a (map ChatMessage ms) r = Inr r'"
  shows "got r (set (members r)) (ev_fd w) (concat (map chat_encode ms)) r'"
  using assms
proof (induction ms arbitrary: r w)
  case Nil
  then show ?case by (auto simp: got_def split: option.splits)
next
  case (Cons m ms)
  obtain r1 where r1: "send_others env le m (ev_fd w) (members r) r = Inr r1" "chat_events env le a (map ChatMessage ms) r1 = Inr r'"
    using Cons.prems(2,4) by (auto simp: res_bind_Inr_iff ChatServer_OnCodecMessage_def)
  have g: "got r (set (members r)) (ev_fd w) (chat_encode m) r1"
    using send_others_got [OF _ _ _ r1(1)] Cons.prems(1,3) by (simp add: room_ok_def)
  obtain w1 where w1: "chat_conns r1 a = Some w1" "ev_fd w1 = ev_fd w" by (rule gotE [OF g Cons.prems(2)])
  have "members r1 = members r" using g by (simp add: got_def)
  then have "got r1 (set (members r)) (ev_fd w) (concat (map chat_encode ms)) r'"
    using Cons.IH [OF room_ok_got [OF Cons.prems(1) g] w1(1) _ r1(2)] Cons.prems(3) w1(2) by simp
  from got_more [OF g this] show ?case by simp
qed


definition sample_frames :: io_buffer where
  "sample_frames = \<lparr>buffer = replicate 8 0 @ [0, 0, 0, 2, 72, 105, 0], reading_index = 8, writing_index = 15\<rparr>"

definition sample_room :: chat_room where
  "sample_room = \<lparr>members = [1, 2], chat_conns = [1 \<mapsto> sample_conn\<lparr>input_buffer := sample_frames\<rparr>,
     2 \<mapsto> sample_conn\<lparr>ev_fd := ev_fd sample_conn + 1\<rparr>]\<rparr>"


end
