(* ===== verification/Log_Ring.thy ===== *)
theory Log_Ring
  imports Taotu_Prelude
begin

text \<open>
  The logger (\<^verbatim>\<open>src/src/logger.h\<close>, \<^verbatim>\<open>src/src/logger.cc\<close>): records are put into a lock-free ring by any
  number of threads and written to files by one thread.

  The ring is modelled at the grain of its atomic operations: \<open>enq_step\<close> is one step of a thread in
  \<open>Enqueue\<close>, \<open>writer_step\<close> one of the thread in \<open>WriteDownLogs\<close> and \<open>Dequeue\<close>, \<open>stop_step\<close>
  one of the thread in \<open>EndLogger\<close>; \<open>log_step\<close> interleaves them. Steps are sequentially
  consistent. Indexes are natural numbers (they would wrap around after \<open>2 ^ 64\<close> records), the
  counter \<open>pending_\<close> is a word, since it may drop below zero for a moment. \<open>claimed\<close>, \<open>written\<close>
  and \<open>dropped\<close> are history and are never read.
\<close>

section \<open>Records\<close>

datatype LogLevel = kEmerg | kAlert | kCrit | kError | kWarn | kNotice | kInfo | kDebug

fun level_number :: "LogLevel \<Rightarrow> nat" where
  "level_number kEmerg = 0"
| "level_number kAlert = 1"
| "level_number kCrit = 2"
| "level_number kError = 3"
| "level_number kWarn = 4"
| "level_number kNotice = 5"
| "level_number kInfo = 6"
| "level_number kDebug = 7"

instantiation LogLevel :: linorder
begin

definition less_eq_LogLevel :: "LogLevel \<Rightarrow> LogLevel \<Rightarrow> bool" where
  "less_eq_LogLevel a b \<longleftrightarrow> level_number a \<le> level_number b"

definition less_LogLevel :: "LogLevel \<Rightarrow> LogLevel \<Rightarrow> bool" where
  "less_LogLevel a b \<longleftrightarrow> level_number a < level_number b"

instance
proof
  fix a b :: LogLevel
  show "a \<le> b \<Longrightarrow> b \<le> a \<Longrightarrow> a = b"
    by (cases a; cases b) (simp_all add: less_eq_LogLevel_def)
qed (auto simp: less_eq_LogLevel_def less_LogLevel_def)

end

definition Log_level_info_prefix :: "LogLevel \<Rightarrow> string" where
  "Log_level_info_prefix l =
     [''Log(Emergency): '', ''Log(Alert): '', ''Log(Critical): '', ''Log(Error): '', ''Log(Warn): '',
      ''Log(Notice): '', ''Log(Info): '', ''Log(Debug): ''] ! level_number l"

text \<open>The text with its level, and the record: the time, a blank, the text and a newline.\<close>

definition leveled :: "LogLevel \<Rightarrow> string \<Rightarrow> string" where
  "leveled log_type log_info = Log_level_info_prefix log_type @ log_info"

definition RecordLogs :: "string \<Rightarrow> string \<Rightarrow> string" where
  "RecordLogs time_now_str log_info = time_now_str @ '' '' @ log_info @ [CHR 0x0A]"

text \<open>The cached time: it is formatted anew (\<open>asctime\<close> without its newline) when a second has passed.\<close>

definition UpdateLoggerTime :: "int \<Rightarrow> (int \<Rightarrow> string) \<Rightarrow> int \<times> string \<Rightarrow> int \<times> string" where
  "UpdateLoggerTime tmp_time asctime now =
     (if fst now < tmp_time then (tmp_time, ''[ '' @ butlast (asctime tmp_time) @ '' ]'') else now)"


section \<open>Files\<close>

definition kLogFileMaxByte :: nat where
  "kLogFileMaxByte = 1024 * 1024 * 1024"

definition kStandardLogFileByte :: nat where
  "kStandardLogFileByte = kLogFileMaxByte div 2"

text \<open>The files by name; \<open>log_file\<close> is the open one. \<open>fopen\<close> with \<open>wb\<close> truncates.\<close>

record log_files =
  contents_of :: "string \<Rightarrow> string"
  log_file :: string
  log_file_name :: string
  cur_log_file_byte :: nat
  cur_log_file_seq :: nat

definition rotated_name :: "nat \<Rightarrow> string \<Rightarrow> string" where
  "rotated_name s name = ''n'' @ show_nat (s mod 2) @ ''_'' @ name"

definition file_header :: "nat \<Rightarrow> string" where
  "file_header s = ''Current file sequence: '' @ show_nat s @ [CHR 0x0A]"

definition fwrite :: "string \<Rightarrow> log_files \<Rightarrow> log_files" where
  "fwrite text fs = fs\<lparr>contents_of := (contents_of fs)(log_file fs := contents_of fs (log_file fs) @ text)\<rparr>"

definition fopen_wb :: "string \<Rightarrow> log_files \<Rightarrow> log_files" where
  "fopen_wb name fs = fs\<lparr>log_file := name, contents_of := (contents_of fs)(name := [])\<rparr>"

text \<open>Opening the first file: the default name, as for a new round, when the given one cannot be used.\<close>

definition kLogName :: string where
  "kLogName = ''log.txt''"

definition open_first :: "string \<Rightarrow> bool \<Rightarrow> log_files \<Rightarrow> log_files" where
  "open_first name usable fs =
     fwrite (file_header 0)
       (if name = '''' \<or> \<not> usable
        then fopen_wb (rotated_name (cur_log_file_seq fs) kLogName) (fs\<lparr>log_file_name := kLogName\<rparr>)
        else fopen_wb name (fs\<lparr>log_file_name := name\<rparr>))"

definition rotate :: "log_files \<Rightarrow> log_files" where
  "rotate fs =
     (let s = cur_log_file_seq fs + 1
      in fwrite (file_header s)
           ((fopen_wb (rotated_name s (log_file_name fs)) (fs\<lparr>cur_log_file_seq := s\<rparr>))\<lparr>cur_log_file_byte := 0\<rparr>))"

definition write_record :: "string \<Rightarrow> log_files \<Rightarrow> log_files" where
  "write_record buf fs =
     (let fs1 = (if kStandardLogFileByte \<le> cur_log_file_byte fs then rotate fs else fs)
      in (fwrite buf fs1)\<lparr>cur_log_file_byte := cur_log_file_byte fs1 + length buf\<rparr>)"


section \<open>The ring and its threads\<close>

definition kLogBufferSize :: nat where
  "kLogBufferSize = 1024 * 1024 * 16"

text \<open>Where a thread is in \<open>Enqueue\<close>, with the record and the position it works on.\<close>

datatype enq_pc =
    EIdle
  | ELoad string
  | ECheck string nat
  | ECas string nat
  | EStore string nat
  | EPublish string nat
  | ECount
  | ENotify

text \<open>Where the writing thread is: in its loop, in \<open>Dequeue\<close>, or at the condition variable.\<close>

datatype writer_pc =
    WTest
  | DLoad
  | DCheck nat
  | DCas nat
  | DSwap nat
  | DRelease nat string
  | DCount string
  | WWrite string
  | WFlush
  | WLock
  | WCheck
  | WBlock
  | WWaiting
  | WRelock
  | WDone

datatype stop_pc = SRun | SNotify | SJoin | SClosed

record log_system =
  is_initialized :: bool
  write_index :: nat
  read_index :: nat
  slot_seq :: "nat \<Rightarrow> nat"
  slot_data :: "nat \<Rightarrow> string"
  log_pending :: "64 word"
  is_stopping :: bool
  log_mutex :: bool
  producers :: "nat \<Rightarrow> enq_pc"
  writer :: writer_pc
  stopper :: stop_pc
  files :: log_files
  claimed :: "string list"
  written :: "string list"
  dropped :: "string list"

abbreviation slot :: "nat \<Rightarrow> nat" where
  "slot pos \<equiv> pos mod kLogBufferSize"

definition goto :: "nat \<Rightarrow> enq_pc \<Rightarrow> log_system \<Rightarrow> log_system" where
  "goto t pc s = s\<lparr>producers := (producers s)(t := pc)\<rparr>"

text \<open>\<open>notify_one\<close>: the writing thread is the only one that waits.\<close>

definition notify_one :: "log_system \<Rightarrow> log_system" where
  "notify_one s = (if writer s = WWaiting then s\<lparr>writer := WRelock\<rparr> else s)"

text \<open>One step of thread \<open>t\<close>; the exchange may fail spuriously.\<close>

definition enq_step :: "bool \<Rightarrow> nat \<Rightarrow> log_system \<Rightarrow> log_system option" where
  "enq_step spurious t s =
     (case producers s t of
        EIdle \<Rightarrow> None
      | ELoad m \<Rightarrow> Some (goto t (ECheck m (write_index s)) s)
      | ECheck m pos \<Rightarrow>
          (let diff = int (slot_seq s (slot pos)) - int pos
           in Some (if diff = 0 then goto t (ECas m pos) s
                    else if diff < 0 then goto t EIdle (s\<lparr>dropped := dropped s @ [m]\<rparr>)
                    else goto t (ELoad m) s))
      | ECas m pos \<Rightarrow>
          Some (if write_index s = pos \<and> \<not> spurious
                then goto t (EStore m pos) (s\<lparr>write_index := pos + 1, claimed := claimed s @ [m]\<rparr>)
                else goto t (ECheck m (write_index s)) s)
      | EStore m pos \<Rightarrow> Some (goto t (EPublish m pos) (s\<lparr>slot_data := (slot_data s)(slot pos := m)\<rparr>))
      | EPublish m pos \<Rightarrow> Some (goto t ECount (s\<lparr>slot_seq := (slot_seq s)(slot pos := pos + 1)\<rparr>))
      | ECount \<Rightarrow>
          Some (goto t (if log_pending s = 0 then ENotify else EIdle) (s\<lparr>log_pending := log_pending s + 1\<rparr>))
      | ENotify \<Rightarrow> if log_mutex s then None else Some (goto t EIdle (notify_one s)))"

text \<open>One step of \<open>Dequeue\<close>.\<close>

definition Dequeue_step :: "bool \<Rightarrow> log_system \<Rightarrow> log_system option" where
  "Dequeue_step spurious s =
     (case writer s of
        DLoad \<Rightarrow> Some (s\<lparr>writer := DCheck (read_index s)\<rparr>)
      | DCheck pos \<Rightarrow>
          (let diff = int (slot_seq s (slot pos)) - int (pos + 1)
           in Some (s\<lparr>writer := if diff = 0 then DCas pos else if diff < 0 then WFlush else DLoad\<rparr>))
      | DCas pos \<Rightarrow>
          Some (if read_index s = pos \<and> \<not> spurious then s\<lparr>read_index := pos + 1, writer := DSwap pos\<rparr>
                else s\<lparr>writer := DCheck (read_index s)\<rparr>)
      | DSwap pos \<Rightarrow>
          (let out = slot_data s (slot pos)
           in Some (s\<lparr>slot_data := (slot_data s)(slot pos := ''''), written := written s @ [out], writer := DRelease pos out\<rparr>))
      | DRelease pos out \<Rightarrow>
          Some (s\<lparr>slot_seq := (slot_seq s)(slot pos := pos + kLogBufferSize), writer := DCount out\<rparr>)
      | DCount out \<Rightarrow> Some (s\<lparr>log_pending := log_pending s - 1, writer := WWrite out\<rparr>)
      | _ \<Rightarrow> None)"

text \<open>One step of \<open>WriteDownLogs\<close>.\<close>

definition writer_step :: "bool \<Rightarrow> log_system \<Rightarrow> log_system option" where
  "writer_step spurious s =
     (case writer s of
        WTest \<Rightarrow> Some (s\<lparr>writer := if \<not> is_stopping s \<or> log_pending s \<noteq> 0 then DLoad else WDone\<rparr>)
      | DLoad \<Rightarrow> Dequeue_step spurious s
      | DCheck pos \<Rightarrow> Dequeue_step spurious s
      | DCas pos \<Rightarrow> Dequeue_step spurious s
      | DSwap pos \<Rightarrow> Dequeue_step spurious s
      | DRelease pos out \<Rightarrow> Dequeue_step spurious s
      | DCount out \<Rightarrow> Dequeue_step spurious s
      | WWrite out \<Rightarrow> Some (s\<lparr>files := write_record out (files s), writer := DLoad\<rparr>)
      | WFlush \<Rightarrow> Some (s\<lparr>writer := if log_pending s = 0 then WLock else WTest\<rparr>)
      | WLock \<Rightarrow> if log_mutex s then None else Some (s\<lparr>log_mutex := True, writer := WCheck\<rparr>)
      | WCheck \<Rightarrow>
          Some (if \<not> is_stopping s \<and> log_pending s = 0 then s\<lparr>writer := WBlock\<rparr>
                else s\<lparr>log_mutex := False, writer := WTest\<rparr>)
      | WBlock \<Rightarrow> Some (s\<lparr>log_mutex := False, writer := WWaiting\<rparr>)
      | WWaiting \<Rightarrow> None
      | WRelock \<Rightarrow> if log_mutex s then None else Some (s\<lparr>writer := WTest\<rparr>)
      | WDone \<Rightarrow> None)"

definition stop_step :: "log_system \<Rightarrow> log_system option" where
  "stop_step s =
     (case stopper s of
        SRun \<Rightarrow> Some (s\<lparr>is_stopping := True, stopper := SNotify\<rparr>)
      | SNotify \<Rightarrow> Some ((notify_one s)\<lparr>stopper := SJoin\<rparr>)
      | SJoin \<Rightarrow> if writer s = WDone then Some (s\<lparr>is_initialized := False, stopper := SClosed\<rparr>) else None
      | SClosed \<Rightarrow> None)"

text \<open>The constructor (no thread is running yet), and \<open>StartLogger\<close>, which starts the writing thread.\<close>

definition Logger :: log_system where
  "Logger =
     \<lparr>is_initialized = False, write_index = 0, read_index = 0, slot_seq = (\<lambda>i. i), slot_data = (\<lambda>i. ''''),
      log_pending = 0, is_stopping = False, log_mutex = False, producers = (\<lambda>t. EIdle), writer = WDone,
      stopper = SClosed,
      files = \<lparr>contents_of = (\<lambda>name. ''''), log_file = '''', log_file_name = '''', cur_log_file_byte = 0,
               cur_log_file_seq = 0\<rparr>,
      claimed = [], written = [], dropped = []\<rparr>"

definition StartLogger :: "string \<Rightarrow> bool \<Rightarrow> log_system \<Rightarrow> log_system" where
  "StartLogger name usable s =
     (if is_initialized s then s
      else s\<lparr>is_initialized := True, is_stopping := False, write_index := 0, read_index := 0, log_pending := 0,
             slot_seq := (\<lambda>i. i), slot_data := (\<lambda>i. ''''), files := open_first name usable (files s),
             writer := WTest, stopper := SRun, claimed := [], written := [], dropped := []\<rparr>)"

text \<open>Any interleaving. A thread may start to record, and a wait may end without a notification.\<close>

inductive log_step :: "log_system \<Rightarrow> log_system \<Rightarrow> bool" where
  start: "producers s t = EIdle \<Longrightarrow> log_step s (goto t (ELoad m) s)"
| enqueue: "enq_step b t s = Some s' \<Longrightarrow> log_step s s'"
| write_down: "writer_step b s = Some s' \<Longrightarrow> log_step s s'"
| stop: "stop_step s = Some s' \<Longrightarrow> log_step s s'"
| spurious: "writer s = WWaiting \<Longrightarrow> log_step s (s\<lparr>writer := WRelock\<rparr>)"

inductive log_reach :: "log_system \<Rightarrow> log_system \<Rightarrow> bool" for s0 where
  init: "log_reach s0 s0"
| step: "log_reach s0 s \<Longrightarrow> log_step s s' \<Longrightarrow> log_reach s0 s'"

end
