(* ===== verification/Log_Safety.thy ===== *)
theory Log_Safety
  imports Log_Ring
begin

text \<open>
  What the logger's ring guarantees in every interleaving: the records come out in the order in which
  their positions were claimed, none twice and none lost, and a record is dropped only when the ring is
  full (\<open>ring_inv\<close>); the writing thread does not sleep on a record (\<open>wake_inv\<close>); how the
  files grow.
\<close>

section \<open>The invariant of the ring\<close>

text \<open>\<open>freed\<close> is the first position whose slot has not been handed back, \<open>busy\<close> a claimed position
  whose record has not been published.\<close>

definition freed_at :: "writer_pc \<Rightarrow> nat \<Rightarrow> nat" where
  "freed_at pc r = (case pc of DSwap p \<Rightarrow> p | DRelease p out \<Rightarrow> p | _ \<Rightarrow> r)"

abbreviation freed :: "log_system \<Rightarrow> nat" where
  "freed s \<equiv> freed_at (writer s) (read_index s)"

definition owner :: "(nat \<Rightarrow> enq_pc) \<Rightarrow> nat \<Rightarrow> nat \<Rightarrow> string \<Rightarrow> bool" where
  "owner ps p t m \<longleftrightarrow> ps t = EStore m p \<or> ps t = EPublish m p"

definition busy :: "(nat \<Rightarrow> enq_pc) \<Rightarrow> nat \<Rightarrow> bool" where
  "busy ps p \<longleftrightarrow> (\<exists>t m. owner ps p t m)"

definition slots_ok :: "(nat \<Rightarrow> enq_pc) \<Rightarrow> nat \<Rightarrow> nat \<Rightarrow> (nat \<Rightarrow> nat) \<Rightarrow> bool" where
  "slots_ok ps f w sq \<longleftrightarrow>
     (\<forall>p. f \<le> p \<longrightarrow> p < f + kLogBufferSize \<longrightarrow>
        sq (slot p) = (if p < w \<and> \<not> busy ps p then p + 1 else p))"

lemma slots_okD:
  "slots_ok ps f w sq \<Longrightarrow> f \<le> p \<Longrightarrow> p < f + kLogBufferSize \<Longrightarrow>
   sq (slot p) = (if p < w \<and> \<not> busy ps p then p + 1 else p)"
  unfolding slots_ok_def by blast

lemma slots_okI:
  "(\<And>p. f \<le> p \<Longrightarrow> p < f + kLogBufferSize \<Longrightarrow> sq (slot p) = (if p < w \<and> \<not> busy ps p then p + 1 else p)) \<Longrightarrow>
   slots_ok ps f w sq"
  unfolding slots_ok_def by blast

definition owners_ok :: "(nat \<Rightarrow> enq_pc) \<Rightarrow> nat \<Rightarrow> nat \<Rightarrow> string list \<Rightarrow> bool" where
  "owners_ok ps r w c \<longleftrightarrow>
     (\<forall>t m p. owner ps p t m \<longrightarrow>
        r \<le> p \<and> p < w \<and> c ! p = m \<and> (\<forall>t' m'. owner ps p t' m' \<longrightarrow> t' = t))"

lemma owners_okD:
  assumes "owners_ok ps r w c" "owner ps p t m"
  shows "r \<le> p" "p < w" "c ! p = m" "owner ps p t' m' \<Longrightarrow> t' = t"
  using assms unfolding owners_ok_def by blast+

lemma owners_okI:
  assumes "\<And>t m p. owner ps p t m \<Longrightarrow> r \<le> p \<and> p < w \<and> c ! p = m"
    and "\<And>t m t' m' p. owner ps p t m \<Longrightarrow> owner ps p t' m' \<Longrightarrow> t' = t"
  shows "owners_ok ps r w c"
  using assms unfolding owners_ok_def by blast

definition pc_ok :: "(nat \<Rightarrow> string) \<Rightarrow> nat \<Rightarrow> nat \<Rightarrow> enq_pc \<Rightarrow> bool" where
  "pc_ok d f w pc \<longleftrightarrow>
     (case pc of
        EPublish m p \<Rightarrow> d (slot p) = m
      | ECheck m p \<Rightarrow> p \<le> w
      | ECas m p \<Rightarrow> p \<le> w \<and> (p = w \<longrightarrow> p < f + kLogBufferSize)
      | _ \<Rightarrow> True)"

lemma pc_ok_simps [simp]:
  "pc_ok d f w EIdle" "pc_ok d f w (ELoad m)" "pc_ok d f w (EStore m p)" "pc_ok d f w ECount" "pc_ok d f w ENotify"
  "pc_ok d f w (ECheck m p) \<longleftrightarrow> p \<le> w"
  "pc_ok d f w (ECas m p) \<longleftrightarrow> p \<le> w \<and> (p = w \<longrightarrow> p < f + kLogBufferSize)"
  "pc_ok d f w (EPublish m p) \<longleftrightarrow> d (slot p) = m"
  by (simp_all add: pc_ok_def)

definition data_ok :: "(nat \<Rightarrow> enq_pc) \<Rightarrow> nat \<Rightarrow> nat \<Rightarrow> (nat \<Rightarrow> string) \<Rightarrow> string list \<Rightarrow> bool" where
  "data_ok ps r w d c \<longleftrightarrow>
     (\<forall>p. r \<le> p \<longrightarrow> p < w \<longrightarrow> \<not> busy ps p \<longrightarrow> d (slot p) = c ! p)"

definition writer_ok ::
  "(nat \<Rightarrow> enq_pc) \<Rightarrow> nat \<Rightarrow> nat \<Rightarrow> (nat \<Rightarrow> string) \<Rightarrow> string list \<Rightarrow> writer_pc \<Rightarrow> bool" where
  "writer_ok ps r w d c pc \<longleftrightarrow>
     (case pc of
        DCheck p \<Rightarrow> p = r
      | DCas p \<Rightarrow> p = r \<and> p < w \<and> \<not> busy ps p
      | DSwap p \<Rightarrow> r = p + 1 \<and> d (slot p) = c ! p
      | DRelease p out \<Rightarrow> r = p + 1
      | _ \<Rightarrow> True)"

text \<open>What has been taken out of the ring is an initial part of what was put into it.\<close>

definition taken_at :: "writer_pc \<Rightarrow> nat \<Rightarrow> nat" where
  "taken_at pc r = (case pc of DSwap p \<Rightarrow> p | _ \<Rightarrow> r)"

definition ring_inv :: "log_system \<Rightarrow> bool" where
  "ring_inv s \<longleftrightarrow>
     read_index s \<le> write_index s \<and> write_index s \<le> freed s + kLogBufferSize \<and>
     slots_ok (producers s) (freed s) (write_index s) (slot_seq s) \<and>
     owners_ok (producers s) (read_index s) (write_index s) (claimed s) \<and>
     (\<forall>t. pc_ok (slot_data s) (freed s) (write_index s) (producers s t)) \<and>
     data_ok (producers s) (read_index s) (write_index s) (slot_data s) (claimed s) \<and>
     writer_ok (producers s) (read_index s) (write_index s) (slot_data s) (claimed s) (writer s) \<and>
     length (claimed s) = write_index s \<and>
     written s = take (taken_at (writer s) (read_index s)) (claimed s)"

lemma kLogBufferSize_ge: "2 \<le> kLogBufferSize"
  by (simp add: kLogBufferSize_def)

lemma slot_inject:
  assumes "f \<le> p" "p < f + kLogBufferSize" "f \<le> q" "q < f + kLogBufferSize" "slot p = slot q"
  shows "p = q"
proof -
  have "p = q" if "a \<le> b" "b < a + n" "a mod n = b mod n" "{a, b} = {p, q}" for a b n :: nat
  proof -
    have "(b - a) mod n = 0" using that by (metis mod_eq_dvd_iff_nat dvd_imp_mod_0)
    then have "b - a = 0" using that by (metis add.commute less_diff_conv2 mod_less)
    then show ?thesis using that by (auto simp: doubleton_eq_iff)
  qed
  from this [of p q kLogBufferSize] this [of q p kLogBufferSize] assms show ?thesis
    by (cases "p \<le> q") auto
qed

lemma freed_bounds: "writer_ok ps r w d c pc \<Longrightarrow> freed_at pc r \<le> r \<and> r \<le> freed_at pc r + 1"
  by (auto simp: freed_at_def writer_ok_def split: writer_pc.splits)

section \<open>Steps of a recording thread\<close>

lemma owner_update:
  "owner (ps(t := pc)) p t' m \<longleftrightarrow> (if t' = t then pc = EStore m p \<or> pc = EPublish m p else owner ps p t' m)"
  by (simp add: owner_def)

definition at_slot :: "enq_pc \<Rightarrow> bool" where
  "at_slot pc \<longleftrightarrow> (case pc of EStore m p \<Rightarrow> True | EPublish m p \<Rightarrow> True | _ \<Rightarrow> False)"

lemma at_slot_simps [simp]:
  "\<not> at_slot EIdle" "\<not> at_slot (ELoad m)" "\<not> at_slot (ECheck m p)" "\<not> at_slot (ECas m p)"
  "at_slot (EStore m p)" "at_slot (EPublish m p)" "\<not> at_slot ECount" "\<not> at_slot ENotify"
  by (simp_all add: at_slot_def)

lemma owner_at_slot: "owner ps p t m \<Longrightarrow> at_slot (ps t)"
  by (auto simp: owner_def)

lemma owner_quiet:
  assumes "\<not> at_slot (ps t)" "\<not> at_slot pc"
  shows "owner (ps(t := pc)) = owner ps"
proof (intro ext)
  fix p t' m
  show "owner (ps(t := pc)) p t' m = owner ps p t' m"
    using assms owner_at_slot [of ps p t m] by (auto simp: owner_update)
qed

lemma busy_quiet: "\<not> at_slot (ps t) \<Longrightarrow> \<not> at_slot pc \<Longrightarrow> busy (ps(t := pc)) = busy ps"
  by (simp add: busy_def fun_eq_iff owner_quiet)

text \<open>Most of the state does not matter to the ring.\<close>

lemma ring_inv_frame [simp]:
  "ring_inv (s\<lparr>dropped := d\<rparr>) = ring_inv s" "ring_inv (s\<lparr>log_pending := n\<rparr>) = ring_inv s"
  "ring_inv (s\<lparr>is_stopping := b\<rparr>) = ring_inv s" "ring_inv (s\<lparr>log_mutex := b\<rparr>) = ring_inv s"
  "ring_inv (s\<lparr>stopper := q\<rparr>) = ring_inv s" "ring_inv (s\<lparr>files := fs\<rparr>) = ring_inv s"
  "ring_inv (s\<lparr>is_initialized := b\<rparr>) = ring_inv s"
  by (simp_all add: ring_inv_def)

text \<open>The writing thread is between two calls of \<open>Dequeue\<close>.\<close>

definition outside :: "writer_pc \<Rightarrow> bool" where
  "outside pc \<longleftrightarrow>
     (case pc of DCheck p \<Rightarrow> False | DCas p \<Rightarrow> False | DSwap p \<Rightarrow> False | DRelease p out \<Rightarrow> False | _ \<Rightarrow> True)"

lemma outside_simps [simp]:
  "outside WTest" "outside DLoad" "outside (DCount out)" "outside (WWrite out)" "outside WFlush" "outside WLock"
  "outside WCheck" "outside WBlock" "outside WWaiting" "outside WRelock" "outside WDone"
  by (simp_all add: outside_def)

lemma outside_at [simp]: "outside pc \<Longrightarrow> freed_at pc r = r" "outside pc \<Longrightarrow> taken_at pc r = r"
  "outside pc \<Longrightarrow> writer_ok ps r w d c pc"
  by (auto simp: freed_at_def taken_at_def writer_ok_def outside_def split: writer_pc.splits)

lemma inside_at [simp]:
  "freed_at (DCheck p) r = r" "taken_at (DCheck p) r = r" "freed_at (DCas p) r = r" "taken_at (DCas p) r = r"
  "freed_at (DSwap p) r = p" "taken_at (DSwap p) r = p" "freed_at (DRelease p out) r = p" "taken_at (DRelease p out) r = r"
  by (simp_all add: freed_at_def taken_at_def)

lemma writer_ok_simps [simp]:
  "writer_ok ps r w d c (DCheck p) \<longleftrightarrow> p = r"
  "writer_ok ps r w d c (DCas p) \<longleftrightarrow> p = r \<and> p < w \<and> \<not> busy ps p"
  "writer_ok ps r w d c (DSwap p) \<longleftrightarrow> r = p + 1 \<and> d (slot p) = c ! p"
  "writer_ok ps r w d c (DRelease p out) \<longleftrightarrow> r = p + 1"
  by (simp_all add: writer_ok_def)

lemma ring_inv_outside:
  assumes "ring_inv s" "outside (writer s) \<or> writer s = DCheck p \<or> writer s = DCas p" "outside pc"
  shows "ring_inv (s\<lparr>writer := pc\<rparr>)"
  using assms by (auto simp: ring_inv_def)

lemma notify_one_ring [simp]: "ring_inv s \<Longrightarrow> ring_inv (notify_one s)"
  by (simp add: notify_one_def ring_inv_outside)

lemma writer_ok_busy: "busy ps' = busy ps \<Longrightarrow> writer_ok ps' r w d c pc = writer_ok ps r w d c pc"
  by (simp add: writer_ok_def cong: writer_pc.case_cong)

lemma goto_ring:
  assumes inv: "ring_inv s" and quiet: "\<not> at_slot (producers s t)" "\<not> at_slot pc"
    and ok: "pc_ok (slot_data s) (freed s) (write_index s) pc"
  shows "ring_inv (goto t pc s)"
proof -
  note eq = owner_quiet [of "producers s" t, OF quiet] busy_quiet [of "producers s" t, OF quiet]
  show ?thesis
    using inv ok
    by (simp add: ring_inv_def goto_def slots_ok_def owners_ok_def data_ok_def writer_ok_busy [OF eq(2)] eq)
qed

lemma pc_ok_claim: "pc_ok d f w pc \<Longrightarrow> pc_ok d f (Suc w) pc"
  by (cases pc) simp_all

lemma owner_enter:
  assumes "\<not> at_slot (ps t)"
  shows "owner (ps(t := EStore m w)) p t' n \<longleftrightarrow> (t' = t \<and> n = m \<and> p = w) \<or> owner ps p t' n"
  using assms owner_at_slot [of ps p t n] by (auto simp: owner_update)

lemma busy_enter:
  assumes "\<not> at_slot (ps t)"
  shows "busy (ps(t := EStore m w)) p \<longleftrightarrow> p = w \<or> busy ps p"
proof -
  have "busy (ps(t := EStore m w)) p \<longleftrightarrow> (\<exists>t' n. (t' = t \<and> n = m \<and> p = w) \<or> owner ps p t' n)"
    unfolding busy_def by (intro ex_cong1 owner_enter assms)
  then show ?thesis by (auto simp: busy_def)
qed

text \<open>A thread claims the position at \<open>write_index\<close>.\<close>

lemma claim_ring:
  assumes inv: "ring_inv s" and pc: "producers s t = ECas m w" and w: "write_index s = w"
  shows "ring_inv (goto t (EStore m w) (s\<lparr>write_index := w + 1, claimed := claimed s @ [m]\<rparr>))"
proof -
  let ?ps = "(producers s)(t := EStore m w)" and ?c = "claimed s @ [m]"
  have quiet: "\<not> at_slot (producers s t)" using pc by simp
  note enter = owner_enter [of "producers s" t, OF quiet, of m w]
  note busy = busy_enter [of "producers s" t, OF quiet, of m w]
  have "pc_ok (slot_data s) (freed s) (write_index s) (producers s t)" using inv by (simp add: ring_inv_def)
  then have room: "w < freed s + kLogBufferSize" using pc w by simp
  have len: "length (claimed s) = w" and le: "read_index s \<le> w" using inv w by (simp_all add: ring_inv_def)
  have own: "owners_ok (producers s) (read_index s) w (claimed s)" using inv w by (simp add: ring_inv_def)
  have wr: "writer_ok (producers s) (read_index s) w (slot_data s) (claimed s) (writer s)"
    and sl: "slots_ok (producers s) (freed s) w (slot_seq s)"
    and da: "data_ok (producers s) (read_index s) w (slot_data s) (claimed s)"
    using inv w by (simp_all add: ring_inv_def)
  have "slots_ok ?ps (freed s) (w + 1) (slot_seq s)"
  proof (rule slots_okI)
    fix p assume "freed s \<le> p" "p < freed s + kLogBufferSize"
    from slots_okD [OF sl this]
    show "slot_seq s (slot p) = (if p < w + 1 \<and> \<not> busy ?ps p then p + 1 else p)"
      by (auto simp: busy less_Suc_eq)
  qed
  moreover have "owners_ok ?ps (read_index s) (w + 1) ?c"
  proof (rule owners_okI)
    fix t1 n p assume "owner ?ps p t1 n"
    then consider "n = m" "p = w" | "owner (producers s) p t1 n" by (auto simp: enter)
    then show "read_index s \<le> p \<and> p < w + 1 \<and> ?c ! p = n"
    proof cases
      case 1 then show ?thesis using len le by (simp add: nth_append)
    next
      case 2 then show ?thesis using len owners_okD(1-3) [OF own 2] by (simp add: nth_append)
    qed
  next
    fix t1 n t2 n' p assume o: "owner ?ps p t1 n" "owner ?ps p t2 n'"
    show "t2 = t1"
    proof (cases "p = w")
      case True
      then have "\<not> owner (producers s) p t' k" for t' k using owners_okD(2) [OF own, of p t' k] by auto
      then show ?thesis using o by (simp add: enter)
    next
      case False
      then show ?thesis using o owners_okD(4) [OF own, of p t1 n t2 n'] by (simp add: enter)
    qed
  qed
  moreover have "pc_ok (slot_data s) (freed s) (w + 1) (?ps t')" for t'
    using inv w by (cases "t' = t") (simp_all add: ring_inv_def pc_ok_claim)
  moreover have "data_ok ?ps (read_index s) (w + 1) (slot_data s) ?c"
    using da len unfolding data_ok_def busy by (auto simp: nth_append less_Suc_eq)
  moreover have "writer_ok ?ps (read_index s) (w + 1) (slot_data s) ?c (writer s)"
    using wr len le by (auto simp: writer_ok_def busy nth_append split: writer_pc.splits)
  moreover have "taken_at (writer s) (read_index s) \<le> length (claimed s)"
    using wr len le by (auto simp: taken_at_def writer_ok_def split: writer_pc.splits)
  ultimately show ?thesis
    using inv w room by (simp add: ring_inv_def goto_def)
qed

text \<open>The positions of the ring between \<open>freed\<close> and \<open>write_index\<close> have slots of their own.\<close>

lemma slot_apart:
  assumes "ring_inv s" "freed s \<le> p" "p < write_index s" "freed s \<le> q" "q < write_index s" "p \<noteq> q"
  shows "slot p \<noteq> slot q"
  using assms slot_inject [of "freed s" p q] by (auto simp: ring_inv_def)

lemma owner_range:
  assumes "ring_inv s" "owner (producers s) p t m"
  shows "freed s \<le> p" "read_index s \<le> p" "p < write_index s" "claimed s ! p = m"
    "\<And>t' m'. owner (producers s) p t' m' \<Longrightarrow> t' = t"
proof -
  have own: "owners_ok (producers s) (read_index s) (write_index s) (claimed s)"
    and wr: "writer_ok (producers s) (read_index s) (write_index s) (slot_data s) (claimed s) (writer s)"
    using assms(1) by (simp_all add: ring_inv_def)
  note own = owners_okD [OF own assms(2)]
  show "read_index s \<le> p" "p < write_index s" "claimed s ! p = m" "\<And>t' m'. owner (producers s) p t' m' \<Longrightarrow> t' = t"
    using own by simp_all
  show "freed s \<le> p" using own(1) freed_bounds [OF wr] by simp
qed

lemma inv_fields:
  assumes "ring_inv s"
  shows "slots_ok (producers s) (freed s) (write_index s) (slot_seq s)"
    and "owners_ok (producers s) (read_index s) (write_index s) (claimed s)"
    and "data_ok (producers s) (read_index s) (write_index s) (slot_data s) (claimed s)"
    and "writer_ok (producers s) (read_index s) (write_index s) (slot_data s) (claimed s) (writer s)"
    and "pc_ok (slot_data s) (freed s) (write_index s) (producers s t)"
  using assms by (simp_all add: ring_inv_def)

lemma slots_ok_busy: "busy ps' = busy ps \<Longrightarrow> slots_ok ps' f w sq = slots_ok ps f w sq"
  by (simp add: slots_ok_def)

lemma owners_ok_owner: "owner ps' = owner ps \<Longrightarrow> owners_ok ps' r w c = owners_ok ps r w c"
  by (simp add: owners_ok_def)

lemma pc_ok_frame:
  assumes "pc_ok d f w pc" "f \<le> f'" "\<And>m q. pc = EPublish m q \<Longrightarrow> d' (slot q) = d (slot q)"
  shows "pc_ok d' f' w pc"
  using assms by (cases pc) auto

lemma writer_ok_frame:
  assumes "writer_ok ps r w d c pc" "\<And>q. pc = DSwap q \<Longrightarrow> d' (slot q) = d (slot q)"
    and "\<And>q. pc = DCas q \<Longrightarrow> busy ps' q \<Longrightarrow> busy ps q"
  shows "writer_ok ps' r w d' c pc"
  using assms by (cases pc) (auto simp: outside_def)

lemma data_okD: "data_ok ps r w d c \<Longrightarrow> r \<le> p \<Longrightarrow> p < w \<Longrightarrow> \<not> busy ps p \<Longrightarrow> d (slot p) = c ! p"
  unfolding data_ok_def by blast

lemma data_okI:
  "(\<And>p. r \<le> p \<Longrightarrow> p < w \<Longrightarrow> \<not> busy ps p \<Longrightarrow> d (slot p) = c ! p) \<Longrightarrow> data_ok ps r w d c"
  unfolding data_ok_def by blast

text \<open>A record is moved into its slot: nothing else reads the slot of a claimed position.\<close>

lemma owner_store:
  assumes "producers s t = EStore m p"
  shows "owner ((producers s)(t := EPublish m p)) = owner (producers s)"
  using assms by (intro ext) (auto simp: owner_def)

lemma store_ring:
  assumes inv: "ring_inv s" and pc: "producers s t = EStore m p"
  shows "ring_inv (goto t (EPublish m p) (s\<lparr>slot_data := (slot_data s)(slot p := m)\<rparr>))"
proof -
  let ?ps = "(producers s)(t := EPublish m p)" and ?d = "(slot_data s)(slot p := m)"
  have own: "owner (producers s) p t m" using pc by (simp add: owner_def)
  note range = owner_range [OF inv own]
  have busy: "busy ?ps = busy (producers s)" using owner_store [OF pc] by (simp add: busy_def fun_eq_iff)
  have apart: "?d (slot q) = slot_data s (slot q)" if "freed s \<le> q" "q < write_index s" "q \<noteq> p" for q
    using slot_apart [OF inv that(1,2) range(1,3) that(3)] by simp
  have rd: "freed s \<le> read_index s" "read_index s \<le> freed s + 1" "read_index s \<le> write_index s"
    using freed_bounds [OF inv_fields(4) [OF inv]] inv by (simp_all add: ring_inv_def)
  have "pc_ok ?d (freed s) (write_index s) (?ps t')" for t'
  proof (cases "t' = t")
    case False
    have "?d (slot q) = slot_data s (slot q)" if "producers s t' = EPublish m' q" for q m'
    proof -
      have o: "owner (producers s) q t' m'" using that by (simp add: owner_def)
      then have "q \<noteq> p" using range(5) False by blast
      with apart owner_range(1,3) [OF inv o] show ?thesis by blast
    qed
    then have "pc_ok ?d (freed s) (write_index s) (producers s t')"
      by (rule pc_ok_frame [OF inv_fields(5) [OF inv] order_refl])
    then show ?thesis using False by simp
  qed simp
  moreover have "data_ok ?ps (read_index s) (write_index s) ?d (claimed s)"
  proof (rule data_okI)
    fix q assume q: "read_index s \<le> q" "q < write_index s" "\<not> busy ?ps q"
    have "q \<noteq> p" using own q(3) unfolding busy busy_def by blast
    then have "?d (slot q) = slot_data s (slot q)" using apart [of q] q rd by simp
    then show "?d (slot q) = claimed s ! q" using data_okD [OF inv_fields(3) [OF inv] q(1,2)] q(3) busy by simp
  qed
  moreover have "writer_ok ?ps (read_index s) (write_index s) ?d (claimed s) (writer s)"
  proof (rule writer_ok_frame [OF inv_fields(4) [OF inv]])
    fix q assume "writer s = DSwap q"
    moreover from this have "read_index s = q + 1" using inv_fields(4) [OF inv] by simp
    ultimately show "?d (slot q) = slot_data s (slot q)" using apart [of q] rd range(2) by simp
  qed (simp add: busy)
  ultimately show ?thesis
    using inv by (simp add: ring_inv_def goto_def slots_ok_busy [OF busy] owners_ok_owner [OF owner_store [OF pc]])
qed

text \<open>A record is published.\<close>

lemma owner_leave: "\<not> at_slot pc \<Longrightarrow> owner (ps(t := pc)) q t' n \<longleftrightarrow> owner ps q t' n \<and> t' \<noteq> t"
  by (auto simp: owner_update)

lemma busy_leave:
  assumes inv: "ring_inv s" and pc: "producers s t = EPublish m p"
  shows "busy ((producers s)(t := ECount)) q \<longleftrightarrow> busy (producers s) q \<and> q \<noteq> p"
proof -
  have own: "owner (producers s) p t m" using pc by (simp add: owner_def)
  have "owner (producers s) q t' n \<and> t' \<noteq> t \<longleftrightarrow> owner (producers s) q t' n \<and> q \<noteq> p" for t' n
    using owner_range(5) [OF inv own, of t' n] pc by (auto simp: owner_def)
  then have "busy ((producers s)(t := ECount)) q \<longleftrightarrow> (\<exists>t' n. owner (producers s) q t' n \<and> q \<noteq> p)"
    unfolding busy_def by (intro ex_cong1) (simp add: owner_leave)
  then show ?thesis by (auto simp: busy_def)
qed

lemma publish_ring:
  assumes inv: "ring_inv s" and pc: "producers s t = EPublish m p"
  shows "ring_inv (goto t ECount (s\<lparr>slot_seq := (slot_seq s)(slot p := p + 1)\<rparr>))"
proof -
  let ?ps = "(producers s)(t := ECount)" and ?sq = "(slot_seq s)(slot p := p + 1)"
  have own: "owner (producers s) p t m" using pc by (simp add: owner_def)
  note range = owner_range [OF inv own] and busy = busy_leave [OF inv pc]
  have "p < freed s + kLogBufferSize" using range(3) inv by (simp add: ring_inv_def)
  have sl: "slots_ok ?ps (freed s) (write_index s) ?sq"
  proof (rule slots_okI)
    fix q assume q: "freed s \<le> q" "q < freed s + kLogBufferSize"
    show "?sq (slot q) = (if q < write_index s \<and> \<not> busy ?ps q then q + 1 else q)"
    proof (cases "q = p")
      case True then show ?thesis using range(3) by (simp add: busy)
    next
      case False
      then have "slot q \<noteq> slot p"
        using slot_inject [OF q range(1) \<open>p < freed s + kLogBufferSize\<close>] by blast
      then show ?thesis using slots_okD [OF inv_fields(1) [OF inv] q] False by (simp add: busy)
    qed
  qed
  have ow: "owners_ok ?ps (read_index s) (write_index s) (claimed s)"
    using owners_okD [OF inv_fields(2) [OF inv]] by (intro owners_okI) (auto simp: owner_leave)
  have "slot_data s (slot p) = claimed s ! p" using inv_fields(5) [OF inv, of t] pc range(4) by simp
  then have da: "data_ok ?ps (read_index s) (write_index s) (slot_data s) (claimed s)"
    using data_okD [OF inv_fields(3) [OF inv]] by (intro data_okI) (auto simp: busy)
  have wr: "writer_ok ?ps (read_index s) (write_index s) (slot_data s) (claimed s) (writer s)"
    by (rule writer_ok_frame [OF inv_fields(4) [OF inv]]) (simp_all add: busy)
  show ?thesis
    using inv sl ow da wr by (simp add: ring_inv_def goto_def)
qed

lemma slot_representative:
  assumes "p < f + kLogBufferSize"
  obtains q where "f \<le> q" "q < f + kLogBufferSize" "slot q = slot p" "p \<le> q"
proof (cases "f \<le> p")
  case True
  then show ?thesis using assms that by blast
next
  case False
  define n where "n = kLogBufferSize"
  define q where "q = f + (p + n * f - f) mod n"
  have n: "0 < n" using kLogBufferSize_ge by (simp add: n_def)
  then have "f \<le> n * f" by simp
  then have "f + (p + n * f - f) = p + n * f" by linarith
  then have "q mod n = (p + n * f) mod n" unfolding q_def by (simp only: mod_add_right_eq)
  then have "slot q = slot p" by (simp add: n_def)
  moreover have "q < f + n" using n by (simp add: q_def)
  ultimately show ?thesis using that [of q] False by (simp add: q_def n_def)
qed

text \<open>What a thread sees at the position it read: it may try to claim it, the ring is full, or the
  position is out of date.\<close>

lemma check_free:
  assumes inv: "ring_inv s" and p: "p \<le> write_index s" and seq: "slot_seq s (slot p) = p" and w: "p = write_index s"
  shows "p < freed s + kLogBufferSize"
proof (rule ccontr)
  assume "\<not> ?thesis"
  then have eq: "p = freed s + kLogBufferSize" using inv w by (simp add: ring_inv_def)
  have "slot_seq s (slot p) \<le> freed s + 1"
    using slots_okD [OF inv_fields(1) [OF inv], of "freed s"] kLogBufferSize_ge eq by simp
  then show False using seq eq kLogBufferSize_ge by simp
qed

lemma check_full:
  assumes inv: "ring_inv s" and p: "p \<le> write_index s" and seq: "slot_seq s (slot p) < p"
  shows "write_index s = freed s + kLogBufferSize"
proof (rule ccontr)
  assume ne: "write_index s \<noteq> freed s + kLogBufferSize"
  then have "p < freed s + kLogBufferSize" using inv p by (simp add: ring_inv_def)
  then obtain q where "freed s \<le> q" "q < freed s + kLogBufferSize" "slot q = slot p" "p \<le> q"
    by (rule slot_representative)
  then show False using slots_okD [OF inv_fields(1) [OF inv], of q] seq by (simp split: if_splits)
qed


lemma enqueue_ring:
  assumes inv: "ring_inv s" and step: "enq_step b t s = Some s'"
  shows "ring_inv s'"
proof (cases "producers s t")
  case (ECheck m p)
  have p: "p \<le> write_index s" using inv_fields(5) [OF inv, of t] ECheck by simp
  have cas: "pc_ok (slot_data s) (freed s) (write_index s) (ECas m p)" if "slot_seq s (slot p) = p"
    using p check_free [OF inv p that] by simp
  have "ring_inv (goto t pc s0)" if "pc = EIdle \<or> pc = ELoad m" "s0 = s \<or> s0 = s\<lparr>dropped := d\<rparr>" for pc s0 d
    using that inv ECheck by (auto intro!: goto_ring)
  then show ?thesis
    using step ECheck cas goto_ring [OF inv, of t "ECas m p"]
    by (auto simp: enq_step_def Let_def split: if_splits)
next
  case (ECas m p)
  then show ?thesis
    using step inv claim_ring [OF inv ECas] goto_ring [OF inv, of t "ECheck m (write_index s)"]
    by (auto simp: enq_step_def split: if_splits)
next
  case ECount
  then show ?thesis
    using step inv by (cases "log_pending s = 0") (auto simp: enq_step_def intro!: goto_ring)
next
  case ENotify
  have "producers (notify_one s) = producers s" by (simp add: notify_one_def)
  then show ?thesis
    using step inv ENotify by (auto simp: enq_step_def intro!: goto_ring split: if_splits)
next
  case (EStore m p)
  then show ?thesis using step store_ring [OF inv EStore] by (auto simp: enq_step_def)
next
  case (EPublish m p)
  then show ?thesis using step publish_ring [OF inv EPublish] by (auto simp: enq_step_def)
qed (use step inv in \<open>auto simp: enq_step_def intro!: goto_ring\<close>)


section \<open>Steps of the writing thread\<close>

lemma take_ring:
  assumes inv: "ring_inv s" and pc: "writer s = DCas p"
  shows "ring_inv (s\<lparr>read_index := p + 1, writer := DSwap p\<rparr>)"
proof -
  have p: "p = read_index s" "p < write_index s" "\<not> busy (producers s) p"
    using inv_fields(4) [OF inv] pc by auto
  have "owners_ok (producers s) (p + 1) (write_index s) (claimed s)"
  proof (rule owners_okI)
    fix t m q assume o: "owner (producers s) q t m"
    then have "q \<noteq> p" using p(3) unfolding busy_def by blast
    then show "p + 1 \<le> q \<and> q < write_index s \<and> claimed s ! q = m"
      using owner_range(2-4) [OF inv o] p(1) by simp
  qed (use owner_range(5) [OF inv] in blast)
  moreover have "data_ok (producers s) (p + 1) (write_index s) (slot_data s) (claimed s)"
    using data_okD [OF inv_fields(3) [OF inv]] p(1) by (intro data_okI) simp
  moreover have "slot_data s (slot p) = claimed s ! p"
    using data_okD [OF inv_fields(3) [OF inv], of p] p by simp
  ultimately show ?thesis using inv pc p by (simp add: ring_inv_def)
qed

lemma swap_ring:
  assumes inv: "ring_inv s" and pc: "writer s = DSwap p"
  shows "ring_inv (s\<lparr>slot_data := (slot_data s)(slot p := []), written := written s @ [slot_data s (slot p)],
                    writer := DRelease p out\<rparr>)"
proof -
  let ?d = "(slot_data s)(slot p := [])"
  have p: "read_index s = p + 1" "slot_data s (slot p) = claimed s ! p" "freed s = p"
    using inv_fields(4) [OF inv] pc by simp_all
  have len: "p < write_index s" "length (claimed s) = write_index s" using inv p(1) by (simp_all add: ring_inv_def)
  have apart: "?d (slot q) = slot_data s (slot q)" if "p + 1 \<le> q" "q < write_index s" for q
    using slot_apart [OF inv, of q p] that p(3) len(1) by simp
  have "pc_ok ?d p (write_index s) (producers s t)" for t
  proof (rule pc_ok_frame [OF inv_fields(5) [OF inv]])
    fix m q assume "producers s t = EPublish m q"
    then have o: "owner (producers s) q t m" by (simp add: owner_def)
    show "?d (slot q) = slot_data s (slot q)" using apart owner_range(2,3) [OF inv o] p(1) by simp
  qed (simp add: p(3))
  moreover have "data_ok (producers s) (p + 1) (write_index s) ?d (claimed s)"
    using data_okD [OF inv_fields(3) [OF inv]] p(1) apart by (intro data_okI) simp
  moreover have "written s @ [slot_data s (slot p)] = take (p + 1) (claimed s)"
    using inv pc p(2) len by (simp add: ring_inv_def take_Suc_conv_app_nth)
  ultimately show ?thesis using inv pc p by (simp add: ring_inv_def del: fun_upd_apply)
qed

lemma release_ring:
  assumes inv: "ring_inv s" and pc: "writer s = DRelease p out"
  shows "ring_inv (s\<lparr>slot_seq := (slot_seq s)(slot p := p + kLogBufferSize), writer := DCount out\<rparr>)"
proof -
  let ?n = kLogBufferSize and ?sq = "(slot_seq s)(slot p := p + kLogBufferSize)"
  have p: "read_index s = p + 1" "freed s = p" using inv_fields(4) [OF inv] pc by simp_all
  have w: "write_index s \<le> p + ?n" using inv p(2) by (simp add: ring_inv_def)
  have "slots_ok (producers s) (p + 1) (write_index s) ?sq"
  proof (rule slots_okI)
    fix q assume q: "p + 1 \<le> q" "q < p + 1 + ?n"
    show "?sq (slot q) = (if q < write_index s \<and> \<not> busy (producers s) q then q + 1 else q)"
    proof (cases "q = p + ?n")
      case True then show ?thesis using w by simp
    next
      case False
      then have "freed s \<le> q" "q < freed s + ?n" using q p(2) by simp_all
      moreover from this have "slot q \<noteq> slot p"
        using slot_inject [of "freed s" q p] q(1) p(2) kLogBufferSize_ge by auto
      ultimately show ?thesis using slots_okD [OF inv_fields(1) [OF inv], of q] by simp
    qed
  qed
  moreover have "pc_ok (slot_data s) (p + 1) (write_index s) (producers s t)" for t
    by (rule pc_ok_frame [OF inv_fields(5) [OF inv]]) (simp_all add: p(2))
  ultimately show ?thesis using inv pc p by (simp add: ring_inv_def del: fun_upd_apply)
qed

lemma check_ring:
  assumes "ring_inv s" "outside (writer s) \<or> writer s = DCas p"
  shows "ring_inv (s\<lparr>writer := DCheck (read_index s)\<rparr>)"
  using assms by (auto simp: ring_inv_def)

lemma see_ring:
  assumes inv: "ring_inv s" and pc: "writer s = DCheck p" and seq: "slot_seq s (slot p) = p + 1"
  shows "ring_inv (s\<lparr>writer := DCas p\<rparr>)"
proof -
  have p: "p = read_index s" "freed s = p" using inv_fields(4) [OF inv] pc by simp_all
  then have "p < write_index s \<and> \<not> busy (producers s) p"
    using slots_okD [OF inv_fields(1) [OF inv], of p] seq kLogBufferSize_ge by (simp split: if_splits)
  then show ?thesis using inv pc p by (simp add: ring_inv_def)
qed

lemma write_down_ring:
  assumes inv: "ring_inv s" and step: "writer_step b s = Some s'"
  shows "ring_inv s'"
proof (cases "writer s")
  case (DCheck p)
  then show ?thesis
    using step see_ring [OF inv DCheck] ring_inv_outside [OF inv, of p]
    by (auto simp: writer_step_def Dequeue_step_def Let_def split: if_splits)
next
  case (DCas p)
  then show ?thesis
    using step take_ring [OF inv DCas] check_ring [OF inv, of p] by (auto simp: writer_step_def Dequeue_step_def split: if_splits)
next
  case (DSwap p)
  then show ?thesis using step swap_ring [OF inv DSwap] by (auto simp: writer_step_def Dequeue_step_def Let_def)
next
  case (DRelease p out)
  then show ?thesis using step release_ring [OF inv DRelease] by (auto simp: writer_step_def Dequeue_step_def)
next
  case DLoad
  then show ?thesis using step check_ring [OF inv] by (auto simp: writer_step_def Dequeue_step_def)
qed (use step inv in \<open>auto simp: writer_step_def Dequeue_step_def intro!: ring_inv_outside split: if_splits\<close>)

lemma log_step_ring: "log_step s s' \<Longrightarrow> ring_inv s \<Longrightarrow> ring_inv s'"
proof (induction rule: log_step.induct)
  case (start s t m)
  then show ?case by (auto intro: goto_ring)
next
  case (stop s s')
  then show ?case by (auto simp: stop_step_def split: stop_pc.splits if_splits)
qed (auto intro: enqueue_ring write_down_ring ring_inv_outside)

lemma StartLogger_ring: "ring_inv (StartLogger name usable Logger)"
  using kLogBufferSize_ge
  by (simp add: ring_inv_def StartLogger_def Logger_def slots_ok_def owners_ok_def owner_def data_ok_def)

lemma log_reach_ring: "log_reach (StartLogger name usable Logger) s \<Longrightarrow> ring_inv s"
  by (induction rule: log_reach.induct) (auto intro: StartLogger_ring log_step_ring)


section \<open>The counter and the wake-ups\<close>

text \<open>The threads whose record is in the ring but not yet in \<open>pending_\<close>.\<close>

definition uncounted :: "enq_pc \<Rightarrow> bool" where
  "uncounted pc \<longleftrightarrow> at_slot pc \<or> pc = ECount"

definition counting :: "(nat \<Rightarrow> enq_pc) \<Rightarrow> nat set" where
  "counting ps = {t. uncounted (ps t)}"

definition settled_at :: "writer_pc \<Rightarrow> nat \<Rightarrow> nat" where
  "settled_at pc r = (case pc of DSwap p \<Rightarrow> p | DRelease p out \<Rightarrow> p | DCount out \<Rightarrow> r - 1 | _ \<Rightarrow> r)"

text \<open>\<open>pending_\<close> is, modulo \<open>2 ^ 64\<close>, what was put in less what is not yet counted and what was taken
  out. It drops below zero while a record is taken out before its thread has counted it.\<close>

definition pending_inv :: "log_system \<Rightarrow> bool" where
  "pending_inv s \<longleftrightarrow>
     finite (counting (producers s)) \<and>
     log_pending s + of_nat (card (counting (producers s))) + of_nat (settled_at (writer s) (read_index s)) =
       of_nat (write_index s) \<and>
     (\<forall>out. writer s = DCount out \<longrightarrow> 0 < read_index s)"

text \<open>The mutex is held by the writing thread alone, and a thread that takes the counter from zero will
  notify.\<close>

definition wake_inv :: "log_system \<Rightarrow> bool" where
  "wake_inv s \<longleftrightarrow>
     (log_mutex s \<longleftrightarrow> writer s = WCheck \<or> writer s = WBlock) \<and>
     (writer s = WBlock \<or> writer s = WWaiting \<longrightarrow> log_pending s = 0 \<or> (\<exists>t. producers s t = ENotify))"

lemma uncounted_simps [simp]:
  "\<not> uncounted EIdle" "\<not> uncounted (ELoad m)" "\<not> uncounted (ECheck m p)" "\<not> uncounted (ECas m p)"
  "uncounted (EStore m p)" "uncounted (EPublish m p)" "uncounted ECount" "\<not> uncounted ENotify"
  by (simp_all add: uncounted_def)

lemma counting_update:
  "counting (ps(t := pc)) = (if uncounted pc then insert t (counting ps) else counting ps - {t})"
  by (auto simp: counting_def)

lemma in_counting: "t \<in> counting ps \<longleftrightarrow> uncounted (ps t)"
  by (simp add: counting_def)

lemma settled_simps [simp]:
  "settled_at WTest r = r" "settled_at DLoad r = r" "settled_at (DCheck p) r = r" "settled_at (DCas p) r = r"
  "settled_at (DSwap p) r = p" "settled_at (DRelease p out) r = p" "settled_at (DCount out) r = r - 1"
  "settled_at (WWrite out) r = r" "settled_at WFlush r = r" "settled_at WLock r = r" "settled_at WCheck r = r"
  "settled_at WBlock r = r" "settled_at WWaiting r = r" "settled_at WRelock r = r" "settled_at WDone r = r"
  by (simp_all add: settled_at_def)

lemma notify_one_pending: "pending_inv s \<Longrightarrow> pending_inv (notify_one s)"
  by (cases "writer s = WWaiting") (simp_all add: pending_inv_def notify_one_def)

lemma goto_pending:
  assumes "pending_inv s" "uncounted pc \<longleftrightarrow> uncounted (producers s t)"
  shows "pending_inv (goto t pc s)"
proof -
  have "counting ((producers s)(t := pc)) = counting (producers s)"
    using assms(2) by (auto simp: counting_update in_counting)
  then show ?thesis using assms(1) by (simp add: pending_inv_def goto_def)
qed

lemma enqueue_pending:
  assumes inv: "pending_inv s" and step: "enq_step b t s = Some s'"
  shows "pending_inv s'"
proof (cases "producers s t")
  case (ECas m p)
  then have "t \<notin> counting (producers s)" by (simp add: in_counting)
  then show ?thesis
    using step ECas inv goto_pending [OF inv, of "ECheck m (write_index s)" t]
    by (auto simp: enq_step_def goto_def pending_inv_def counting_update algebra_simps split: if_splits)
next
  case ECount
  then have "t \<in> counting (producers s)" by (simp add: in_counting)
  moreover have "uncounted pc \<Longrightarrow> False" if "pc = (if log_pending s = 0 then ENotify else EIdle)" for pc
    using that by (simp split: if_splits)
  moreover have fin: "finite (counting (producers s))" using inv by (simp add: pending_inv_def)
  moreover have "of_nat (card (counting (producers s))) = (1 :: 64 word) + of_nat (card (counting (producers s) - {t}))"
    using card_Suc_Diff1 [OF fin \<open>t \<in> _\<close>] by (metis of_nat_Suc)
  ultimately show ?thesis
    using step ECount inv by (auto simp: enq_step_def goto_def pending_inv_def counting_update algebra_simps)
next
  case (ECheck m p)
  then show ?thesis
    using step inv by (auto simp: enq_step_def Let_def intro!: goto_pending split: if_splits)
       (simp_all add: pending_inv_def)
next
  case ENotify
  then show ?thesis
    using step inv notify_one_pending [OF inv] by (auto simp: enq_step_def notify_one_def intro!: goto_pending split: if_splits)
next
  case (EStore m p)
  then show ?thesis
    using step inv by (auto simp: enq_step_def intro!: goto_pending) (simp add: pending_inv_def)
next
  case (EPublish m p)
  then show ?thesis
    using step inv by (auto simp: enq_step_def intro!: goto_pending) (simp add: pending_inv_def)
qed (use step inv in \<open>auto simp: enq_step_def intro!: goto_pending\<close>)

lemma write_down_pending:
  assumes inv: "pending_inv s" and ring: "ring_inv s" and step: "writer_step b s = Some s'"
  shows "pending_inv s'"
proof (cases "writer s")
  case (DCount out)
  then obtain k where "read_index s = Suc k" using inv by (cases "read_index s") (auto simp: pending_inv_def)
  then show ?thesis
    using step inv DCount by (auto simp: writer_step_def Dequeue_step_def pending_inv_def algebra_simps)
next
  case (DRelease p out)
  then have "read_index s = p + 1" using inv_fields(4) [OF ring] by simp
  then show ?thesis using step inv DRelease by (auto simp: writer_step_def Dequeue_step_def pending_inv_def)
qed (use step inv in \<open>auto simp: writer_step_def Dequeue_step_def pending_inv_def Let_def split: if_splits\<close>)

lemma notifier_kept:
  assumes "\<exists>t'. ps t' = ENotify" "ps t \<noteq> ENotify"
  shows "\<exists>t'. (ps(t := pc)) t' = ENotify"
  using assms by (metis fun_upd_other)

lemma enqueue_wake:
  assumes inv: "wake_inv s" and step: "enq_step b t s = Some s'"
  shows "wake_inv s'"
proof (cases "producers s t = ENotify")
  case True
  then show ?thesis
    using step inv by (auto simp: enq_step_def wake_inv_def goto_def notify_one_def split: if_splits)
next
  case False
  show ?thesis
  proof (cases "producers s t = ECount \<and> log_pending s = 0")
    case True
    then show ?thesis
      using step inv by (auto simp: enq_step_def wake_inv_def goto_def)
  next
    case other: False
    then have "log_pending s' = log_pending s \<or> log_pending s \<noteq> 0" "log_mutex s' = log_mutex s" "writer s' = writer s"
      "\<exists>pc. producers s' = (producers s)(t := pc)"
      using step False by (auto simp: enq_step_def goto_def Let_def split: enq_pc.splits if_splits)
    then show ?thesis
      using inv notifier_kept [of "producers s" t, OF _ False] unfolding wake_inv_def by metis
  qed
qed

lemma write_down_wake:
  assumes inv: "wake_inv s" and step: "writer_step b s = Some s'"
  shows "wake_inv s'"
  using assms by (cases "writer s") (auto simp: writer_step_def Dequeue_step_def wake_inv_def Let_def split: if_splits)

lemma notify_one_wake: "wake_inv s \<Longrightarrow> wake_inv (notify_one s)"
  by (cases "writer s = WWaiting") (simp_all add: wake_inv_def notify_one_def)

lemma frame_pending [simp]:
  "pending_inv (s\<lparr>is_stopping := b\<rparr>) = pending_inv s" "pending_inv (s\<lparr>stopper := q\<rparr>) = pending_inv s"
  "pending_inv (s\<lparr>is_initialized := b\<rparr>) = pending_inv s"
  "wake_inv (s\<lparr>is_stopping := b\<rparr>) = wake_inv s" "wake_inv (s\<lparr>stopper := q\<rparr>) = wake_inv s"
  "wake_inv (s\<lparr>is_initialized := b\<rparr>) = wake_inv s"
  by (simp_all add: pending_inv_def wake_inv_def)

lemma goto_wake:
  assumes inv: "wake_inv s" and "producers s t \<noteq> ENotify"
  shows "wake_inv (goto t pc s)"
proof -
  have "\<exists>t'. producers s t' = ENotify \<Longrightarrow> \<exists>t'. producers (goto t pc s) t' = ENotify"
    using notifier_kept [of "producers s" t pc] assms(2) by (simp add: goto_def del: fun_upd_apply)
  moreover have "log_pending (goto t pc s) = log_pending s" "log_mutex (goto t pc s) = log_mutex s"
    "writer (goto t pc s) = writer s" by (simp_all add: goto_def)
  ultimately show ?thesis using inv unfolding wake_inv_def by metis
qed

definition log_inv :: "log_system \<Rightarrow> bool" where
  "log_inv s \<longleftrightarrow> ring_inv s \<and> pending_inv s \<and> wake_inv s"

lemma log_step_inv:
  assumes "log_step s s'" "log_inv s"
  shows "log_inv s'"
proof -
  have "pending_inv s' \<and> wake_inv s'"
    using assms
  proof (induction rule: log_step.induct)
    case (start s t m)
    then show ?case by (simp add: log_inv_def goto_pending goto_wake)
  next
    case (stop s s')
    then show ?case
      by (cases "stopper s") (auto simp: log_inv_def stop_step_def notify_one_pending notify_one_wake split: if_splits)
  next
    case (spurious s)
    then show ?case by (auto simp: log_inv_def wake_inv_def pending_inv_def)
  qed (auto simp: log_inv_def dest: enqueue_pending enqueue_wake write_down_pending write_down_wake)
  then show ?thesis using assms log_step_ring by (simp add: log_inv_def)
qed

lemma log_reach_inv: "log_reach (StartLogger name usable Logger) s \<Longrightarrow> log_inv s"
proof (induction rule: log_reach.induct)
  case init
  show ?case
    using StartLogger_ring [of name usable]
    by (simp add: log_inv_def pending_inv_def wake_inv_def StartLogger_def Logger_def counting_def)
qed (rule log_step_inv)


section \<open>What the logger guarantees\<close>

lemma taken_length:
  assumes "ring_inv s"
  shows "length (written s) = taken_at (writer s) (read_index s)"
    and "freed s \<le> length (written s)" "length (written s) \<le> freed s + 1"
proof -
  have "taken_at (writer s) (read_index s) \<le> read_index s \<and>
        freed s \<le> taken_at (writer s) (read_index s) \<and> taken_at (writer s) (read_index s) \<le> freed s + 1"
    using inv_fields(4) [OF assms] by (cases "writer s") (simp_all add: freed_at_def taken_at_def)
  then show "length (written s) = taken_at (writer s) (read_index s)"
    and "freed s \<le> length (written s)" "length (written s) \<le> freed s + 1"
    using assms by (simp_all add: ring_inv_def)
qed

lemma drop_full:
  assumes "ring_inv s" "enq_step b t s = Some s'" "dropped s' \<noteq> dropped s"
  shows "write_index s = freed s + kLogBufferSize"
proof (cases "producers s t")
  case (ECheck m p)
  have "p \<le> write_index s" using inv_fields(5) [OF assms(1), of t] ECheck by simp
  moreover have "slot_seq s (slot p) < p"
    using assms(2,3) ECheck by (auto simp: enq_step_def goto_def Let_def split: if_splits)
  ultimately show ?thesis by (rule check_full [OF assms(1)])
qed (use assms in \<open>auto simp: enq_step_def goto_def notify_one_def Let_def split: if_splits\<close>)

text \<open>A given interleaving, executed.\<close>

datatype log_action = Record nat string | Enq nat | Wr | Stp

fun act :: "log_action \<Rightarrow> log_system \<Rightarrow> log_system option" where
  "act (Record t m) s = (if producers s t = EIdle then Some (goto t (ELoad m) s) else None)"
| "act (Enq t) s = enq_step False t s"
| "act Wr s = writer_step False s"
| "act Stp s = stop_step s"

fun run_log :: "log_action list \<Rightarrow> log_system \<Rightarrow> log_system option" where
  "run_log [] s = Some s"
| "run_log (a # as) s = (case act a s of None \<Rightarrow> None | Some s' \<Rightarrow> run_log as s')"

lemma act_step: "act a s = Some s' \<Longrightarrow> log_step s s'"
  by (cases a) (auto intro: log_step.intros split: if_splits)

lemma run_log_reach: "run_log as s = Some s' \<Longrightarrow> log_reach s0 s \<Longrightarrow> log_reach s0 s'"
  by (induction as arbitrary: s) (auto split: option.splits dest!: act_step intro: log_reach.step)

text \<open>C16. In every interleaving of any number of recording threads and the writing thread, the records
  come out of the ring in the order in which their positions were claimed, none twice and none left out,
  at most \<open>kLogBufferSize\<close> records are in the ring, and a record is dropped only when it is full.\<close>

theorem log_ring_fifo:
  assumes "log_reach (StartLogger name usable Logger) s"
  shows "written s = take (length (written s)) (claimed s) \<and>
         length (claimed s) \<le> length (written s) + kLogBufferSize \<and>
         (enq_step b t s = Some s' \<and> dropped s' \<noteq> dropped s \<longrightarrow>
            length (written s) + kLogBufferSize \<le> length (claimed s) + 1)"
proof -
  have inv: "ring_inv s" using log_reach_inv [OF assms] by (simp add: log_inv_def)
  then have "written s = take (length (written s)) (claimed s)" "length (claimed s) = write_index s"
    "write_index s \<le> freed s + kLogBufferSize"
    using taken_length(1) [OF inv] by (simp_all add: ring_inv_def)
  then show ?thesis using taken_length(2,3) [OF inv] drop_full [OF inv] by auto
qed

text \<open>C18. The writing thread does not sleep on a record: when it waits and no thread is recording,
  everything that was put into the ring has been written down.\<close>

theorem writer_sleeps_when_empty:
  assumes "log_reach (StartLogger name usable Logger) s"
    and "writer s = WWaiting" and "\<forall>t. producers s t = EIdle"
  shows "written s = claimed s"
proof -
  have inv: "ring_inv s" "pending_inv s" "wake_inv s" using log_reach_inv [OF assms(1)] by (simp_all add: log_inv_def)
  have "log_pending s = 0" using inv(3) assms(2,3) by (simp add: wake_inv_def)
  moreover have "counting (producers s) = {}" using assms(3) by (simp add: counting_def)
  ultimately have "word_of_nat (read_index s) = (word_of_nat (write_index s) :: 64 word)"
    using inv(2) assms(2) by (simp add: pending_inv_def)
  moreover obtain k where k: "write_index s = read_index s + k" "k \<le> kLogBufferSize"
    using inv(1) assms(2) nat_le_iff_add [of "read_index s" "write_index s"] by (auto simp: ring_inv_def)
  ultimately have "(word_of_nat k :: 64 word) = 0" by simp
  then have "2 ^ 64 dvd k" by (simp add: word_of_nat_eq_0_iff)
  with k(2) have "k = 0" using dvd_imp_le [of "2 ^ 64" k] by (cases "k = 0") (simp_all add: kLogBufferSize_def)
  then show ?thesis using k(1) inv(1) assms(2) by (simp add: ring_inv_def)
qed


text \<open>The run that loses the notification of \<open>EndLogger\<close>: it comes after the writing thread has looked
  at \<open>is_stopping_\<close> and before it waits.\<close>

definition before_stop :: log_system where
  "before_stop = StartLogger ''log.txt'' True Logger"

definition after_stop :: log_system where
  "after_stop = before_stop\<lparr>is_stopping := True, writer := WWaiting, stopper := SJoin\<rparr>"

lemmas stop_run_defs = after_stop_def before_stop_def StartLogger_def Logger_def writer_step_def Dequeue_step_def stop_step_def
  enq_step_def notify_one_def goto_def

lemma after_stop_reachable: "log_reach before_stop after_stop"
proof (rule run_log_reach [OF _ log_reach.init])
  show "run_log ([Wr, Wr, Wr, Wr, Wr, Wr, Stp, Stp, Wr]) before_stop = Some after_stop"
    by (simp add: stop_run_defs)
qed

text \<open>C39. \<open>EndLogger\<close> can hang: a state is reachable in which it joins the writing thread, which waits
  for a notification that was already given. Nothing but a spurious wake-up or another record ends this.\<close>

theorem EndLogger_lost_wakeup:
  "\<exists>s. log_reach (StartLogger ''log.txt'' True Logger) s \<and>
       is_stopping s \<and> stopper s = SJoin \<and> writer s = WWaiting \<and> stop_step s = None \<and>
       (\<forall>b. writer_step b s = None \<and> (\<forall>t. enq_step b t s = None))"
proof (intro exI conjI)
  show "log_reach (StartLogger ''log.txt'' True Logger) after_stop"
    using after_stop_reachable by (simp add: before_stop_def)
qed (simp_all add: stop_run_defs)

text \<open>A run for the witnesses: one thread records, then the writing thread writes and waits.\<close>

definition record_run :: "log_action list" where
  "record_run =
     [Record 7 ''hi'', Enq 7, Enq 7, Enq 7, Enq 7, Enq 7, Enq 7, Enq 7,
      Wr, Wr, Wr, Wr, Wr, Wr, Wr, Wr, Wr, Wr, Wr, Wr, Wr, Wr]"

definition after_record :: log_system where
  "after_record = the (run_log record_run before_stop)"

lemma after_record:
  "log_reach (StartLogger ''log.txt'' True Logger) after_record" "written after_record = [''hi'']"
  "claimed after_record = [''hi'']" "writer after_record = WWaiting" "producers after_record t = EIdle"
proof -
  let ?as = record_run
  have run: "run_log ?as before_stop \<noteq> None \<and>
    (\<forall>s. run_log ?as before_stop = Some s \<longrightarrow>
       written s = [''hi''] \<and> claimed s = [''hi''] \<and> writer s = WWaiting \<and> producers s t = EIdle)"
    by (simp add: record_run_def stop_run_defs kLogBufferSize_def Let_def)
  then obtain s where s: "run_log ?as before_stop = Some s" by blast
  then have "after_record = s" by (simp add: after_record_def)
  then show "log_reach (StartLogger ''log.txt'' True Logger) after_record" "written after_record = [''hi'']"
    "claimed after_record = [''hi'']" "writer after_record = WWaiting" "producers after_record t = EIdle"
    using run s run_log_reach [OF s log_reach.init] by (simp_all add: before_stop_def)
qed

theorem log_ring_fifo_witness:
  "[''hi''] = take (length (written after_record)) (claimed after_record)"
  using log_ring_fifo [OF after_record(1)] unfolding after_record(2,3) by simp

theorem writer_sleeps_when_empty_witness: "written after_record = claimed after_record"
  using writer_sleeps_when_empty [OF after_record(1,4)] after_record(5) by simp


section \<open>The files\<close>

text \<open>A record is appended to the open file, or follows the header of a new one; the open file has less
  than \<open>kStandardLogFileByte\<close> bytes of records before its last record, and no other file changes.\<close>

lemma write_record_file:
  "contents_of (write_record buf fs) (log_file (write_record buf fs)) =
     (if kStandardLogFileByte \<le> cur_log_file_byte fs then file_header (cur_log_file_seq fs + 1)
      else contents_of fs (log_file fs)) @ buf"
  "cur_log_file_byte (write_record buf fs) < kStandardLogFileByte + length buf"
  "name \<noteq> log_file (write_record buf fs) \<Longrightarrow> contents_of (write_record buf fs) name = contents_of fs name"
  by (auto simp: write_record_def rotate_def fwrite_def fopen_wb_def kStandardLogFileByte_def kLogFileMaxByte_def Let_def)

text \<open>From the first rotation on two names alternate; the first file has a name of its own.\<close>

lemma rotate_names:
  "log_file (rotate fs) = rotated_name (cur_log_file_seq fs + 1) (log_file_name fs)"
  "rotated_name (n + 2) name = rotated_name n name"
  "log_file_name (rotate fs) = log_file_name fs" "cur_log_file_seq (rotate fs) = cur_log_file_seq fs + 1"
  "name \<noteq> [] \<Longrightarrow> log_file (open_first name True fs) = name"
  by (simp_all add: rotate_def fwrite_def fopen_wb_def rotated_name_def open_first_def Let_def)

end
