(* ===== verification/Memory_Pool.thy ===== *)
theory Memory_Pool
  imports Taotu_Prelude
begin

text \<open>
  The memory pool (\<^verbatim>\<open>src/src/memory_pool.h\<close>) and the object pool on top of it
  (\<^verbatim>\<open>src/src/object_pool.h\<close>).

  Memory is a function from the address of a node to its \<open>next_node_\<close>; an address is a number, 0 is the
  null pointer. The free blocks and the chunks that \<open>malloc\<close> returned are linked lists in that memory.
  What \<open>malloc\<close> returns is an argument of \<open>Allocate\<close>; \<open>malloc_ok\<close> states what is known of it. The
  fields \<open>chunks\<close>, \<open>live\<close> and \<open>released\<close> are history and are never read.
\<close>

section \<open>The memory pool\<close>

record memory_pool =
  next_node :: "nat \<Rightarrow> nat"
  free_list_head :: nat
  list_head :: nat
  malloc_time :: nat
  object_size :: nat
  chunks :: "(nat \<times> nat) list"
  live :: "nat list"
  released :: "nat list"

definition sizeof_node :: nat where
  "sizeof_node = 8"

definition kInitialMallocSize :: nat where
  "kInitialMallocSize = 40"

definition MemoryPool :: "nat \<Rightarrow> memory_pool" where
  "MemoryPool ObjectSize =
     \<lparr>next_node = (\<lambda>a. 0), free_list_head = 0, list_head = 0, malloc_time = 0,
      object_size = (if ObjectSize < sizeof_node then sizeof_node else ObjectSize),
      chunks = [], live = [], released = []\<rparr>"

text \<open>The loop of \<open>Allocate\<close> that cuts a chunk into blocks.\<close>

fun link_blocks :: "nat \<Rightarrow> nat \<Rightarrow> memory_pool \<Rightarrow> memory_pool" where
  "link_blocks 0 ptr p = p"
| "link_blocks (Suc n) ptr p =
     link_blocks n (ptr + object_size p)
       (p\<lparr>next_node := (next_node p)(ptr := free_list_head p), free_list_head := ptr\<rparr>)"

definition malloc_size :: "memory_pool \<Rightarrow> nat" where
  "malloc_size p = kInitialMallocSize + malloc_time p"

definition grow :: "nat \<Rightarrow> memory_pool \<Rightarrow> memory_pool res" where
  "grow base p =
     (if base = 0 then Inl NullPointer
      else
        let n = malloc_size p;
            p1 = p\<lparr>next_node := (next_node p)(base := list_head p), list_head := base, chunks := (base, n) # chunks p\<rparr>;
            p2 = link_blocks n (base + sizeof_node) p1
        in Inr (p2\<lparr>malloc_time := malloc_time p2 + 1\<rparr>))"

definition Allocate :: "nat \<Rightarrow> memory_pool \<Rightarrow> (nat \<times> memory_pool) res" where
  "Allocate base p =
     res_bind (if free_list_head p = 0 then grow base p else Inr p) (\<lambda>p1.
       let a = free_list_head p1
       in Inr (a, p1\<lparr>free_list_head := next_node p1 a, live := a # live p1\<rparr>))"

definition Deallocate :: "nat \<Rightarrow> memory_pool \<Rightarrow> memory_pool" where
  "Deallocate a p =
     (if a = 0 then p
      else p\<lparr>next_node := (next_node p)(a := free_list_head p), free_list_head := a, live := remove1 a (live p)\<rparr>)"

text \<open>The destructor; \<open>fuel\<close> bounds the walk over the chunks, and None says that it did not end.\<close>

fun destroy_pool :: "nat \<Rightarrow> memory_pool \<Rightarrow> memory_pool option" where
  "destroy_pool fuel p =
     (if list_head p = 0 then Some p
      else case fuel of
             0 \<Rightarrow> None
           | Suc k \<Rightarrow>
               destroy_pool k (p\<lparr>list_head := next_node p (list_head p), released := released p @ [list_head p]\<rparr>))"

declare destroy_pool.simps [simp del]

text \<open>The user of a block writes what it likes into it.\<close>

definition scribble :: "nat \<Rightarrow> nat \<Rightarrow> memory_pool \<Rightarrow> memory_pool" where
  "scribble a v p = p\<lparr>next_node := (next_node p)(a := v)\<rparr>"


section \<open>Geometry\<close>

fun blocks :: "nat \<Rightarrow> nat \<times> nat \<Rightarrow> nat list" where
  "blocks sz (base, n) = map (\<lambda>i. base + sizeof_node + i * sz) [0..<n]"

fun chunk_apart :: "nat \<Rightarrow> nat \<times> nat \<Rightarrow> nat \<times> nat \<Rightarrow> bool" where
  "chunk_apart sz (b, n) (b', n') \<longleftrightarrow>
     b + sizeof_node + n * sz \<le> b' \<or> b' + sizeof_node + n' * sz \<le> b"

fun chunks_ok :: "nat \<Rightarrow> (nat \<times> nat) list \<Rightarrow> bool" where
  "chunks_ok sz [] \<longleftrightarrow> True"
| "chunks_ok sz (c # cs) \<longleftrightarrow> 0 < fst c \<and> (\<forall>c' \<in> set cs. chunk_apart sz c c') \<and> chunks_ok sz cs"

definition blocks_apart :: "nat \<Rightarrow> nat \<Rightarrow> nat \<Rightarrow> bool" where
  "blocks_apart sz a a' \<longleftrightarrow> a + sz \<le> a' \<or> a' + sz \<le> a"

lemma block_range:
  assumes "a \<in> set (blocks sz (b, n))"
  shows "b + sizeof_node \<le> a \<and> a + sz \<le> b + sizeof_node + n * sz"
proof -
  from assms obtain i where i: "i < n" "a = b + sizeof_node + i * sz" by auto
  have "Suc i * sz \<le> n * sz" using i(1) by (intro mult_le_mono1) simp
  then show ?thesis using i(2) by simp
qed

lemma same_chunk_apart:
  assumes "a \<in> set (blocks sz (b, n))" "a' \<in> set (blocks sz (b, n))" "a \<noteq> a'"
  shows "blocks_apart sz a a'"
proof -
  from assms obtain i j where ij: "a = b + sizeof_node + i * sz" "a' = b + sizeof_node + j * sz" "i \<noteq> j"
    by auto
  then have "Suc i * sz \<le> j * sz \<or> Suc j * sz \<le> i * sz"
    by (metis mult_le_mono1 not_less_eq_eq le_antisym nat_le_linear)
  then show ?thesis using ij by (auto simp: blocks_apart_def)
qed

lemma distinct_blocks: "0 < sz \<Longrightarrow> distinct (blocks sz c)"
  by (cases c) (simp add: distinct_map inj_on_def)

lemma other_chunk_apart:
  assumes "a \<in> set (blocks sz c)" "a' \<in> set (blocks sz c')" "chunk_apart sz c c'"
  shows "blocks_apart sz a a'"
  using assms block_range [of a sz "fst c" "snd c"] block_range [of a' sz "fst c'" "snd c'"]
  by (cases c; cases c') (auto simp: blocks_apart_def)

definition all_blocks :: "memory_pool \<Rightarrow> nat set" where
  "all_blocks p = (\<Union>c \<in> set (chunks p). set (blocks (object_size p) c))"

lemma chunks_ok_pair:
  "chunks_ok sz cs \<Longrightarrow> c \<in> set cs \<Longrightarrow> c' \<in> set cs \<Longrightarrow> c \<noteq> c' \<Longrightarrow> chunk_apart sz c c' \<or> chunk_apart sz c' c"
  by (induction cs) auto

lemma blocks_apart_sym: "blocks_apart sz a b \<longleftrightarrow> blocks_apart sz b a"
  by (auto simp: blocks_apart_def)

text \<open>Two blocks of the pool never overlap.\<close>

lemma all_blocks_apart:
  assumes ok: "chunks_ok (object_size p) (chunks p)" and a: "a \<in> all_blocks p" "a' \<in> all_blocks p" "a \<noteq> a'"
  shows "blocks_apart (object_size p) a a'"
proof -
  obtain c c' where c: "c \<in> set (chunks p)" "a \<in> set (blocks (object_size p) c)"
    and c': "c' \<in> set (chunks p)" "a' \<in> set (blocks (object_size p) c')"
    using a unfolding all_blocks_def by blast
  show ?thesis
  proof (cases "c = c'")
    case True
    then show ?thesis using same_chunk_apart [of a _ "fst c" "snd c" a'] c(2) c'(2) a(3) by simp
  next
    case False
    then show ?thesis
      using chunks_ok_pair [OF ok c(1) c'(1)] other_chunk_apart [OF c(2) c'(2)]
        other_chunk_apart [OF c'(2) c(2)] blocks_apart_sym by blast
  qed
qed


declare blocks.simps [simp del]


section \<open>The lists in memory\<close>

fun is_list :: "(nat \<Rightarrow> nat) \<Rightarrow> nat \<Rightarrow> nat list \<Rightarrow> bool" where
  "is_list m a [] \<longleftrightarrow> a = 0"
| "is_list m a (x # xs) \<longleftrightarrow> a = x \<and> x \<noteq> 0 \<and> is_list m (m x) xs"

lemma is_list_update [simp]: "x \<notin> set xs \<Longrightarrow> is_list (m(x := v)) a xs = is_list m a xs"
  by (induction xs arbitrary: a) auto

lemma is_list_frame: "(\<And>x. x \<in> set xs \<Longrightarrow> m' x = m x) \<Longrightarrow> is_list m' a xs = is_list m a xs"
  by (induction xs arbitrary: a) auto

definition malloc_ok :: "nat \<Rightarrow> memory_pool \<Rightarrow> bool" where
  "malloc_ok base p \<longleftrightarrow>
     0 < base \<and> (\<forall>c \<in> set (chunks p). chunk_apart (object_size p) (base, malloc_size p) c)"

definition pool_inv :: "memory_pool \<Rightarrow> bool" where
  "pool_inv p \<longleftrightarrow>
     sizeof_node \<le> object_size p \<and> chunks_ok (object_size p) (chunks p) \<and>
     is_list (next_node p) (list_head p) (map fst (chunks p)) \<and>
     (\<exists>free. is_list (next_node p) (free_list_head p) free \<and> distinct (free @ live p) \<and>
             set free \<union> set (live p) = all_blocks p)"

lemma head_not_block:
  assumes "chunks_ok (object_size p) (chunks p)" "0 < object_size p" "c \<in> set (chunks p)"
  shows "fst c \<notin> all_blocks p"
proof
  assume "fst c \<in> all_blocks p"
  then obtain b n where c': "(b, n) \<in> set (chunks p)" "fst c \<in> set (blocks (object_size p) (b, n))"
    unfolding all_blocks_def by auto
  note range = block_range [OF c'(2)]
  have "c \<noteq> (b, n)" using range by (auto simp: sizeof_node_def)
  then show False
    using chunks_ok_pair [OF assms(1,3) c'(1)] range assms(2) by (cases c) (auto simp: sizeof_node_def)
qed

lemma block_positive: "chunks_ok sz cs \<Longrightarrow> c \<in> set cs \<Longrightarrow> a \<in> set (blocks sz c) \<Longrightarrow> 0 < a"
  by (cases c) (auto simp: sizeof_node_def blocks.simps)

lemma link_blocks_fields [simp]:
  "object_size (link_blocks n ptr p) = object_size p" "list_head (link_blocks n ptr p) = list_head p"
  "chunks (link_blocks n ptr p) = chunks p" "live (link_blocks n ptr p) = live p"
  "malloc_time (link_blocks n ptr p) = malloc_time p" "released (link_blocks n ptr p) = released p"
  by (induction n ptr p rule: link_blocks.induct) auto

definition run_of :: "nat \<Rightarrow> nat \<Rightarrow> nat \<Rightarrow> nat list" where
  "run_of sz ptr n = map (\<lambda>i. ptr + i * sz) [0..<n]"

lemma run_of_Suc: "run_of sz ptr (Suc n) = ptr # run_of sz (ptr + sz) n"
  by (simp add: run_of_def upt_conv_Cons map_Suc_upt [symmetric] del: upt_Suc)

lemma link_blocks_list:
  assumes "is_list (next_node p) (free_list_head p) free" "0 < ptr" "0 < object_size p"
    and "set (run_of (object_size p) ptr n) \<inter> set free = {}"
  shows "is_list (next_node (link_blocks n ptr p)) (free_list_head (link_blocks n ptr p))
           (rev (run_of (object_size p) ptr n) @ free)"
    and "x \<notin> set (run_of (object_size p) ptr n) \<Longrightarrow> next_node (link_blocks n ptr p) x = next_node p x"
  using assms
proof (induction n ptr p arbitrary: free rule: link_blocks.induct)
  case (1 ptr p)
  { case 1 then show ?case by (simp add: run_of_def) }
  { case 2 then show ?case by simp }
next
  case (2 n ptr p)
  let ?p = "p\<lparr>next_node := (next_node p)(ptr := free_list_head p), free_list_head := ptr\<rparr>"
  have ptr: "ptr \<notin> set (run_of (object_size p) (ptr + object_size p) n)" if "0 < object_size p"
    using that by (auto simp: run_of_def)
  have step: "is_list (next_node ?p) (free_list_head ?p) (ptr # free)"
    "set (run_of (object_size ?p) (ptr + object_size p) n) \<inter> set (ptr # free) = {}" "0 < object_size ?p"
    if "is_list (next_node p) (free_list_head p) free" "0 < ptr" "0 < object_size p"
      "set (run_of (object_size p) ptr (Suc n)) \<inter> set free = {}" for free
    using that ptr by (auto simp: run_of_Suc)
  { case 1
    then show ?case using 2(1) [OF step(1) _ step(3) step(2)] by (simp add: run_of_Suc)
  }
  { case 2
    then show ?case using "2.IH"(2) [OF _ step(1) _ step(3) step(2)] by (simp add: run_of_Suc) }
qed


section \<open>The operations keep the invariant\<close>

lemma pool_invE:
  assumes "pool_inv p"
  obtains free where "sizeof_node \<le> object_size p" "chunks_ok (object_size p) (chunks p)"
    "is_list (next_node p) (list_head p) (map fst (chunks p))"
    "is_list (next_node p) (free_list_head p) free" "distinct (free @ live p)"
    "set free \<union> set (live p) = all_blocks p"
  using assms unfolding pool_inv_def by blast

lemma live_block: "pool_inv p \<Longrightarrow> b \<in> set (live p) \<Longrightarrow> b \<in> all_blocks p"
  by (erule pool_invE) blast

lemma pool_blocks_apart:
  "pool_inv p \<Longrightarrow> a \<in> all_blocks p \<Longrightarrow> b \<in> all_blocks p \<Longrightarrow> a \<noteq> b \<Longrightarrow> blocks_apart (object_size p) a b"
  by (erule pool_invE) (rule all_blocks_apart)

lemma blocks_run: "blocks sz (base, n) = run_of sz (base + sizeof_node) n"
  by (simp add: run_of_def blocks.simps)

lemma grow_inv:
  assumes inv: "pool_inv p" and ok: "malloc_ok base p" and empty: "free_list_head p = 0"
  obtains p' where "grow base p = Inr p'" "pool_inv p'" "free_list_head p' \<noteq> 0" "live p' = live p"
    "object_size p' = object_size p" "\<And>x. x \<in> set (live p) \<Longrightarrow> next_node p' x = next_node p x"
proof -
  let ?sz = "object_size p" and ?n = "malloc_size p"
  let ?new = "run_of ?sz (base + sizeof_node) ?n"
  let ?p1 = "p\<lparr>next_node := (next_node p)(base := list_head p), list_head := base, chunks := (base, ?n) # chunks p\<rparr>"
  let ?p2 = "link_blocks ?n (base + sizeof_node) ?p1"
  let ?p' = "?p2\<lparr>malloc_time := malloc_time ?p2 + 1\<rparr>"
  obtain free where i: "sizeof_node \<le> ?sz" "chunks_ok ?sz (chunks p)"
    "is_list (next_node p) (list_head p) (map fst (chunks p))"
    "is_list (next_node p) (free_list_head p) free" "distinct (free @ live p)"
    "set free \<union> set (live p) = all_blocks p"
    using inv by (rule pool_invE)
  have free: "free = []" using i(4) empty by (cases free) auto
  have sz: "0 < ?sz" using i(1) by (simp add: sizeof_node_def)
  have base: "0 < base" using ok by (simp add: malloc_ok_def)
  have cok: "chunks_ok ?sz (chunks ?p1)" using i(2) ok by (simp add: malloc_ok_def)
  have new: "set ?new = set (blocks ?sz (base, ?n))" by (simp add: blocks_run)
  have apart: "set ?new \<inter> all_blocks p = {}"
  proof -
    have "x \<notin> set (blocks ?sz c)" if "x \<in> set ?new" "c \<in> set (chunks p)" for x c
      using other_chunk_apart [of x ?sz "(base, ?n)" x c] that ok sz unfolding new
      by (auto simp: malloc_ok_def blocks_apart_def)
    then show ?thesis by (auto simp: all_blocks_def)
  qed
  have all: "all_blocks ?p1 = set ?new \<union> all_blocks p" by (simp add: all_blocks_def new)
  have heads: "fst c \<notin> set ?new \<union> all_blocks p" if "c \<in> set (chunks ?p1)" for c
    using head_not_block [of ?p1 c] cok sz that all by simp
  note linked = link_blocks_list [of ?p1 "[]" "base + sizeof_node" ?n]
  have flist: "is_list (next_node ?p2) (free_list_head ?p2) (rev ?new)"
    using linked(1) empty sz by (simp add: sizeof_node_def)
  have same: "next_node ?p2 x = (if x = base then list_head p else next_node p x)" if "x \<notin> set ?new" for x
    using linked(2) empty sz that by (simp add: sizeof_node_def)
  have "?n \<noteq> 0" by (simp add: malloc_size_def kInitialMallocSize_def)
  then have ne: "rev ?new \<noteq> []" by (simp add: run_of_def)
  have nb: "base \<noteq> fst c" if "c \<in> set (chunks p)" for c
    using ok that sz by (cases c) (auto simp: malloc_ok_def sizeof_node_def)
  have keep: "next_node ?p2 (fst c) = next_node p (fst c)" if "c \<in> set (chunks p)" for c
    using same [of "fst c"] heads [of c] nb [OF that] that by auto
  have "is_list (next_node ?p2) (list_head p) (map fst (chunks p))"
    using i(3) is_list_frame [of "map fst (chunks p)" "next_node ?p2" "next_node p"] keep by fastforce
  then have clist: "is_list (next_node ?p2) base (map fst (chunks ?p1))"
    using base heads [of "(base, ?n)"] by (simp add: same)
  have "pool_inv ?p'"
    unfolding pool_inv_def
  proof (intro conjI exI)
    show "distinct (rev ?new @ live ?p')"
      using distinct_blocks [OF sz, of "(base, ?n)"] i(5,6) apart free unfolding blocks_run by auto
    show "set (rev ?new) \<union> set (live ?p') = all_blocks ?p'"
      using i(6) all free by (simp add: all_blocks_def)
  qed (use i(1) cok clist flist in simp_all)
  moreover have "free_list_head ?p' \<noteq> 0" using flist ne by (cases "rev ?new") auto
  moreover have "next_node ?p' x = next_node p x" if "x \<in> set (live p)" for x
  proof -
    have "x \<in> all_blocks p" using i(6) that by auto
    then have "x \<notin> set ?new" "x \<noteq> base" using apart heads [of "(base, ?n)"] by auto
    then show ?thesis by (simp add: same)
  qed
  ultimately show ?thesis
    using that [of ?p'] base by (simp add: grow_def Let_def)
qed

lemma pop_inv:
  assumes inv: "pool_inv p" and a: "a = free_list_head p" "a \<noteq> 0"
  shows "pool_inv (p\<lparr>free_list_head := next_node p a, live := a # live p\<rparr>)"
    and "a \<in> all_blocks p" "a \<notin> set (live p)"
proof -
  obtain free where i: "sizeof_node \<le> object_size p" "chunks_ok (object_size p) (chunks p)"
    "is_list (next_node p) (list_head p) (map fst (chunks p))"
    "is_list (next_node p) (free_list_head p) free" "distinct (free @ live p)"
    "set free \<union> set (live p) = all_blocks p"
    using inv by (rule pool_invE)
  then obtain fs where fs: "free = a # fs" using a by (cases free) auto
  show "a \<in> all_blocks p" "a \<notin> set (live p)" using i(5,6) fs by auto
  show "pool_inv (p\<lparr>free_list_head := next_node p a, live := a # live p\<rparr>)"
    unfolding pool_inv_def using i fs a by (auto simp: all_blocks_def intro!: exI [of _ fs])
qed

lemma Allocate_inv:
  assumes inv: "pool_inv p" and ok: "malloc_ok base p"
  obtains a p' where "Allocate base p = Inr (a, p')" "pool_inv p'" "live p' = a # live p"
    "object_size p' = object_size p" "a \<notin> set (live p)"
    "\<And>b. b \<in> set (live p) \<Longrightarrow> blocks_apart (object_size p) a b \<and> next_node p' b = next_node p b"
proof -
  obtain p1 where p1: "(if free_list_head p = 0 then grow base p else Inr p) = Inr p1" "pool_inv p1"
    "free_list_head p1 \<noteq> 0" "live p1 = live p" "object_size p1 = object_size p"
    "\<And>x. x \<in> set (live p) \<Longrightarrow> next_node p1 x = next_node p x"
  proof (cases "free_list_head p = 0")
    case True
    from grow_inv [OF inv ok True] that True show ?thesis by auto
  next
    case False
    with inv that [of p] show ?thesis by simp
  qed
  define a where "a = free_list_head p1"
  let ?p' = "p1\<lparr>free_list_head := next_node p1 a, live := a # live p1\<rparr>"
  note pop = pop_inv [OF p1(2) a_def p1(3) [folded a_def]]
  have "blocks_apart (object_size p) a b" if "b \<in> set (live p)" for b
  proof -
    have "b \<in> set (live p1)" "a \<noteq> b" using pop(3) p1(4) that by auto
    then show ?thesis using pool_blocks_apart [OF p1(2) pop(2) live_block [OF p1(2)]] p1(5) by simp
  qed
  then show ?thesis
    using that [of a ?p'] pop(1,3) p1 by (simp add: Allocate_def Let_def a_def)
qed

lemma update_outside_inv:
  assumes "pool_inv p" "a \<in> set (live p)"
  shows "pool_inv (p\<lparr>next_node := (next_node p)(a := v)\<rparr>)"
proof -
  obtain free where i: "sizeof_node \<le> object_size p" "chunks_ok (object_size p) (chunks p)"
    "is_list (next_node p) (list_head p) (map fst (chunks p))"
    "is_list (next_node p) (free_list_head p) free" "distinct (free @ live p)"
    "set free \<union> set (live p) = all_blocks p"
    using assms(1) by (rule pool_invE)
  have "0 < object_size p" using i(1) by (simp add: sizeof_node_def)
  then have "a \<notin> fst ` set (chunks p)" using head_not_block [OF i(2)] i(6) assms(2) by auto
  moreover have "a \<notin> set free" using i(5) assms(2) by auto
  ultimately show ?thesis unfolding pool_inv_def using i by (auto simp: all_blocks_def intro!: exI [of _ free])
qed

lemma Deallocate_inv:
  assumes inv: "pool_inv p" and a: "a \<in> set (live p)"
  shows "pool_inv (Deallocate a p)" "live (Deallocate a p) = remove1 a (live p)"
    "object_size (Deallocate a p) = object_size p"
    "b \<noteq> a \<Longrightarrow> next_node (Deallocate a p) b = next_node p b"
proof -
  obtain free where i: "sizeof_node \<le> object_size p" "chunks_ok (object_size p) (chunks p)"
    "is_list (next_node p) (list_head p) (map fst (chunks p))"
    "is_list (next_node p) (free_list_head p) free" "distinct (free @ live p)"
    "set free \<union> set (live p) = all_blocks p"
    using inv by (rule pool_invE)
  have "a \<in> all_blocks p" using i(6) a by auto
  then have a0: "0 < a" using block_positive [OF i(2)] unfolding all_blocks_def by blast
  have "0 < object_size p" using i(1) by (simp add: sizeof_node_def)
  then have "a \<notin> fst ` set (chunks p)" using head_not_block [OF i(2)] \<open>a \<in> all_blocks p\<close> by auto
  moreover have "a \<notin> set free" using i(5) a by auto
  moreover have "set (a # free) \<union> set (remove1 a (live p)) = all_blocks p" "distinct ((a # free) @ remove1 a (live p))"
    using i(5,6) a by (auto simp: set_remove1_eq dest: notin_set_remove1)
  ultimately show "pool_inv (Deallocate a p)"
    unfolding pool_inv_def Deallocate_def using i(1-4) a0
    by (auto simp: all_blocks_def intro!: exI [of _ "a # free"])
  show "live (Deallocate a p) = remove1 a (live p)" using a0 by (simp add: Deallocate_def)
qed (auto simp: Deallocate_def)


lemma MemoryPool_inv: "pool_inv (MemoryPool n)"
  by (simp add: pool_inv_def MemoryPool_def all_blocks_def exI [of _ "[]"])

lemma destroy_pool_list:
  assumes "is_list (next_node p) (list_head p) xs" "length xs \<le> fuel"
  shows "\<exists>p'. destroy_pool fuel p = Some p' \<and> released p' = released p @ xs"
  using assms
proof (induction xs arbitrary: p fuel)
  case Nil
  then show ?case by (simp add: destroy_pool.simps)
next
  case (Cons x xs)
  then obtain k where k: "fuel = Suc k" by (cases fuel) auto
  let ?p = "p\<lparr>list_head := next_node p (list_head p), released := released p @ [list_head p]\<rparr>"
  have "\<exists>p'. destroy_pool k ?p = Some p' \<and> released p' = released ?p @ xs"
    using Cons.prems k by (intro Cons.IH) simp_all
  then show ?case using Cons.prems k by (subst destroy_pool.simps) simp
qed


section \<open>The object pool\<close>

text \<open>What the object pool needs of an allocator: a block that is not in use, and the contents of the
  blocks in use left alone.\<close>

locale block_allocator =
  fixes pool_ok :: "'p \<Rightarrow> bool" and in_use :: "'p \<Rightarrow> nat set" and word_at :: "'p \<Rightarrow> nat \<Rightarrow> nat"
    and provided :: "nat \<Rightarrow> 'p \<Rightarrow> bool" and alloc :: "nat \<Rightarrow> 'p \<Rightarrow> (nat \<times> 'p) res" and dealloc :: "nat \<Rightarrow> 'p \<Rightarrow> 'p"
  assumes nonnull: "pool_ok p \<Longrightarrow> 0 \<notin> in_use p"
    and alloc_law: "pool_ok p \<Longrightarrow> provided base p \<Longrightarrow>
      \<exists>a p'. alloc base p = Inr (a, p') \<and> pool_ok p' \<and> a \<notin> in_use p \<and> in_use p' = insert a (in_use p) \<and>
             (\<forall>b \<in> in_use p. word_at p' b = word_at p b)"
    and dealloc_law: "pool_ok p \<Longrightarrow> a \<in> in_use p \<Longrightarrow>
      pool_ok (dealloc a p) \<and> in_use (dealloc a p) = in_use p - {a} \<and>
      (\<forall>b \<in> in_use p - {a}. word_at (dealloc a p) b = word_at p b)"

lemma live_positive: "pool_inv p \<Longrightarrow> 0 \<notin> set (live p)"
proof
  assume "pool_inv p" "0 \<in> set (live p)"
  then have "0 \<in> all_blocks p" "chunks_ok (object_size p) (chunks p)" by (auto elim!: pool_invE)
  then show False using block_positive unfolding all_blocks_def by blast
qed

lemma live_distinct: "pool_inv p \<Longrightarrow> distinct (live p)"
  by (auto elim!: pool_invE)

interpretation pool: block_allocator pool_inv "\<lambda>p. set (live p)" next_node malloc_ok Allocate Deallocate
proof
  fix p base assume "pool_inv p" "malloc_ok base p"
  then show "\<exists>a p'. Allocate base p = Inr (a, p') \<and> pool_inv p' \<and> a \<notin> set (live p) \<and>
      set (live p') = insert a (set (live p)) \<and> (\<forall>b \<in> set (live p). next_node p' b = next_node p b)"
    by (rule Allocate_inv) auto
next
  fix p a assume p: "pool_inv p" "a \<in> set (live p)"
  then show "pool_inv (Deallocate a p) \<and> set (live (Deallocate a p)) = set (live p) - {a} \<and>
      (\<forall>b \<in> set (live p) - {a}. next_node (Deallocate a p) b = next_node p b)"
    using Deallocate_inv [OF p] live_distinct [OF p(1)] by auto
qed (rule live_positive)

text \<open>An object has a value, or, when nothing was written to it, none. \<open>destructed\<close> is history.\<close>

record ('p, 'v) object_pool =
  memory_pool_of :: 'p
  objects :: "nat \<rightharpoonup> 'v option"
  destructed :: "nat list"

fun NewIf ::
  "(nat \<Rightarrow> 'p \<Rightarrow> (nat \<times> 'p) res) \<Rightarrow> bool \<Rightarrow> ('a \<Rightarrow> 'v) \<Rightarrow> 'a \<Rightarrow> nat \<Rightarrow> ('p, 'v) object_pool \<Rightarrow>
   (nat \<times> ('p, 'v) object_pool) res" where
  "NewIf alloc True T args base op =
     res_bind (alloc base (memory_pool_of op)) (\<lambda>(a, p).
       Inr (a, op\<lparr>memory_pool_of := p, objects := (objects op)(a \<mapsto> None)\<rparr>))"
| "NewIf alloc False T args base op =
     res_bind (alloc base (memory_pool_of op)) (\<lambda>(a, p).
       Inr (a, op\<lparr>memory_pool_of := p, objects := (objects op)(a \<mapsto> Some (T args))\<rparr>))"

fun DeleteIf :: "(nat \<Rightarrow> 'p \<Rightarrow> 'p) \<Rightarrow> bool \<Rightarrow> nat \<Rightarrow> ('p, 'v) object_pool \<Rightarrow> ('p, 'v) object_pool" where
  "DeleteIf dealloc True a op =
     op\<lparr>memory_pool_of := dealloc a (memory_pool_of op), objects := (objects op)(a := None)\<rparr>"
| "DeleteIf dealloc False a op =
     op\<lparr>destructed := destructed op @ [a], memory_pool_of := dealloc a (memory_pool_of op),
        objects := (objects op)(a := None)\<rparr>"

definition New ::
  "bool \<Rightarrow> ('a \<Rightarrow> 'v) \<Rightarrow> 'a \<Rightarrow> nat \<Rightarrow> (memory_pool, 'v) object_pool \<Rightarrow> (nat \<times> (memory_pool, 'v) object_pool) res" where
  "New trivially_constructible T args base op = NewIf Allocate trivially_constructible T args base op"

definition Delete :: "bool \<Rightarrow> nat \<Rightarrow> (memory_pool, 'v) object_pool \<Rightarrow> (memory_pool, 'v) object_pool" where
  "Delete trivially_constructible a op =
     (if a = 0 then op else DeleteIf Deallocate trivially_constructible a op)"

definition ObjectPool :: "nat \<Rightarrow> (memory_pool, 'v) object_pool" where
  "ObjectPool size_T = \<lparr>memory_pool_of = MemoryPool size_T, objects = Map.empty, destructed = []\<rparr>"


context block_allocator
begin

lemma NewIf_law:
  assumes "pool_ok (memory_pool_of op)" "dom (objects op) = in_use (memory_pool_of op)" "provided base (memory_pool_of op)"
  shows "\<exists>a op'. NewIf alloc trivial T args base op = Inr (a, op') \<and> pool_ok (memory_pool_of op') \<and>
           a \<notin> dom (objects op) \<and> objects op' = (objects op)(a \<mapsto> if trivial then None else Some (T args)) \<and>
           dom (objects op') = in_use (memory_pool_of op')"
proof -
  from alloc_law [OF assms(1,3)] obtain a p' where "alloc base (memory_pool_of op) = Inr (a, p')" "pool_ok p'"
    "a \<notin> in_use (memory_pool_of op)" "in_use p' = insert a (in_use (memory_pool_of op))" by blast
  then show ?thesis using assms(2) by (cases trivial) auto
qed

lemma DeleteIf_law:
  assumes "pool_ok (memory_pool_of op)" "dom (objects op) = in_use (memory_pool_of op)" "a \<in> dom (objects op)"
  shows "a \<noteq> 0 \<and> pool_ok (memory_pool_of (DeleteIf dealloc trivial a op)) \<and>
         objects (DeleteIf dealloc trivial a op) = (objects op)(a := None) \<and>
         dom (objects (DeleteIf dealloc trivial a op)) = in_use (memory_pool_of (DeleteIf dealloc trivial a op))"
  using assms nonnull [OF assms(1)] dealloc_law [OF assms(1), of a] by (cases trivial) auto

end

definition object_inv :: "(memory_pool, 'v) object_pool \<Rightarrow> bool" where
  "object_inv op \<longleftrightarrow> pool_inv (memory_pool_of op) \<and> dom (objects op) = set (live (memory_pool_of op))"

lemma ObjectPool_inv: "object_inv (ObjectPool n)"
  by (simp add: object_inv_def ObjectPool_def MemoryPool_inv) (simp add: MemoryPool_def)

lemma New_inv:
  assumes "object_inv op" "malloc_ok base (memory_pool_of op)"
  shows "\<exists>a op'. New trivial T args base op = Inr (a, op') \<and> object_inv op' \<and> a \<notin> dom (objects op) \<and>
           objects op' = (objects op)(a \<mapsto> if trivial then None else Some (T args))"
  using pool.NewIf_law [of op base trivial T args] assms unfolding object_inv_def New_def by blast

lemma Delete_inv:
  assumes "object_inv op" "a \<in> dom (objects op)"
  shows "object_inv (Delete trivial a op) \<and> objects (Delete trivial a op) = (objects op)(a := None)"
proof -
  have d: "a \<noteq> 0 \<and> pool_inv (memory_pool_of (DeleteIf Deallocate trivial a op)) \<and>
      objects (DeleteIf Deallocate trivial a op) = (objects op)(a := None) \<and>
      dom (objects (DeleteIf Deallocate trivial a op)) = set (live (memory_pool_of (DeleteIf Deallocate trivial a op)))"
    using assms unfolding object_inv_def by (intro pool.DeleteIf_law) simp_all
  then have eq: "Delete trivial a op = DeleteIf Deallocate trivial a op" by (simp add: Delete_def)
  show ?thesis unfolding eq object_inv_def using d by blast
qed


section \<open>What the pools guarantee\<close>

text \<open>Every state of a pool: blocks are handed out while \<open>malloc\<close> works, given back once, and written
  to by their users.\<close>

inductive pool_reach :: "nat \<Rightarrow> memory_pool \<Rightarrow> bool" for n where
  init: "pool_reach n (MemoryPool n)"
| alloc: "pool_reach n p \<Longrightarrow> malloc_ok base p \<Longrightarrow> Allocate base p = Inr (a, p') \<Longrightarrow> pool_reach n p'"
| dealloc: "pool_reach n p \<Longrightarrow> a \<in> set (live p) \<Longrightarrow> pool_reach n (Deallocate a p)"
| user_write: "pool_reach n p \<Longrightarrow> a \<in> set (live p) \<Longrightarrow> pool_reach n (scribble a v p)"

lemma pool_reach_inv: "pool_reach n p \<Longrightarrow> pool_inv p \<and> object_size p = max n sizeof_node"
proof (induction rule: pool_reach.induct)
  case init
  then show ?case by (simp add: MemoryPool_inv) (simp add: MemoryPool_def)
next
  case (alloc p base a p')
  then obtain b p1 where "Allocate base p = Inr (b, p1)" "pool_inv p1" "object_size p1 = object_size p"
    by (metis Allocate_inv)
  then show ?case using alloc by simp
next
  case (dealloc p a)
  then show ?case using Deallocate_inv by simp
next
  case (user_write p a v)
  then show ?case using update_outside_inv [of p a v] by (simp add: scribble_def)
qed

text \<open>C20. In every state of a memory pool the blocks in use are different and do not overlap, whatever
  their users write into them; the next \<open>Allocate\<close> returns a block that is not in use, provided that
  \<open>malloc\<close> returns memory of its own; and the destructor ends and frees every chunk once.\<close>

theorem memory_pool_safe:
  assumes "pool_reach n p"
  shows "distinct (live p) \<and>
         (\<forall>a \<in> set (live p). \<forall>b \<in> set (live p). a \<noteq> b \<longrightarrow> blocks_apart (max n sizeof_node) a b) \<and>
         (malloc_ok base p \<longrightarrow> (\<exists>a p'. Allocate base p = Inr (a, p') \<and> a \<notin> set (live p) \<and> live p' = a # live p)) \<and>
         (\<exists>p'. destroy_pool (length (chunks p)) p = Some p' \<and> released p' = released p @ map fst (chunks p))"
proof (intro conjI ballI impI)
  have inv: "pool_inv p" "object_size p = max n sizeof_node" using pool_reach_inv [OF assms] by simp_all
  show "distinct (live p)" by (rule live_distinct [OF inv(1)])
  show "blocks_apart (max n sizeof_node) a b" if "a \<in> set (live p)" "b \<in> set (live p)" "a \<noteq> b" for a b
    using pool_blocks_apart [OF inv(1) live_block [OF inv(1) that(1)] live_block [OF inv(1) that(2)] that(3)] inv(2)
    by simp
  show "\<exists>a p'. Allocate base p = Inr (a, p') \<and> a \<notin> set (live p) \<and> live p' = a # live p" if "malloc_ok base p"
    using Allocate_inv [OF inv(1) that] by metis
  show "\<exists>p'. destroy_pool (length (chunks p)) p = Some p' \<and> released p' = released p @ map fst (chunks p)"
    using inv(1) by (auto elim!: pool_invE intro!: destroy_pool_list)
qed

theorem memory_pool_safe_witness:
  "\<exists>a p'. Allocate 4096 (MemoryPool 24) = Inr (a, p') \<and> live p' = [a]"
proof -
  have "malloc_ok 4096 (MemoryPool 24)" "live (MemoryPool 24) = []" by (simp_all add: malloc_ok_def MemoryPool_def)
  then show ?thesis using memory_pool_safe [OF pool_reach.init, of 24 4096] by auto
qed

text \<open>An object that the object pool creates is new, has the value that its constructor gives it,
  and leaves the other objects alone; deleting it removes it alone. When the type is trivially
  constructible the arguments of \<open>New\<close> are not used and the object has no value.\<close>

theorem object_pool_values:
  assumes "object_inv op" and "malloc_ok base (memory_pool_of op)"
  shows "\<exists>a op'. New trivial T args base op = Inr (a, op') \<and> object_inv op' \<and> a \<notin> dom (objects op) \<and>
           objects op' = (objects op)(a \<mapsto> if trivial then None else Some (T args)) \<and>
           object_inv (Delete trivial a op') \<and> objects (Delete trivial a op') = objects op"
proof -
  from New_inv [OF assms, of trivial T args] obtain a op' where n: "New trivial T args base op = Inr (a, op')"
    "object_inv op'" "a \<notin> dom (objects op)" "objects op' = (objects op)(a \<mapsto> if trivial then None else Some (T args))"
    by blast
  then have "objects op a = None" by auto
  with n Delete_inv [OF n(2), of a trivial] show ?thesis by auto
qed

theorem object_pool_values_witness:
  "\<exists>a op'. New False (\<lambda>n. n + 1) (41 :: nat) 4096 (ObjectPool 4) = Inr (a, op') \<and> objects op' = [a \<mapsto> Some 42]"
proof -
  have "malloc_ok 4096 (memory_pool_of (ObjectPool 4 :: (memory_pool, nat) object_pool))"
    "objects (ObjectPool 4 :: (memory_pool, nat) object_pool) = Map.empty"
    by (simp_all add: malloc_ok_def ObjectPool_def MemoryPool_def)
  then show ?thesis
    using object_pool_values [OF ObjectPool_inv [of 4], of 4096 False "\<lambda>n. n + 1" "41 :: nat"] by auto
qed

text \<open>Blocks are not aligned: the size of a block is not rounded up to the size of a node.\<close>

lemma link_blocks_head: "free_list_head (link_blocks (Suc n) ptr p) = ptr + n * object_size p"
proof (induction n arbitrary: ptr p)
  case (Suc n)
  let ?p = "p\<lparr>next_node := (next_node p)(ptr := free_list_head p), free_list_head := ptr\<rparr>"
  have "link_blocks (Suc (Suc n)) ptr p = link_blocks (Suc n) (ptr + object_size p) ?p" by simp
  then show ?case using Suc.IH [of "ptr + object_size p" ?p] by (simp del: link_blocks.simps)
qed simp

lemma misaligned_block: "\<exists>a p'. Allocate 4096 (MemoryPool 12) = Inr (a, p') \<and> a mod sizeof_node \<noteq> 0"
proof -
  have "(40 :: nat) = Suc 39" by simp
  then have "free_list_head (link_blocks 40 4104 p) = 4104 + 39 * object_size p" for p
    by (simp only: link_blocks_head)
  then show ?thesis
    by (simp add: Allocate_def grow_def Let_def MemoryPool_def malloc_size_def kInitialMallocSize_def sizeof_node_def)
qed

end
