(* ===== verification/Task_Pool.thy ===== *)
theory Task_Pool
  imports Taotu_Prelude "HOL-Library.Multiset"
begin

text \<open>
  The spin lock (\<^verbatim>\<open>src/src/spin_lock.h\<close>) and the thread pool (\<^verbatim>\<open>src/src/thread_pool.h\<close>,
  \<^verbatim>\<open>src/src/thread_pool.cc\<close>) as systems of interleaved threads. A step is one atomic operation of the
  spin lock, or one piece of the loop of a worker between two points where it takes, gives up or waits for
  its mutex. Threads are numbered.
\<close>

section \<open>The spin lock\<close>

datatype lock_pc = LIdle | LTry bool | LReset | LHeld

record spin_lock =
  lock_value :: bool
  lockers :: "nat \<Rightarrow> lock_pc"

definition MutexLock :: spin_lock where
  "MutexLock = \<lparr>lock_value = True, lockers = (\<lambda>t. LIdle)\<rparr>"

definition at_lock :: "nat \<Rightarrow> lock_pc \<Rightarrow> spin_lock \<Rightarrow> spin_lock" where
  "at_lock t pc s = s\<lparr>lockers := (lockers s)(t := pc)\<rparr>"

text \<open>One step of \<open>Lock\<close>: \<open>exp\<close> is true, the exchange (which may fail spuriously), \<open>exp\<close> is true again.\<close>

definition Lock_step :: "bool \<Rightarrow> nat \<Rightarrow> spin_lock \<Rightarrow> spin_lock option" where
  "Lock_step spurious t s =
     (case lockers s t of
        LIdle \<Rightarrow> Some (at_lock t (LTry True) s)
      | LTry exp \<Rightarrow>
          Some (if lock_value s = exp \<and> \<not> spurious then at_lock t LHeld (s\<lparr>lock_value := False\<rparr>)
                else at_lock t LReset s)
      | LReset \<Rightarrow> Some (at_lock t (LTry True) s)
      | LHeld \<Rightarrow> None)"

definition Unlock :: "nat \<Rightarrow> spin_lock \<Rightarrow> spin_lock" where
  "Unlock t s = at_lock t LIdle (s\<lparr>lock_value := True\<rparr>)"

text \<open>Threads that lock and, as \<open>LockGuard\<close> does, unlock what they have locked.\<close>

inductive lock_reach :: "spin_lock \<Rightarrow> bool" where
  init: "lock_reach MutexLock"
| lock: "lock_reach s \<Longrightarrow> Lock_step spurious t s = Some s' \<Longrightarrow> lock_reach s'"
| unlock: "lock_reach s \<Longrightarrow> lockers s t = LHeld \<Longrightarrow> lock_reach (Unlock t s)"

definition held :: "spin_lock \<Rightarrow> nat set" where
  "held s = {t. lockers s t = LHeld}"

definition lock_inv :: "spin_lock \<Rightarrow> bool" where
  "lock_inv s \<longleftrightarrow>
     (\<forall>t. lockers s t \<noteq> LTry False) \<and>
     (if lock_value s then held s = {} else \<exists>t. held s = {t})"

lemma held_at_lock: "held (at_lock t pc s) = (if pc = LHeld then insert t (held s) else held s - {t})"
  by (auto simp: held_def at_lock_def)

lemma lock_inv_quiet:
  assumes "lock_inv s" "lockers s t \<noteq> LHeld" "pc \<noteq> LHeld" "pc \<noteq> LTry False"
  shows "lock_inv (at_lock t pc s)"
proof -
  have "held (at_lock t pc s) = held s" using assms(2,3) by (auto simp: held_at_lock) (simp add: held_def)
  then show ?thesis using assms(1,4) by (simp add: lock_inv_def) (simp add: at_lock_def)
qed

lemma lock_reach_inv: "lock_reach s \<Longrightarrow> lock_inv s"
proof (induction rule: lock_reach.induct)
  case init
  then show ?case by (simp add: lock_inv_def MutexLock_def held_def)
next
  case (lock s spurious t s')
  show ?case
  proof (cases "lockers s t")
    case (LTry e)
    then have "e" using lock.IH by (cases e) (auto simp: lock_inv_def)
    show ?thesis
    proof (cases "lock_value s \<and> \<not> spurious")
      case True
      have "held (s\<lparr>lock_value := False\<rparr>) = held s" by (simp add: held_def)
      then have "lock_inv (at_lock t LHeld (s\<lparr>lock_value := False\<rparr>))"
        using lock.IH True unfolding lock_inv_def held_at_lock by (simp add: at_lock_def)
      then show ?thesis using lock.hyps(2) LTry \<open>e\<close> True by (simp add: Lock_step_def)
    next
      case False
      then have "s' = at_lock t LReset s" using lock.hyps(2) LTry \<open>e\<close> by (auto simp: Lock_step_def)
      then show ?thesis using lock_inv_quiet [OF lock.IH] LTry by simp
    qed
  qed (use lock lock_inv_quiet [OF lock.IH, of t "LTry True"] in \<open>auto simp: Lock_step_def\<close>)
next
  case (unlock s t)
  have "held (s\<lparr>lock_value := True\<rparr>) = held s" by (simp add: held_def)
  moreover have "t \<in> held s" using unlock.hyps(2) by (simp add: held_def)
  then have "held s = {t}" using unlock.IH unfolding lock_inv_def by (auto split: if_splits)
  ultimately show ?case
    using unlock.IH unfolding lock_inv_def Unlock_def held_at_lock by (simp add: at_lock_def)
qed

text \<open>At most one thread holds the spin lock, and when none does a thread that tries gets it with its
  next exchange that does not fail spuriously.\<close>

theorem spin_lock_exclusive:
  assumes "lock_reach s"
  shows "(lockers s t = LHeld \<and> lockers s t' = LHeld \<longrightarrow> t = t') \<and>
         ((\<forall>t. lockers s t \<noteq> LHeld) \<and> lockers s t = LTry exp \<longrightarrow>
            (\<exists>s'. Lock_step False t s = Some s' \<and> lockers s' t = LHeld))"
proof -
  have inv: "lock_inv s" by (rule lock_reach_inv [OF assms])
  have sets: "lockers s t = LHeld \<longleftrightarrow> t \<in> held s" for t by (simp add: held_def)
  show ?thesis
  proof (intro conjI impI)
    show "t = t'" if "lockers s t = LHeld \<and> lockers s t' = LHeld"
      using inv that unfolding sets by (auto simp: lock_inv_def split: if_splits)
    assume free: "(\<forall>t. lockers s t \<noteq> LHeld) \<and> lockers s t = LTry exp"
    then have "lock_value s" using inv unfolding sets by (auto simp: lock_inv_def split: if_splits)
    moreover have "exp" using inv free by (cases exp) (auto simp: lock_inv_def)
    ultimately show "\<exists>s'. Lock_step False t s = Some s' \<and> lockers s' t = LHeld"
      using free by (simp add: Lock_step_def at_lock_def)
  qed
qed

definition one_waiting :: spin_lock where
  "one_waiting = at_lock 3 (LTry True) MutexLock"

theorem spin_lock_exclusive_witness:
  "\<exists>s'. Lock_step False 3 one_waiting = Some s' \<and> lockers s' 3 = LHeld"
proof -
  have "Lock_step False 3 MutexLock = Some one_waiting" by (simp add: Lock_step_def MutexLock_def one_waiting_def)
  then have "lock_reach one_waiting" by (rule lock_reach.lock [OF lock_reach.init])
  moreover have "lockers one_waiting t = (if t = 3 then LTry True else LIdle)" for t
    by (simp add: one_waiting_def at_lock_def MutexLock_def)
  ultimately show ?thesis using spin_lock_exclusive [of one_waiting 3 0 True] by simp
qed


section \<open>The two queues\<close>

text \<open>What a queue promises, and how its history then reads: what came out is an initial part of what went
  in, and the rest is in the queue.\<close>

locale fifo_queue =
  fixes content :: "'q \<Rightarrow> 'a list" and push :: "'a \<Rightarrow> 'q \<Rightarrow> 'q" and pop :: "'q \<Rightarrow> 'a \<times> 'q"
  assumes push_law: "content (push x q) = content q @ [x]"
    and pop_law: "content q \<noteq> [] \<Longrightarrow> content q = fst (pop q) # content (snd (pop q))"
begin

definition history :: "'a list \<Rightarrow> 'a list \<Rightarrow> 'q \<Rightarrow> bool" where
  "history into out q \<longleftrightarrow> into = out @ content q"

lemma history_push: "history into out q \<Longrightarrow> history (into @ [x]) out (push x q)"
  by (simp add: history_def push_law)

lemma history_pop: "history into out q \<Longrightarrow> content q \<noteq> [] \<Longrightarrow> history into (out @ [fst (pop q)]) (snd (pop q))"
  by (simp add: history_def) (metis pop_law append.assoc append_Cons append_Nil)

end

text \<open>One queue is for the producers (\<open>que_pdt_idx_\<close>), the other for the consumers.\<close>

record 'a task_queues =
  queue_of :: "bool \<Rightarrow> 'a list"
  que_pdt_idx :: bool

definition producers_queue :: "'a task_queues \<Rightarrow> 'a list" where
  "producers_queue q = queue_of q (que_pdt_idx q)"

definition consumers_queue :: "'a task_queues \<Rightarrow> 'a list" where
  "consumers_queue q = queue_of q (\<not> que_pdt_idx q)"

definition push_task :: "'a \<Rightarrow> 'a task_queues \<Rightarrow> 'a task_queues" where
  "push_task x q = q\<lparr>queue_of := (queue_of q)(que_pdt_idx q := producers_queue q @ [x])\<rparr>"

text \<open>The consumers take over the queue of the producers when their own is empty.\<close>

definition pop_task :: "'a task_queues \<Rightarrow> 'a \<times> 'a task_queues" where
  "pop_task q =
     (let q1 = (if consumers_queue q = [] then q\<lparr>que_pdt_idx := \<not> que_pdt_idx q\<rparr> else q);
          csm = (\<not> que_pdt_idx q1)
      in (hd (queue_of q1 csm), q1\<lparr>queue_of := (queue_of q1)(csm := tl (queue_of q1 csm))\<rparr>))"

definition all_tasks :: "'a task_queues \<Rightarrow> 'a list" where
  "all_tasks q = consumers_queue q @ producers_queue q"

interpretation tasks: fifo_queue all_tasks push_task pop_task
proof
  show "all_tasks (push_task x q) = all_tasks q @ [x]" for x :: 'b and q
    by (simp add: all_tasks_def consumers_queue_def producers_queue_def push_task_def)
  show "all_tasks q = fst (pop_task q) # all_tasks (snd (pop_task q))" if "all_tasks q \<noteq> []" for q :: "'b task_queues"
    using that
    by (cases "consumers_queue q = []")
      (auto simp: all_tasks_def consumers_queue_def producers_queue_def pop_task_def Let_def)
qed


section \<open>The thread pool\<close>

text \<open>Where a worker is: before it takes its mutex, with the mutex before or after the test of its
  condition, in \<open>wait\<close>, running a task, or at its end.\<close>

datatype 'a worker_pc = WkLoop | WkTest | WkPick | WkBlock | WkWait | WkRun 'a | WkExit

record 'a thread_pool =
  pool_queues :: "'a task_queues"
  pdt_csm_mutex :: bool
  should_stop :: bool
  workers :: "nat \<Rightarrow> 'a worker_pc"
  added :: "'a list"
  taken :: "'a list"
  ran :: "'a list"

definition ThreadPool :: "nat \<Rightarrow> 'a thread_pool" where
  "ThreadPool thread_amount =
     \<lparr>pool_queues = \<lparr>queue_of = (\<lambda>i. []), que_pdt_idx = False\<rparr>, pdt_csm_mutex = False, should_stop = False,
      workers = (\<lambda>i. if i < thread_amount then WkLoop else WkExit), added = [], taken = [], ran = []\<rparr>"

definition at_worker :: "nat \<Rightarrow> 'a worker_pc \<Rightarrow> 'a thread_pool \<Rightarrow> 'a thread_pool" where
  "at_worker i pc s = s\<lparr>workers := (workers s)(i := pc)\<rparr>"

text \<open>One step of worker \<open>i\<close>.\<close>

definition worker_step :: "nat \<Rightarrow> 'a thread_pool \<Rightarrow> 'a thread_pool option" where
  "worker_step i s =
     (case workers s i of
        WkLoop \<Rightarrow> if pdt_csm_mutex s then None else Some (at_worker i WkTest (s\<lparr>pdt_csm_mutex := True\<rparr>))
      | WkTest \<Rightarrow>
          Some (if should_stop s \<or> producers_queue (pool_queues s) \<noteq> [] \<or> consumers_queue (pool_queues s) \<noteq> []
                then at_worker i WkPick s else at_worker i WkBlock s)
      | WkBlock \<Rightarrow> Some (at_worker i WkWait (s\<lparr>pdt_csm_mutex := False\<rparr>))
      | WkPick \<Rightarrow>
          Some (if should_stop s \<and> producers_queue (pool_queues s) = [] \<and> consumers_queue (pool_queues s) = []
                then at_worker i WkExit (s\<lparr>pdt_csm_mutex := False\<rparr>)
                else case pop_task (pool_queues s) of (task, q) \<Rightarrow>
                  at_worker i (WkRun task) (s\<lparr>pool_queues := q, pdt_csm_mutex := False, taken := taken s @ [task]\<rparr>))
      | WkRun task \<Rightarrow> Some (at_worker i WkLoop (s\<lparr>ran := ran s @ [task]\<rparr>))
      | WkWait \<Rightarrow> None
      | WkExit \<Rightarrow> None)"

text \<open>A worker that is notified takes the mutex again and tests its condition.\<close>

definition wake :: "nat \<Rightarrow> 'a thread_pool \<Rightarrow> 'a thread_pool" where
  "wake i s = (if workers s i = WkWait then at_worker i WkLoop s else s)"

text \<open>\<open>AddTask\<close>: the task is queued and one waiting worker, the argument, is notified; the pool refuses
  tasks when it stops.\<close>

definition AddTask :: "'a \<Rightarrow> nat \<Rightarrow> 'a thread_pool \<Rightarrow> 'a thread_pool option" where
  "AddTask task i s =
     (if should_stop s then None
      else Some (wake i (s\<lparr>pool_queues := push_task task (pool_queues s), added := added s @ [task]\<rparr>)))"

text \<open>The destructor up to the joins: it takes the mutex, so that no worker is between its test and its
  wait.\<close>

definition stop_pool :: "'a thread_pool \<Rightarrow> 'a thread_pool option" where
  "stop_pool s =
     (if pdt_csm_mutex s then None
      else Some (s\<lparr>should_stop := True, workers := (\<lambda>i. if workers s i = WkWait then WkLoop else workers s i)\<rparr>))"

definition someone_waits :: "'a thread_pool \<Rightarrow> bool" where
  "someone_waits s \<longleftrightarrow> (\<exists>i. workers s i = WkWait)"

inductive pool_step :: "'a thread_pool \<Rightarrow> 'a thread_pool \<Rightarrow> bool" where
  work: "worker_step i s = Some s' \<Longrightarrow> pool_step s s'"
| add: "AddTask task i s = Some s' \<Longrightarrow> someone_waits s \<longrightarrow> workers s i = WkWait \<Longrightarrow> pool_step s s'"
| stop: "stop_pool s = Some s' \<Longrightarrow> pool_step s s'"

inductive pool_run :: "'a thread_pool \<Rightarrow> 'a thread_pool \<Rightarrow> bool" for s0 where
  init: "pool_run s0 s0"
| step: "pool_run s0 s \<Longrightarrow> pool_step s s' \<Longrightarrow> pool_run s0 s'"


text \<open>The workers between taking and giving up the mutex, and the tasks that are running.\<close>

definition inside :: "'a worker_pc \<Rightarrow> bool" where
  "inside pc \<longleftrightarrow> pc = WkTest \<or> pc = WkPick \<or> pc = WkBlock"

definition critical :: "(nat \<Rightarrow> 'a worker_pc) \<Rightarrow> nat set" where
  "critical w = {i. inside (w i)}"

definition running :: "'a worker_pc \<Rightarrow> 'a multiset" where
  "running pc = (case pc of WkRun task \<Rightarrow> {#task#} | _ \<Rightarrow> {#})"

definition mutex_ok :: "(nat \<Rightarrow> 'a worker_pc) \<Rightarrow> bool \<Rightarrow> bool" where
  "mutex_ok w m \<longleftrightarrow> (if m then \<exists>i. critical w = {i} else critical w = {})"

definition stop_ok :: "(nat \<Rightarrow> 'a worker_pc) \<Rightarrow> bool \<Rightarrow> bool" where
  "stop_ok w b \<longleftrightarrow> (b \<longrightarrow> (\<forall>i. w i \<noteq> WkWait \<and> w i \<noteq> WkBlock))"

definition pick_ok :: "(nat \<Rightarrow> 'a worker_pc) \<Rightarrow> bool \<Rightarrow> 'a task_queues \<Rightarrow> bool" where
  "pick_ok w b q \<longleftrightarrow> (\<forall>i. w i = WkPick \<longrightarrow> b \<or> all_tasks q \<noteq> [])"

definition exit_ok :: "nat \<Rightarrow> (nat \<Rightarrow> 'a worker_pc) \<Rightarrow> bool \<Rightarrow> 'a task_queues \<Rightarrow> bool" where
  "exit_ok n w b q \<longleftrightarrow> (\<forall>i. w i = WkExit \<longrightarrow> n \<le> i \<or> b \<and> all_tasks q = []) \<and> (\<forall>i\<ge>n. w i = WkExit)"

definition ran_ok :: "nat \<Rightarrow> (nat \<Rightarrow> 'a worker_pc) \<Rightarrow> 'a list \<Rightarrow> 'a list \<Rightarrow> bool" where
  "ran_ok n w tk rn \<longleftrightarrow> mset tk = mset rn + (\<Sum>i<n. running (w i))"

definition tp_inv :: "nat \<Rightarrow> 'a thread_pool \<Rightarrow> bool" where
  "tp_inv n s \<longleftrightarrow>
     tasks.history (added s) (taken s) (pool_queues s) \<and> mutex_ok (workers s) (pdt_csm_mutex s) \<and>
     stop_ok (workers s) (should_stop s) \<and> pick_ok (workers s) (should_stop s) (pool_queues s) \<and>
     exit_ok n (workers s) (should_stop s) (pool_queues s) \<and> ran_ok n (workers s) (taken s) (ran s)"

lemma running_simps [simp]:
  "running WkLoop = {#}" "running WkTest = {#}" "running WkPick = {#}" "running WkBlock = {#}" "running WkWait = {#}"
  "running WkExit = {#}" "running (WkRun task) = {#task#}"
  by (simp_all add: running_def)

lemma inside_simps [simp]:
  "\<not> inside WkLoop" "inside WkTest" "inside WkPick" "inside WkBlock" "\<not> inside WkWait" "\<not> inside WkExit"
  "\<not> inside (WkRun task)"
  by (simp_all add: inside_def)

lemma running_update:
  assumes "i < (n :: nat)"
  shows "(\<Sum>k<n. running ((w(i := pc)) k)) + running (w i) = (\<Sum>k<n. running (w k)) + running pc"
proof -
  have "(\<Sum>k<n. running ((w(i := pc)) k)) = running pc + (\<Sum>k\<in>{..<n} - {i}. running ((w(i := pc)) k))"
    using assms by (subst sum.remove [of _ i]) auto
  moreover have "(\<Sum>k\<in>{..<n} - {i}. running ((w(i := pc)) k)) = (\<Sum>k\<in>{..<n} - {i}. running (w k))"
    by (rule sum.cong) auto
  moreover have "(\<Sum>k<n. running (w k)) = running (w i) + (\<Sum>k\<in>{..<n} - {i}. running (w k))"
    using assms by (subst sum.remove [of _ i]) auto
  ultimately show ?thesis by (simp add: ac_simps)
qed

lemma critical_update: "critical (w(i := pc)) = (if inside pc then insert i (critical w) else critical w - {i})"
  by (auto simp: critical_def)

lemma all_tasks_Nil: "all_tasks q = [] \<longleftrightarrow> producers_queue q = [] \<and> consumers_queue q = []"
  by (auto simp: all_tasks_def)

text \<open>How one worker moves.\<close>

lemma ran_ok_move:
  assumes "ran_ok n w tk rn" "i < n" "mset tk' + mset rn + running (w i) = mset tk + mset rn' + running pc"
  shows "ran_ok n (w(i := pc)) tk' rn'"
proof -
  let ?S = "\<Sum>k<n. running (w k)" and ?S' = "\<Sum>k<n. running ((w(i := pc)) k)"
  have "mset tk' + (mset rn + running (w i)) = mset rn + mset rn' + (?S + running pc)"
    using assms(1,3) by (simp add: ran_ok_def ac_simps)
  also have "\<dots> = (mset rn' + ?S') + (mset rn + running (w i))"
    unfolding running_update [OF assms(2), of w pc, symmetric] by (simp only: ac_simps)
  finally show ?thesis by (simp only: ran_ok_def add_right_cancel)
qed

lemma worker_move:
  assumes "exit_ok n w b q" "w i \<noteq> WkExit"
  shows "i < n" "pc \<noteq> WkExit \<Longrightarrow> exit_ok n (w(i := pc)) b q"
proof -
  show i: "i < n" using assms unfolding exit_ok_def by (metis not_le)
  show "exit_ok n (w(i := pc)) b q" if "pc \<noteq> WkExit"
    using assms(1) i that unfolding exit_ok_def by auto
qed

lemma mutex_ok_enter: "mutex_ok w False \<Longrightarrow> inside pc \<Longrightarrow> mutex_ok (w(i := pc)) True"
  by (simp add: mutex_ok_def critical_update)

lemma mutex_ok_inside:
  assumes "mutex_ok w m" "inside (w i)"
  shows "m" "critical w = {i}"
proof -
  have "i \<in> critical w" using assms(2) by (simp add: critical_def)
  then show "m" "critical w = {i}" using assms(1) unfolding mutex_ok_def by (auto split: if_splits)
qed

lemma mutex_ok_leave: "mutex_ok w m \<Longrightarrow> inside (w i) \<Longrightarrow> \<not> inside pc \<Longrightarrow> mutex_ok (w(i := pc)) False"
  using mutex_ok_inside [of w m i] by (simp add: mutex_ok_def critical_update)

lemma mutex_ok_stay: "mutex_ok w m \<Longrightarrow> inside pc = inside (w i) \<Longrightarrow> mutex_ok (w(i := pc)) m"
proof -
  assume "mutex_ok w m" "inside pc = inside (w i)"
  moreover from this have "critical (w(i := pc)) = critical w" by (auto simp: critical_update) (auto simp: critical_def)
  ultimately show ?thesis by (simp add: mutex_ok_def)
qed

text \<open>The worker that is inside is the only one.\<close>

lemma pick_only:
  assumes "mutex_ok w m" "inside (w i)" "w k = WkPick"
  shows "k = i"
proof -
  have "k \<in> critical w" using assms(3) by (simp add: critical_def)
  then show ?thesis using mutex_ok_inside(2) [OF assms(1,2)] by simp
qed

lemma stop_ok_move: "stop_ok w b \<Longrightarrow> (b \<Longrightarrow> pc \<noteq> WkWait \<and> pc \<noteq> WkBlock) \<Longrightarrow> stop_ok (w(i := pc)) b"
  by (auto simp: stop_ok_def)

lemma pick_ok_move: "pick_ok w b q \<Longrightarrow> (pc = WkPick \<Longrightarrow> b \<or> all_tasks q \<noteq> []) \<Longrightarrow> pick_ok (w(i := pc)) b q"
  by (auto simp: pick_ok_def)

lemmas move_intros = worker_move(2) stop_ok_move pick_ok_move

lemma tp_invD:
  assumes "tp_inv n s"
  shows "tasks.history (added s) (taken s) (pool_queues s)" "mutex_ok (workers s) (pdt_csm_mutex s)"
    "stop_ok (workers s) (should_stop s)" "pick_ok (workers s) (should_stop s) (pool_queues s)"
    "exit_ok n (workers s) (should_stop s) (pool_queues s)" "ran_ok n (workers s) (taken s) (ran s)"
  using assms by (simp_all add: tp_inv_def)

text \<open>A move that neither takes nor runs a task.\<close>

lemma quiet_move:
  assumes inv: "tp_inv n s" and i: "workers s i \<noteq> WkExit" "running (workers s i) = {#}"
    and pc: "pc \<noteq> WkExit" "running pc = {#}" "should_stop s \<Longrightarrow> pc \<noteq> WkWait \<and> pc \<noteq> WkBlock"
      "pc = WkPick \<Longrightarrow> should_stop s \<or> all_tasks (pool_queues s) \<noteq> []"
    and m: "mutex_ok ((workers s)(i := pc)) m"
  shows "tp_inv n (at_worker i pc (s\<lparr>pdt_csm_mutex := m\<rparr>))"
proof -
  note inv = tp_invD [OF inv]
  have "i < n" by (rule worker_move(1) [OF inv(5) i(1)])
  then have "ran_ok n ((workers s)(i := pc)) (taken s) (ran s)"
    using ran_ok_move [OF inv(6)] i(2) pc(2) by simp
  then show ?thesis
    using inv(1) worker_move(2) [OF inv(5) i(1) pc(1)] stop_ok_move [OF inv(3) pc(3)] pick_ok_move [OF inv(4) pc(4)] m
    by (simp add: tp_inv_def at_worker_def)
qed

lemma pick_step:
  assumes inv: "tp_inv n s" and pc: "workers s i = WkPick" and step: "worker_step i s = Some s'"
  shows "tp_inv n s'"
proof -
  note inv' = tp_invD [OF inv]
  have i: "i < n" using worker_move(1) [OF inv'(5)] pc by simp
  have m: "mutex_ok ((workers s)(i := pc')) False" if "\<not> inside pc'" for pc'
    using mutex_ok_leave [OF inv'(2), of i] pc that by simp
  show ?thesis
  proof (cases "should_stop s \<and> all_tasks (pool_queues s) = []")
    case True
    then have "s' = at_worker i WkExit (s\<lparr>pdt_csm_mutex := False\<rparr>)"
      using step pc by (simp add: worker_step_def all_tasks_Nil)
    moreover have "ran_ok n ((workers s)(i := WkExit)) (taken s) (ran s)"
      using ran_ok_move [OF inv'(6) i] pc by simp
    moreover have "exit_ok n ((workers s)(i := WkExit)) True (pool_queues s)"
      using inv'(5) True by (auto simp: exit_ok_def)
    moreover have "pick_ok ((workers s)(i := WkExit)) True (pool_queues s)" by (simp add: pick_ok_def)
    ultimately show ?thesis
      using inv'(1) m [of WkExit] stop_ok_move [OF inv'(3)] True by (simp add: tp_inv_def at_worker_def)
  next
    case False
    then have ne: "all_tasks (pool_queues s) \<noteq> []" using inv'(4) pc unfolding pick_ok_def by blast
    obtain task q where pop: "pop_task (pool_queues s) = (task, q)" by (cases "pop_task (pool_queues s)")
    let ?w = "(workers s)(i := WkRun task)"
    have s': "s' = at_worker i (WkRun task) (s\<lparr>pool_queues := q, pdt_csm_mutex := False, taken := taken s @ [task]\<rparr>)"
      using step pc False pop by (auto simp: worker_step_def all_tasks_Nil)
    have "tasks.history (added s) (taken s @ [task]) q"
      using tasks.history_pop [OF inv'(1) ne] pop by simp
    moreover have "exit_ok n ?w (should_stop s) q"
      using inv'(5) ne i by (auto simp: exit_ok_def)
    moreover have "pick_ok ?w (should_stop s) q"
    proof -
      have "?w k \<noteq> WkPick" for k using pick_only [OF inv'(2), of i k] pc by (cases "k = i") auto
      then show ?thesis by (simp add: pick_ok_def)
    qed
    moreover have "ran_ok n ?w (taken s @ [task]) (ran s)"
      using ran_ok_move [OF inv'(6) i] pc by simp
    ultimately show ?thesis
      using s' m [of "WkRun task"] stop_ok_move [OF inv'(3)] by (simp add: tp_inv_def at_worker_def)
  qed
qed

lemma worker_step_inv:
  assumes inv: "tp_inv n s" and step: "worker_step i s = Some s'"
  shows "tp_inv n s'"
proof -
  note inv' = tp_invD [OF inv] and move = quiet_move [OF inv, of i]
  show ?thesis
  proof (cases "workers s i")
    case WkLoop
    then have "mutex_ok ((workers s)(i := WkTest)) True"
      using step mutex_ok_enter [of "workers s"] inv'(2) by (auto simp: worker_step_def split: if_splits)
    then show ?thesis using step WkLoop move [of WkTest True] by (auto simp: worker_step_def split: if_splits)
  next
    case WkTest
    then have "mutex_ok ((workers s)(i := pc)) (pdt_csm_mutex s)" if "inside pc" for pc
      using mutex_ok_stay [OF inv'(2)] that by simp
    then show ?thesis
      using step WkTest move [of WkPick "pdt_csm_mutex s"] move [of WkBlock "pdt_csm_mutex s"]
      by (auto simp: worker_step_def all_tasks_Nil split: if_splits)
  next
    case WkBlock
    then have "\<not> should_stop s" using inv'(3) by (auto simp: stop_ok_def)
    then show ?thesis
      using step WkBlock move [of WkWait False] mutex_ok_leave [OF inv'(2), of i] by (simp add: worker_step_def)
  next
    case WkPick
    then show ?thesis by (rule pick_step [OF inv _ step])
  next
    case (WkRun task)
    have i: "i < n" using worker_move(1) [OF inv'(5)] WkRun by simp
    then have "ran_ok n ((workers s)(i := WkLoop)) (taken s) (ran s @ [task])"
      using ran_ok_move [OF inv'(6) i] WkRun by simp
    moreover have "s' = at_worker i WkLoop (s\<lparr>ran := ran s @ [task]\<rparr>)" using step WkRun by (simp add: worker_step_def)
    ultimately show ?thesis
      using inv' WkRun worker_move(2) [OF inv'(5), of i WkLoop] stop_ok_move [OF inv'(3), of WkLoop i]
        pick_ok_move [OF inv'(4), of WkLoop i] mutex_ok_stay [OF inv'(2), of WkLoop i]
      by (simp add: tp_inv_def at_worker_def)
  qed (use step in \<open>simp_all add: worker_step_def\<close>)
qed

lemma AddTask_inv:
  assumes inv: "tp_inv n s" and step: "AddTask task i s = Some s'"
  shows "tp_inv n s'"
proof -
  note inv' = tp_invD [OF inv]
  let ?s = "s\<lparr>pool_queues := push_task task (pool_queues s), added := added s @ [task]\<rparr>"
  have run: "\<not> should_stop s" and s': "s' = wake i ?s" using step by (auto simp: AddTask_def split: if_splits)
  have "exit_ok n (workers s) (should_stop s) (push_task task (pool_queues s))"
    using inv'(5) run by (auto simp: exit_ok_def)
  moreover have "pick_ok (workers s) (should_stop s) (push_task task (pool_queues s))"
    by (simp add: pick_ok_def tasks.push_law)
  ultimately have new: "tp_inv n ?s" using inv' tasks.history_push [OF inv'(1)] by (simp add: tp_inv_def)
  show ?thesis
  proof (cases "workers s i = WkWait")
    case True
    then have "mutex_ok ((workers ?s)(i := WkLoop)) (pdt_csm_mutex ?s)"
      using mutex_ok_stay [OF inv'(2), of WkLoop i] by simp
    then have "tp_inv n (at_worker i WkLoop (?s\<lparr>pdt_csm_mutex := pdt_csm_mutex ?s\<rparr>))"
      using True by (intro quiet_move [OF new]) simp_all
    then show ?thesis using s' True by (simp add: wake_def)
  next
    case False
    then show ?thesis using s' new by (simp add: wake_def)
  qed
qed

lemma stop_pool_inv:
  assumes inv: "tp_inv n s" and step: "stop_pool s = Some s'"
  shows "tp_inv n s'"
proof -
  note inv' = tp_invD [OF inv]
  define w where "w = (\<lambda>i. if workers s i = WkWait then WkLoop else workers s i)"
  have free: "\<not> pdt_csm_mutex s" and s': "s' = s\<lparr>should_stop := True, workers := w\<rparr>"
    using step by (auto simp: stop_pool_def w_def split: if_splits)
  have out: "\<not> inside (workers s i)" for i using inv'(2) free by (auto simp: mutex_ok_def critical_def)
  have "running (w i) = running (workers s i)" for i by (simp add: w_def)
  then have "ran_ok n w (taken s) (ran s)" using inv'(6) by (simp add: ran_ok_def)
  moreover have "mutex_ok w False" using out by (auto simp: mutex_ok_def critical_def w_def)
  moreover have "stop_ok w True" using out by (force simp: stop_ok_def w_def inside_def)
  moreover have "exit_ok n w True (pool_queues s)" using inv'(5) by (auto simp: exit_ok_def w_def)
  moreover have "pick_ok w True (pool_queues s)" by (simp add: pick_ok_def)
  ultimately show ?thesis using inv'(1) free s' by (simp add: tp_inv_def)
qed

lemma ThreadPool_inv: "tp_inv n (ThreadPool n)"
  by (simp add: tp_inv_def ThreadPool_def tasks.history_def all_tasks_def consumers_queue_def producers_queue_def
      mutex_ok_def critical_def stop_ok_def pick_ok_def exit_ok_def ran_ok_def)

lemma pool_run_inv: "pool_run (ThreadPool n) s \<Longrightarrow> tp_inv n s"
proof (induction rule: pool_run.induct)
  case init
  show ?case by (rule ThreadPool_inv)
next
  case (step s s')
  from step.hyps(2) step.IH show ?case
    by cases (auto intro: worker_step_inv AddTask_inv stop_pool_inv)
qed


text \<open>One worker: a run in which it runs a task and ends, and one in which it sleeps on a task.\<close>

datatype pool_action = Work | Add nat | Stop

fun pool_act :: "pool_action \<Rightarrow> nat thread_pool \<Rightarrow> nat thread_pool option" where
  "pool_act Work s = worker_step 0 s"
| "pool_act (Add x) s = AddTask x 0 s"
| "pool_act Stop s = stop_pool s"

fun pool_acts :: "pool_action list \<Rightarrow> nat thread_pool \<Rightarrow> nat thread_pool option" where
  "pool_acts [] s = Some s"
| "pool_acts (a # as) s = (case pool_act a s of None \<Rightarrow> None | Some s' \<Rightarrow> pool_acts as s')"

lemma pool_act_step:
  assumes "tp_inv 1 s" "pool_act a s = Some s'"
  shows "pool_step s s'"
proof (cases a)
  case (Add x)
  have "workers s 0 = WkWait" if "workers s i = WkWait" for i
    using tp_invD(5) [OF assms(1)] that by (cases "i = 0") (auto simp: exit_ok_def)
  then have "someone_waits s \<longrightarrow> workers s 0 = WkWait" unfolding someone_waits_def by blast
  then show ?thesis using assms(2) Add by (auto intro: pool_step.add)
qed (use assms in \<open>auto intro: pool_step.intros\<close>)

lemma pool_acts_run: "pool_acts as s = Some s' \<Longrightarrow> pool_run (ThreadPool 1) s \<Longrightarrow> pool_run (ThreadPool 1) s'"
proof (induction as arbitrary: s)
  case (Cons a as)
  then obtain s1 where s1: "pool_act a s = Some s1" "pool_acts as s1 = Some s'" by (auto split: option.splits)
  have "pool_run (ThreadPool 1) s1"
    using pool_run.step [OF Cons.prems(2)] pool_act_step [OF pool_run_inv [OF Cons.prems(2)] s1(1)] by blast
  then show ?case using Cons.IH s1(2) by blast
qed simp

lemmas pool_run_defs = ThreadPool_def worker_step_def AddTask_def stop_pool_def wake_def at_worker_def
  push_task_def pop_task_def producers_queue_def consumers_queue_def all_tasks_def Let_def

definition ended :: "nat thread_pool" where
  "ended = the (pool_acts [Add 5, Work, Work, Work, Work, Stop, Work, Work, Work] (ThreadPool 1))"

lemma ended: "pool_run (ThreadPool 1) ended" "workers ended i = WkExit" "added ended = [5]" "ran ended = [5]"
proof -
  let ?as = "[Add 5, Work, Work, Work, Work, Stop, Work, Work, Work]"
  have run: "pool_acts ?as (ThreadPool 1) \<noteq> None \<and>
    (\<forall>s. pool_acts ?as (ThreadPool 1) = Some s \<longrightarrow> workers s i = WkExit \<and> added s = [5] \<and> ran s = [5])"
    by (simp add: pool_run_defs)
  then obtain s where s: "pool_acts ?as (ThreadPool 1) = Some s" by blast
  then have "ended = s" by (simp add: ended_def)
  then show "pool_run (ThreadPool 1) ended" "workers ended i = WkExit" "added ended = [5]" "ran ended = [5]"
    using run s pool_acts_run [OF s pool_run.init] by simp_all
qed


text \<open>A task can be left lying: a state is reachable in which a task is queued and the only worker
  waits, because \<open>AddTask\<close> notified between its test and its wait. No worker can move until another task
  is added or the pool is destroyed.\<close>

theorem AddTask_lost_wakeup:
  "\<exists>s. pool_run (ThreadPool 1) s \<and> all_tasks (pool_queues s) = [5 :: nat] \<and> \<not> should_stop s \<and>
       workers s 0 = WkWait \<and> (\<forall>i. worker_step i s = None)"
proof -
  let ?as = "[Work, Work, Add 5, Work]"
  have run: "pool_acts ?as (ThreadPool 1) \<noteq> None \<and>
    (\<forall>s. pool_acts ?as (ThreadPool 1) = Some s \<longrightarrow>
       all_tasks (pool_queues s) = [5] \<and> \<not> should_stop s \<and> workers s 0 = WkWait \<and> (\<forall>i. worker_step i s = None))"
    by (simp add: pool_run_defs)
  then obtain s where "pool_acts ?as (ThreadPool 1) = Some s" by blast
  then show ?thesis using run pool_acts_run [OF _ pool_run.init] by blast
qed

end
