(* ===== verification/Net_Address.thy ===== *)
theory Net_Address
  imports Taotu_Prelude
begin

text \<open>
  Addresses and sockets (\<^verbatim>\<open>src/src/net_address.h\<close>, \<^verbatim>\<open>src/src/net_address.cc\<close>,
  \<^verbatim>\<open>src/src/socketer.h\<close>, \<^verbatim>\<open>src/src/socketer.cc\<close>).

  A \<open>NetAddress\<close> is the memory of its union: 28 bytes, the size of \<open>sockaddr_in6\<close>. The constructors get
  the bytes that were in that memory before. \<open>le\<close> says that the host is little-endian. \<open>inet_pton\<close> and
  \<open>inet_ntop\<close> are arguments, functions between texts and the bytes of an address. A socket is the
  descriptor with the system calls made on it, in order; the results of the calls are arguments.
\<close>

section \<open>Addresses\<close>

type_synonym net_address = "byte list"

definition AF_INET :: "16 word" where "AF_INET = 2"
definition AF_INET6 :: "16 word" where "AF_INET6 = 10"

definition sizeof_in :: nat where "sizeof_in = 16"
definition sizeof_in6 :: nat where "sizeof_in6 = 28"

text \<open>\<open>sockaddr_in\<close>: the family, the port and the address (both in network order), eight bytes of zero.
  \<open>sockaddr_in6\<close> has the flow information before and the scope after its address.\<close>

definition sockaddr_in :: "bool \<Rightarrow> 16 word \<Rightarrow> byte list \<Rightarrow> byte list" where
  "sockaddr_in le port addr = host_image le 2 AF_INET @ host_image le 2 (htobe le 2 port) @ addr @ replicate 8 0"

definition sockaddr_in6 :: "bool \<Rightarrow> 16 word \<Rightarrow> byte list \<Rightarrow> byte list" where
  "sockaddr_in6 le port addr =
     host_image le 2 AF_INET6 @ host_image le 2 (htobe le 2 port) @ replicate 4 0 @ addr @ replicate 4 0"

text \<open>Writing a member of the union leaves the bytes behind it.\<close>

definition put :: "byte list \<Rightarrow> net_address \<Rightarrow> net_address" where
  "put bs a = bs @ drop (length bs) a"

definition INADDR_LOOPBACK :: "32 word" where "INADDR_LOOPBACK = 0x7F000001"
definition INADDR_ANY :: "32 word" where "INADDR_ANY = 0"

definition in6addr_loopback :: "byte list" where "in6addr_loopback = replicate 15 0 @ [1]"
definition in6addr_any :: "byte list" where "in6addr_any = replicate 16 0"

definition NetAddress_port :: "bool \<Rightarrow> 16 word \<Rightarrow> bool \<Rightarrow> bool \<Rightarrow> net_address \<Rightarrow> net_address" where
  "NetAddress_port le port loop_back use_ipv6 mem =
     (if use_ipv6 then put (sockaddr_in6 le port (if loop_back then in6addr_loopback else in6addr_any)) mem
      else put (sockaddr_in le port (host_image le 4 (htobe le 4 (if loop_back then INADDR_LOOPBACK else INADDR_ANY)))) mem)"

text \<open>An address that does not parse is logged and stays zero.\<close>

definition NetAddress_ip ::
  "bool \<Rightarrow> (bool \<Rightarrow> string \<Rightarrow> byte list option) \<Rightarrow> string \<Rightarrow> 16 word \<Rightarrow> bool \<Rightarrow> net_address \<Rightarrow> net_address" where
  "NetAddress_ip le inet_pton ip port use_ipv6 mem =
     (if use_ipv6 \<or> CHR '':'' \<in> set ip
      then put (sockaddr_in6 le port (case inet_pton True ip of None \<Rightarrow> replicate 16 0 | Some addr \<Rightarrow> addr)) mem
      else put (sockaddr_in le port (case inet_pton False ip of None \<Rightarrow> replicate 4 0 | Some addr \<Rightarrow> addr)) mem)"

definition GetFamily :: "bool \<Rightarrow> net_address \<Rightarrow> 16 word" where
  "GetFamily le a = of_host_image le (take 2 a)"

definition GetPort :: "bool \<Rightarrow> net_address \<Rightarrow> 16 word" where
  "GetPort le a = htobe le 2 (of_host_image le (take 2 (drop 2 a)))"

definition GetSize :: "bool \<Rightarrow> net_address \<Rightarrow> nat" where
  "GetSize le a = (if GetFamily le a = AF_INET then sizeof_in else sizeof_in6)"

text \<open>\<open>inet_ntop\<close> gets the address of the structure, not of the address in it: it formats the first bytes
  of the union.\<close>

definition GetIp :: "bool \<Rightarrow> (bool \<Rightarrow> byte list \<Rightarrow> string) \<Rightarrow> net_address \<Rightarrow> string" where
  "GetIp le inet_ntop a =
     (if GetFamily le a = AF_INET6 then inet_ntop True (take 16 a)
      else if GetFamily le a = AF_INET then inet_ntop False (take 4 a)
      else '''')"

text \<open>What \<open>bind\<close> and \<open>connect\<close> get: \<open>GetSize\<close> bytes at \<open>GetNetAddress\<close>.\<close>

definition kernel_address :: "bool \<Rightarrow> net_address \<Rightarrow> byte list" where
  "kernel_address le a = take (GetSize le a) a"

definition SetNetAddress :: "byte list \<Rightarrow> net_address \<Rightarrow> net_address" where
  "SetNetAddress socket_address a = put (take sizeof_in socket_address) a"

definition SetNetAddress6 :: "byte list \<Rightarrow> net_address \<Rightarrow> net_address" where
  "SetNetAddress6 socket_address6 a = put (take sizeof_in6 socket_address6) a"

definition SetRawAddr :: "bool \<Rightarrow> byte list \<Rightarrow> net_address \<Rightarrow> net_address" where
  "SetRawAddr le addr a =
     (if GetFamily le addr = AF_INET then SetNetAddress addr a
      else if GetFamily le addr = AF_INET6 then SetNetAddress6 addr a
      else a)"

lemma of_host_image_host_image [image_simps]:
  fixes x :: "'a::len word"
  assumes "LENGTH('a) = 8 * n"
  shows "of_host_image le (host_image le n x) = x"
  using assms by (simp add: of_host_image_def host_image_def be_word_be_bytes)

lemma family_neq: "AF_INET \<noteq> AF_INET6"
  by (simp add: AF_INET_def AF_INET6_def)

lemma sockaddr_fields:
  "GetFamily le (put (sockaddr_in le port addr) mem) = AF_INET"
  "GetFamily le (put (sockaddr_in6 le port addr6) mem) = AF_INET6"
  "GetPort le (put (sockaddr_in le port addr) mem) = port"
  "GetPort le (put (sockaddr_in6 le port addr6) mem) = port"
  by (simp_all add: GetFamily_def GetPort_def put_def sockaddr_in_def sockaddr_in6_def image_simps)

lemma sockaddr_size:
  "length addr = 4 \<Longrightarrow> length (sockaddr_in le port addr) = sizeof_in"
  "length addr6 = 16 \<Longrightarrow> length (sockaddr_in6 le port addr6) = sizeof_in6"
  by (simp_all add: sockaddr_in_def sockaddr_in6_def sizeof_in_def sizeof_in6_def)

lemma kernel_address_put:
  "length addr = 4 \<Longrightarrow> kernel_address le (put (sockaddr_in le port addr) mem) = sockaddr_in le port addr"
  "length addr6 = 16 \<Longrightarrow> kernel_address le (put (sockaddr_in6 le port addr6) mem) = sockaddr_in6 le port addr6"
  using sockaddr_size [of addr le port] sockaddr_size(2) [of addr6 le port] family_neq
  by (simp_all add: kernel_address_def GetSize_def sockaddr_fields) (simp_all add: put_def)

text \<open>C30. An address built from a text and a port has the family that was asked for or that the text
  shows, gives the port back on hosts of either byte order, and the bytes that the kernel gets are the
  structure of that family, whatever was in the memory of the object before.\<close>

theorem net_address_roundtrip:
  assumes "inet_pton v6 ip = Some addr" and "length addr = (if v6 then 16 else 4)"
    and "v6 \<longleftrightarrow> use_ipv6 \<or> CHR '':'' \<in> set ip"
  shows "let a = NetAddress_ip le inet_pton ip port use_ipv6 mem
         in GetFamily le a = (if v6 then AF_INET6 else AF_INET) \<and> GetPort le a = port \<and>
            kernel_address le a = (if v6 then sockaddr_in6 le port addr else sockaddr_in le port addr) \<and>
            kernel_address le (SetRawAddr le (kernel_address le a) other) = kernel_address le a"
proof -
  define img where "img = (if v6 then sockaddr_in6 le port addr else sockaddr_in le port addr)"
  have a: "NetAddress_ip le inet_pton ip port use_ipv6 mem = put img mem"
    using assms by (auto simp: NetAddress_ip_def img_def)
  have k: "kernel_address le (put img m) = img" for m
    using assms(2) by (cases v6) (simp_all add: img_def kernel_address_put)
  have f: "GetFamily le (put img m) = (if v6 then AF_INET6 else AF_INET)" "GetPort le (put img m) = port" for m
    by (simp_all add: img_def sockaddr_fields)
  have "put img [] = img" by (simp add: put_def)
  then have "GetFamily le img = (if v6 then AF_INET6 else AF_INET)" using f(1) [of "[]"] by simp
  moreover have "length img = (if v6 then sizeof_in6 else sizeof_in)"
    using assms(2) sockaddr_size by (simp add: img_def)
  ultimately have "SetRawAddr le img other = put img other"
    using family_neq by (cases v6) (simp_all add: SetRawAddr_def SetNetAddress_def SetNetAddress6_def)
  then show ?thesis by (simp add: a k f) (simp add: img_def)
qed

theorem net_address_roundtrip_witness:
  "GetPort True (NetAddress_ip True (\<lambda>v6 ip. if ip = ''127.0.0.1'' then Some [127, 0, 0, 1] else None)
     ''127.0.0.1'' 8080 False (replicate 28 0xAB)) = 8080"
  using net_address_roundtrip [of "\<lambda>v6 ip. if ip = ''127.0.0.1'' then Some [127, 0, 0, 1] else None" False
      "''127.0.0.1''" "[127, 0, 0, 1]" False True 8080 "replicate 28 0xAB" "[]"]
  by (simp add: Let_def)

text \<open>The text that \<open>GetIp\<close> returns for an IPv4 address does not depend on the address: it shows the
  family and the port.\<close>

theorem GetIp_ignores_address:
  "GetIp le inet_ntop (NetAddress_port le port loop_back False mem) =
     inet_ntop False (host_image le 2 AF_INET @ host_image le 2 (htobe le 2 port))"
  using sockaddr_fields(1) [of le port] family_neq
  by (simp add: GetIp_def NetAddress_port_def) (simp add: put_def sockaddr_in_def)

section \<open>Sockets\<close>

datatype sys_call =
    Bind "byte list"
  | ListenCall
  | ShutdownWr
  | SetOption string bool
  | CloseFd int

record socketer =
  socket_fd :: int
  sys_calls :: "sys_call list"

definition Socketer :: "int \<Rightarrow> socketer" where
  "Socketer fd = \<lparr>socket_fd = fd, sys_calls = []\<rparr>"

definition sys :: "sys_call \<Rightarrow> socketer \<Rightarrow> socketer" where
  "sys c s = s\<lparr>sys_calls := sys_calls s @ [c]\<rparr>"

text \<open>These calls log a failure and go on, so that the result does not matter.\<close>

definition BindAddress :: "bool \<Rightarrow> net_address \<Rightarrow> socketer \<Rightarrow> socketer" where
  "BindAddress le local_address s = sys (Bind (kernel_address le local_address)) s"

definition Socketer_Listen :: "socketer \<Rightarrow> socketer" where
  "Socketer_Listen s = sys ListenCall s"

definition ShutdownWrite :: "socketer \<Rightarrow> socketer" where
  "ShutdownWrite s = sys ShutdownWr s"

definition Socketer_SetTcpNoDelay :: "bool \<Rightarrow> socketer \<Rightarrow> socketer" where
  "Socketer_SetTcpNoDelay on s = sys (SetOption ''TCP_NODELAY'' on) s"

definition SetReuseAddress :: "bool \<Rightarrow> socketer \<Rightarrow> socketer" where
  "SetReuseAddress on s = sys (SetOption ''SO_REUSEADDR'' on) s"

definition SetReusePort :: "bool \<Rightarrow> socketer \<Rightarrow> socketer" where
  "SetReusePort on s = sys (SetOption ''SO_REUSEPORT'' on) s"

definition SetKeepAlive :: "bool \<Rightarrow> socketer \<Rightarrow> socketer" where
  "SetKeepAlive on s = sys (SetOption ''SO_KEEPALIVE'' on) s"

definition Socketer_Close :: "socketer \<Rightarrow> socketer" where
  "Socketer_Close s = (if socket_fd s \<noteq> - 1 then (sys (CloseFd (socket_fd s)) s)\<lparr>socket_fd := - 1\<rparr> else s)"

text \<open>The flags of a descriptor, and whether \<open>fcntl\<close> can read and write them.\<close>

record fd_flags =
  status_flags :: int
  descriptor_flags :: int

record fcntl_env =
  getfl_ok :: bool
  setfl_ok :: bool
  getfd_ok :: bool
  setfd_ok :: bool

unbundle bit_operations_syntax

definition O_NONBLOCK :: int where "O_NONBLOCK = 2048"
definition FD_CLOEXEC :: int where "FD_CLOEXEC = 1"

definition set_cloexec :: "fcntl_env \<Rightarrow> fd_flags \<Rightarrow> bool \<times> fd_flags" where
  "set_cloexec env f =
     (if \<not> getfd_ok env then (False, f)
      else if descriptor_flags f AND FD_CLOEXEC = 0
      then if setfd_ok env then (True, f\<lparr>descriptor_flags := descriptor_flags f OR FD_CLOEXEC\<rparr>) else (False, f)
      else (True, f))"

definition SetNonBlockAndCloexec :: "fcntl_env \<Rightarrow> fd_flags \<Rightarrow> bool \<times> fd_flags" where
  "SetNonBlockAndCloexec env f =
     (if \<not> getfl_ok env then (False, f)
      else if status_flags f AND O_NONBLOCK = 0
      then if setfl_ok env then set_cloexec env (f\<lparr>status_flags := status_flags f OR O_NONBLOCK\<rparr>) else (False, f)
      else set_cloexec env f)"

text \<open>\<open>socket\<close> with the flags, and without them and \<open>fcntl\<close> afterwards; the arguments are what the two
  calls return and what the flags of the second socket are.\<close>

definition CreateNonblockingTcpSocket :: "int \<Rightarrow> int \<Rightarrow> fcntl_env \<Rightarrow> fd_flags \<Rightarrow> int \<times> fd_flags" where
  "CreateNonblockingTcpSocket fd1 fd2 env f =
     (if 0 \<le> fd1 then (fd1, \<lparr>status_flags = O_NONBLOCK, descriptor_flags = FD_CLOEXEC\<rparr>)
      else if fd2 < 0 then (fd2, f)
      else (fd2, snd (SetNonBlockAndCloexec env f)))"

definition IsAccept4Unavailable :: "int \<Rightarrow> bool" where
  "IsAccept4Unavailable err \<longleftrightarrow> err = ENOSYS \<or> err = EINVAL \<or> err = EPERM"

text \<open>\<open>Accept\<close>: a result is a descriptor with the peer's address, or an error. The fallback \<open>accept\<close> leaves
  the descriptor without the flags, which are then set.\<close>

definition Socketer_Accept ::
  "int + (int \<times> byte list) \<Rightarrow> int + (int \<times> byte list) \<Rightarrow> fcntl_env \<Rightarrow> fd_flags \<Rightarrow> net_address \<Rightarrow>
   int \<times> fd_flags \<times> net_address" where
  "Socketer_Accept accept4 accept env f peer =
     (case accept4 of
        Inr (fd, addr) \<Rightarrow> (fd, \<lparr>status_flags = O_NONBLOCK, descriptor_flags = FD_CLOEXEC\<rparr>, SetNetAddress6 (put addr (replicate sizeof_in6 0)) peer)
      | Inl err \<Rightarrow>
          if IsAccept4Unavailable err
          then (case accept of
                  Inr (fd, addr) \<Rightarrow> (fd, snd (SetNonBlockAndCloexec env f), SetNetAddress6 (put addr (replicate sizeof_in6 0)) peer)
                | Inl err2 \<Rightarrow> (- 1, f, peer))
          else (- 1, f, peer))"

definition nonblocking :: "fd_flags \<Rightarrow> bool" where
  "nonblocking f \<longleftrightarrow> status_flags f AND O_NONBLOCK \<noteq> 0 \<and> descriptor_flags f AND FD_CLOEXEC \<noteq> 0"

lemma or_and_nonzero: "b \<noteq> 0 \<Longrightarrow> (a OR b) AND b \<noteq> (0 :: int)"
proof -
  have "(a OR b) AND b = b" by (rule bit_eqI) (auto simp: bit_simps)
  then show "b \<noteq> 0 \<Longrightarrow> (a OR b) AND b \<noteq> 0" by simp
qed

lemma SetNonBlockAndCloexec_true:
  assumes "SetNonBlockAndCloexec env f = (True, f')"
  shows "nonblocking f'"
  using assms or_and_nonzero [of O_NONBLOCK] or_and_nonzero [of FD_CLOEXEC]
  by (auto simp: SetNonBlockAndCloexec_def set_cloexec_def nonblocking_def O_NONBLOCK_def FD_CLOEXEC_def
      split: if_splits)

text \<open>The destructor after an explicit \<open>Socketer_Close\<close> does not close the descriptor again.\<close>

lemma Socketer_Close_once: "Socketer_Close (Socketer_Close s) = Socketer_Close s"
  by (simp add: Socketer_Close_def sys_def)

end
