(* ===== verification/Tcp_Connector.thy ===== *)
theory Tcp_Connector
  imports Net_Address "HOL-Library.Multiset"
begin

text \<open>
  The connector (\<^verbatim>\<open>src/src/connector.h\<close>, \<^verbatim>\<open>src/src/connector.cc\<close>): it opens a socket, waits until it
  is writable, hands it over when it is connected, and retries after a growing delay when it is not.

  The results of \<open>socket\<close>, \<open>connect\<close> and \<open>getsockopt\<close> are arguments of the operations. What the connector
  asks of its event manager is in \<open>todo\<close>: tasks with their delays in microseconds. \<open>opened\<close>, \<open>closed\<close> and
  \<open>handed\<close> are the descriptors that came from \<open>socket\<close>, were closed, and were passed to the callback, in
  order; they are history.
\<close>

section \<open>State\<close>

datatype ConnectState = kDisconnected | kConnecting | kConnected

datatype connector_task = TaskConnect | TaskStart | TaskRemoveEventer int | TaskDropEventer int

record connector =
  cstate :: ConnectState
  can_connect :: bool
  retry_delay_microseconds :: int
  connector_eventer :: "int option"
  has_callback :: bool
  todo :: "(int \<times> connector_task) list"
  opened :: "int list"
  closed :: "int list"
  handed :: "int list"

definition kMaxRetryDelayMicroseconds :: int where
  "kMaxRetryDelayMicroseconds = 30 * 1000 * 1000"

definition kInitRetryDelayMicroseconds :: int where
  "kInitRetryDelayMicroseconds = 500 * 1000"

definition Connector :: "bool \<Rightarrow> connector" where
  "Connector cb =
     \<lparr>cstate = kDisconnected, can_connect = False, retry_delay_microseconds = kInitRetryDelayMicroseconds,
      connector_eventer = None, has_callback = cb, todo = [], opened = [], closed = [], handed = []\<rparr>"

definition run_after :: "int \<Rightarrow> connector_task \<Rightarrow> connector \<Rightarrow> connector" where
  "run_after delay t c = c\<lparr>todo := todo c @ [(delay, t)]\<rparr>"

definition SetState :: "ConnectState \<Rightarrow> connector \<Rightarrow> connector" where
  "SetState s c = c\<lparr>cstate := s\<rparr>"

definition close_fd :: "int \<Rightarrow> connector \<Rightarrow> connector" where
  "close_fd fd c = c\<lparr>closed := closed c @ [fd]\<rparr>"

section \<open>Operations\<close>

definition Connector_Start :: "connector \<Rightarrow> connector" where
  "Connector_Start c = run_after 0 TaskConnect (c\<lparr>can_connect := True\<rparr>)"

definition Connector_Restart :: "connector \<Rightarrow> connector" where
  "Connector_Restart c =
     Connector_Start ((SetState kDisconnected c)\<lparr>retry_delay_microseconds := kInitRetryDelayMicroseconds\<rparr>)"

definition DoRetrying :: "int \<Rightarrow> connector \<Rightarrow> connector" where
  "DoRetrying fd c =
     (let c1 = SetState kDisconnected (close_fd fd c)
      in if can_connect c1
         then (run_after (retry_delay_microseconds c1) TaskStart c1)
                \<lparr>retry_delay_microseconds := min (retry_delay_microseconds c1 * 2) kMaxRetryDelayMicroseconds\<rparr>
         else c1)"

text \<open>A new eventer takes the place of the old one, whose descriptor stays as it is.\<close>

definition DoConnecting :: "int \<Rightarrow> connector \<Rightarrow> connector" where
  "DoConnecting fd c = (SetState kConnecting c)\<lparr>connector_eventer := Some fd\<rparr>"

definition Connector_Stop :: "connector \<Rightarrow> connector" where
  "Connector_Stop c =
     (let c1 = c\<lparr>can_connect := False\<rparr>
      in if cstate c1 = kConnecting
         then (case connector_eventer c1 of
                 None \<Rightarrow> SetState kDisconnected c1
               | Some fd \<Rightarrow>
                   DoRetrying fd (run_after 0 (TaskRemoveEventer fd) ((SetState kDisconnected c1)\<lparr>connector_eventer := None\<rparr>)))
         else c1)"

text \<open>\<open>sock_fd\<close> is the result of \<open>socket\<close>, \<open>saved_errno\<close> that of \<open>connect\<close>, 0 when it succeeded.\<close>

definition Connect :: "int \<Rightarrow> int \<Rightarrow> connector \<Rightarrow> connector" where
  "Connect sock_fd saved_errno c =
     (if sock_fd < 0 then c
      else
        let c1 = c\<lparr>opened := opened c @ [sock_fd]\<rparr>
        in if saved_errno \<in> {0, EINPROGRESS, EINTR, EISCONN} then DoConnecting sock_fd c1
           else if saved_errno \<in> {EAGAIN, EADDRINUSE, EADDRNOTAVAIL, ECONNREFUSED, ENETUNREACH}
           then DoRetrying sock_fd c1
           else close_fd sock_fd c1)"

definition RemoveAndReset :: "connector \<Rightarrow> int \<times> connector" where
  "RemoveAndReset c =
     (case connector_eventer c of
        None \<Rightarrow> (- 1, c)
      | Some fd \<Rightarrow> (fd, run_after 0 (TaskDropEventer fd) (c\<lparr>connector_eventer := None\<rparr>)))"

text \<open>What the kernel tells of a descriptor: the result of \<open>getsockopt\<close> for \<open>SO_ERROR\<close> with the error number
  and the value it leaves, and the bytes that \<open>getsockname\<close> and \<open>getpeername\<close> write, \<open>None\<close> when they
  fail. Both write at most the 28 bytes they are given.\<close>

record sock_info =
  so_result :: int
  so_errno :: int
  so_error :: int
  sockname :: "byte list option"
  peername :: "byte list option"

definition GetSocketError :: "sock_info \<Rightarrow> int" where
  "GetSocketError k = (if so_result k < 0 then so_errno k else so_error k)"

definition GetLocalSocketAddress6 :: "sock_info \<Rightarrow> net_address" where
  "GetLocalSocketAddress6 k =
     (case sockname k of None \<Rightarrow> replicate sizeof_in6 0 | Some bs \<Rightarrow> put bs (replicate sizeof_in6 0))"

definition GetPeerSocketAddress6 :: "sock_info \<Rightarrow> net_address" where
  "GetPeerSocketAddress6 k =
     (case peername k of None \<Rightarrow> replicate sizeof_in6 0 | Some bs \<Rightarrow> put bs (replicate sizeof_in6 0))"

text \<open>Two addresses of the same family, IPv4 or IPv6, with the same port and the same address.\<close>

definition self_connected :: "bool \<Rightarrow> sock_info \<Rightarrow> bool" where
  "self_connected le k \<longleftrightarrow>
     (let local_address = GetLocalSocketAddress6 k; peer_address = GetPeerSocketAddress6 k
      in if GetFamily le local_address = AF_INET
         then GetPort le local_address = GetPort le peer_address \<and>
              take 4 (drop 4 local_address) = take 4 (drop 4 peer_address)
         else if GetFamily le local_address = AF_INET6
         then GetPort le local_address = GetPort le peer_address \<and>
              take 16 (drop 8 local_address) = take 16 (drop 8 peer_address)
         else False)"

definition Connector_DoWriting :: "bool \<Rightarrow> sock_info \<Rightarrow> connector \<Rightarrow> connector" where
  "Connector_DoWriting le k c =
     (case connector_eventer c of
        None \<Rightarrow> c
      | Some _ \<Rightarrow>
          if cstate c = kConnecting
          then (case RemoveAndReset c of (fd, c1) \<Rightarrow>
                  if GetSocketError k \<noteq> 0 then DoRetrying fd c1
                  else if self_connected le k then DoRetrying fd c1
                  else let c2 = SetState kConnected c1
                       in if can_connect c2 \<and> has_callback c2 then c2\<lparr>handed := handed c2 @ [fd]\<rparr>
                          else close_fd fd c2)
          else c)"

definition Connector_DoWithError :: "connector \<Rightarrow> connector" where
  "Connector_DoWithError c =
     (case connector_eventer c of
        None \<Rightarrow> c
      | Some _ \<Rightarrow>
          if cstate c = kConnecting
          then (case RemoveAndReset c of (fd, c1) \<Rightarrow> DoRetrying fd c1)
          else c)"

lemmas connector_defs = Connector_Start_def Connector_Restart_def DoRetrying_def DoConnecting_def Connector_Stop_def
  Connect_def RemoveAndReset_def Connector_DoWriting_def Connector_DoWithError_def run_after_def SetState_def close_fd_def Let_def

section \<open>The delays\<close>

text \<open>The delay before retry \<open>n\<close>, counted from 0.\<close>

definition backoff :: "nat \<Rightarrow> int" where
  "backoff n = min (500 * 1000 * 2 ^ n) (30 * 1000 * 1000)"

lemma backoff_Suc: "min (backoff n * 2) kMaxRetryDelayMicroseconds = backoff (Suc n)"
  by (simp add: backoff_def kMaxRetryDelayMicroseconds_def min_def)

lemma DoRetrying_on:
  assumes "can_connect c"
  shows "todo (DoRetrying fd c) = todo c @ [(retry_delay_microseconds c, TaskStart)]"
    "can_connect (DoRetrying fd c)"
    "retry_delay_microseconds (DoRetrying fd c) = min (retry_delay_microseconds c * 2) kMaxRetryDelayMicroseconds"
  using assms by (simp_all add: connector_defs)

lemma retry_iterate:
  assumes "can_connect c" "retry_delay_microseconds c = backoff k"
  shows "todo ((DoRetrying fd ^^ n) c) = todo c @ map (\<lambda>i. (backoff (k + i), TaskStart)) [0..<n] \<and>
         can_connect ((DoRetrying fd ^^ n) c) \<and>
         retry_delay_microseconds ((DoRetrying fd ^^ n) c) = backoff (k + n)"
proof (induction n)
  case 0
  then show ?case using assms by simp
next
  case (Suc n)
  then show ?case
    using DoRetrying_on [of "(DoRetrying fd ^^ n) c" fd] backoff_Suc [of "k + n"] by simp
qed


section \<open>The descriptors\<close>

text \<open>How the event manager and the user drive a connector. The user starts it when nothing is under way;
  stopping is allowed at any time.\<close>

definition pending_starts :: "connector \<Rightarrow> nat" where
  "pending_starts c = length (filter (\<lambda>x. snd x = TaskConnect \<or> snd x = TaskStart) (todo c))"

inductive connector_run :: "bool \<Rightarrow> connector \<Rightarrow> bool" for cb where
  init: "connector_run cb (Connector cb)"
| start: "connector_run cb c \<Longrightarrow> pending_starts c = 0 \<Longrightarrow> connector_eventer c = None \<Longrightarrow>
    connector_run cb (Connector_Start c)"
| restart: "connector_run cb c \<Longrightarrow> pending_starts c = 0 \<Longrightarrow> connector_eventer c = None \<Longrightarrow>
    connector_run cb (Connector_Restart c)"
| stop: "connector_run cb c \<Longrightarrow> connector_run cb (Connector_Stop c)"
| run_connect: "connector_run cb c \<Longrightarrow> (d, TaskConnect) \<in> set (todo c) \<Longrightarrow>
    connector_run cb (Connect fd err (c\<lparr>todo := remove1 (d, TaskConnect) (todo c)\<rparr>))"
| run_start: "connector_run cb c \<Longrightarrow> (d, TaskStart) \<in> set (todo c) \<Longrightarrow>
    connector_run cb (Connector_Start (c\<lparr>todo := remove1 (d, TaskStart) (todo c)\<rparr>))"
| writable: "connector_run cb c \<Longrightarrow> connector_run cb (Connector_DoWriting le k c)"
| error: "connector_run cb c \<Longrightarrow> connector_run cb (Connector_DoWithError c)"

definition in_use :: "connector \<Rightarrow> int multiset" where
  "in_use c = (case connector_eventer c of None \<Rightarrow> {#} | Some fd \<Rightarrow> {#fd#})"

definition connector_inv :: "connector \<Rightarrow> bool" where
  "connector_inv c \<longleftrightarrow>
     mset (opened c) = mset (closed c) + mset (handed c) + in_use c \<and>
     pending_starts c + size (in_use c) \<le> 1 \<and>
     (connector_eventer c \<noteq> None \<longrightarrow> cstate c = kConnecting)"

lemma pending_remove1:
  assumes "x \<in> set xs" "P x"
  shows "length (filter P (remove1 x xs)) + 1 = length (filter P xs)"
  using assms by (induction xs) auto

lemma DoRetrying_inv:
  assumes "mset (opened c) = mset (closed c) + mset (handed c) + {#fd#}" "pending_starts c = 0" "connector_eventer c = None"
  shows "connector_inv (DoRetrying fd c)"
  using assms by (auto simp: connector_inv_def connector_defs in_use_def pending_starts_def)

lemma Connector_Stop_inv:
  assumes "connector_inv c"
  shows "connector_inv (Connector_Stop c)"
proof (cases "connector_eventer c")
  case None
  then show ?thesis using assms by (simp add: connector_inv_def connector_defs in_use_def pending_starts_def)
next
  case (Some fd)
  have "connector_inv (DoRetrying fd (run_after 0 (TaskRemoveEventer fd)
      ((SetState kDisconnected (c\<lparr>can_connect := False\<rparr>))\<lparr>connector_eventer := None\<rparr>)))"
    using assms Some
    by (intro DoRetrying_inv) (simp_all add: connector_inv_def run_after_def SetState_def in_use_def pending_starts_def)
  then show ?thesis using assms Some by (simp add: Connector_Stop_def connector_inv_def Let_def)
qed

lemma reset_inv:
  assumes "connector_inv c" "RemoveAndReset c = (fd, c1)" "connector_eventer c \<noteq> None"
  shows "mset (opened c1) = mset (closed c1) + mset (handed c1) + {#fd#}" "pending_starts c1 = 0"
    "connector_eventer c1 = None"
  using assms by (auto simp: connector_inv_def RemoveAndReset_def run_after_def in_use_def pending_starts_def)

lemma DoWriting_inv:
  assumes inv: "connector_inv c"
  shows "connector_inv (Connector_DoWriting le k c)"
proof (cases "connector_eventer c = None")
  case False
  obtain fd c1 where r: "RemoveAndReset c = (fd, c1)" by (cases "RemoveAndReset c")
  note reset = reset_inv [OF inv r False]
  have "cstate c = kConnecting" using inv False by (simp add: connector_inv_def)
  moreover have "connector_inv ((SetState kConnected c1)\<lparr>handed := handed c1 @ [fd]\<rparr>)"
    "connector_inv (close_fd fd (SetState kConnected c1))"
    using reset by (simp_all add: connector_inv_def SetState_def close_fd_def in_use_def pending_starts_def)
  ultimately show ?thesis
    using False r DoRetrying_inv [OF reset] by (auto simp: Connector_DoWriting_def Let_def SetState_def)
qed (use inv in \<open>simp add: Connector_DoWriting_def\<close>)

lemma DoWithError_inv:
  assumes inv: "connector_inv c"
  shows "connector_inv (Connector_DoWithError c)"
proof (cases "connector_eventer c = None")
  case False
  obtain fd c1 where r: "RemoveAndReset c = (fd, c1)" by (cases "RemoveAndReset c")
  show ?thesis
    using False r DoRetrying_inv [OF reset_inv [OF inv r False]] inv by (auto simp: Connector_DoWithError_def)
qed (use inv in \<open>simp add: Connector_DoWithError_def\<close>)

lemma Connect_inv:
  assumes "connector_inv c" "pending_starts c = 0" "connector_eventer c = None"
  shows "connector_inv (Connect fd err c)"
proof (cases "fd < 0")
  case True
  then show ?thesis using assms(1) by (simp add: Connect_def)
next
  case False
  let ?c = "c\<lparr>opened := opened c @ [fd]\<rparr>"
  have c: "mset (opened ?c) = mset (closed ?c) + mset (handed ?c) + {#fd#}" "pending_starts ?c = 0" "connector_eventer ?c = None"
    using assms by (simp_all add: connector_inv_def in_use_def pending_starts_def)
  have "connector_inv (DoConnecting fd ?c)" "connector_inv (close_fd fd ?c)"
    using c by (simp_all add: connector_inv_def DoConnecting_def close_fd_def SetState_def in_use_def pending_starts_def)
  then show ?thesis using False DoRetrying_inv [OF c] by (simp add: Connect_def Let_def)
qed

lemma removed_task:
  assumes inv: "connector_inv c" and t: "(d, t) \<in> set (todo c)" "t = TaskConnect \<or> t = TaskStart"
  shows "connector_inv (c\<lparr>todo := remove1 (d, t) (todo c)\<rparr>)"
    "pending_starts (c\<lparr>todo := remove1 (d, t) (todo c)\<rparr>) = 0" "connector_eventer c = None"
proof -
  have "pending_starts (c\<lparr>todo := remove1 (d, t) (todo c)\<rparr>) + 1 = pending_starts c"
    using pending_remove1 [OF t(1), of "\<lambda>x. snd x = TaskConnect \<or> snd x = TaskStart"] t(2)
    by (simp add: pending_starts_def)
  moreover have "pending_starts c + size (in_use c) \<le> 1" using inv by (simp add: connector_inv_def)
  ultimately have "pending_starts (c\<lparr>todo := remove1 (d, t) (todo c)\<rparr>) = 0 \<and> size (in_use c) = 0" by linarith
  then show "connector_inv (c\<lparr>todo := remove1 (d, t) (todo c)\<rparr>)"
    "pending_starts (c\<lparr>todo := remove1 (d, t) (todo c)\<rparr>) = 0" "connector_eventer c = None"
    using inv by (auto simp: connector_inv_def in_use_def split: option.splits)
qed

lemma Start_inv:
  assumes "connector_inv c" "pending_starts c = 0" "connector_eventer c = None"
  shows "connector_inv (Connector_Start c)" "connector_inv (Connector_Restart c)"
  using assms by (simp_all add: connector_inv_def connector_defs in_use_def pending_starts_def)

lemma connector_run_inv: "connector_run cb c \<Longrightarrow> connector_inv c"
proof (induction rule: connector_run.induct)
  case init
  show ?case by (simp add: connector_inv_def Connector_def in_use_def pending_starts_def)
next
  case (run_connect c d fd err)
  then show ?case using removed_task [of c d TaskConnect] by (intro Connect_inv) simp_all
next
  case (run_start c d)
  then show ?case using removed_task [of c d TaskStart] by (intro Start_inv(1)) simp_all
qed (auto intro: Start_inv Connector_Stop_inv DoWriting_inv DoWithError_inv)


text \<open>A kernel that reports the error \<open>err\<close> for a socket without addresses.\<close>

definition reports :: "int \<Rightarrow> sock_info" where
  "reports err = \<lparr>so_result = 0, so_errno = 0, so_error = err, sockname = None, peername = None\<rparr>"

definition one_retry :: connector where
  "one_retry = Connector_DoWriting True (reports ECONNREFUSED) (Connect 9 115 ((Connector_Start (Connector True))\<lparr>todo := []\<rparr>))"


text \<open>Stopping a connector while it waits for its next attempt is undone: the stopped connector still has
  the task that was scheduled, the task starts it again, and it connects and hands over a descriptor.\<close>

theorem Stop_is_undone:
  "\<exists>c0. let c = Connector_Stop c0; c1 = Connector_Start (c\<lparr>todo := []\<rparr>) in
     connector_run True c \<and> \<not> can_connect c \<and> cstate c = kDisconnected \<and> todo c = [(500 * 1000, TaskStart)] \<and>
     todo c1 = [(0, TaskConnect)] \<and>
     handed (Connector_DoWriting True (reports 0) (Connect 10 EINPROGRESS (c1\<lparr>todo := []\<rparr>))) = [10]"
proof -
  let ?s = "Connector_Start (Connector True)"
  let ?c0 = "Connect 9 ECONNREFUSED (?s\<lparr>todo := remove1 (0, TaskConnect) (todo ?s)\<rparr>)"
  have s: "connector_run True ?s"
    by (rule connector_run.start [OF connector_run.init]) (simp_all add: Connector_def pending_starts_def)
  have todo: "(0, TaskConnect) \<in> set (todo ?s)" by (simp add: connector_defs Connector_def)
  have run: "connector_run True (Connector_Stop ?c0)"
    by (intro connector_run.stop connector_run.run_connect [OF s todo])
  note errs = EINPROGRESS_def EINTR_def EISCONN_def EAGAIN_def EADDRINUSE_def EADDRNOTAVAIL_def ECONNREFUSED_def
  have no_error: "GetSocketError (reports 0) = 0" by (simp add: GetSocketError_def reports_def)
  have "GetFamily True (GetLocalSocketAddress6 (reports 0)) = 0" by code_simp
  then have zero: "\<not> self_connected True (reports 0)" by (simp add: self_connected_def AF_INET_def AF_INET6_def)
  have "Connector_Stop ?c0 = \<lparr>cstate = kDisconnected, can_connect = False, retry_delay_microseconds = 1000 * 1000,
      connector_eventer = None, has_callback = True, todo = [(500 * 1000, TaskStart)], opened = [9], closed = [9],
      handed = []\<rparr>"
    by (simp add: connector_defs Connector_def kInitRetryDelayMicroseconds_def kMaxRetryDelayMicroseconds_def errs)
  then show ?thesis
    using run by (intro exI [of _ ?c0]) (simp add: connector_defs EINPROGRESS_def zero no_error)
qed

text \<open>Starting it twice loses the first descriptor: it is neither closed nor handed over nor watched.\<close>

lemma start_twice_leaks:
  "let c = Connect 10 115 (Connect 9 115 (Connector True))
   in opened c = [9, 10] \<and> closed c = [] \<and> handed c = [] \<and> connector_eventer c = Some 10"
  by (simp add: connector_defs Connector_def EINPROGRESS_def)

end
