(* ===== verification/Tcp_Acceptor.thy ===== *)
theory Tcp_Acceptor
  imports Op_Ownership Net_Address
begin

text \<open>
  The acceptor (\<^verbatim>\<open>src/src/acceptor.h\<close>, \<^verbatim>\<open>src/src/acceptor.cc\<close>): it keeps an accept operation in the ring and
  hands the connections on.

  The acceptor extends the record of its eventer, as it holds one. Its contexts are on a heap, a map from
  addresses. What the kernel answers is \<open>accept_env\<close>. History fields: \<open>given\<close> are the descriptors that
  completions brought, in order, \<open>handled\<close> those that were passed to the callback with their peer
  (\<open>Some\<close>) or closed (\<open>None\<close>), and \<open>idle_closed\<close> the closed placeholders. The callback gets the
  descriptor and does not call the acceptor; the poller serves the acceptor alone.
\<close>

section \<open>State\<close>

datatype accept_fn = AcceptDoneFn

record AcceptContext =
  actx_addr :: "byte list"
  actx_len :: nat

record acceptor = "(nat, accept_fn) eventer" +
  accept_socketer :: socketer
  is_listening :: bool
  idle_fd :: int
  has_new_connection_callback :: bool
  accept_contexts :: "nat \<rightharpoonup> AcceptContext"
  next_accept_context :: nat
  acceptor_alive :: bool
  given :: "int list"
  handled :: "(int \<times> net_address option) list"
  idle_closed :: "int list"
  acceptor_crashed :: "cpp_error option"

text \<open>The answers of \<open>getpeername\<close> (\<open>None\<close>: it fails), \<open>accept\<close> and \<open>open\<close>, and \<open>errno\<close>.\<close>

record accept_env =
  peer_of :: "int \<Rightarrow> byte list option"
  accept_result :: int
  open_result :: int
  errno :: int

definition kMaxEventAmount :: int where
  "kMaxEventAmount = 600000"

definition GetPeerAddress :: "accept_env \<Rightarrow> int \<Rightarrow> net_address" where
  "GetPeerAddress k fd =
     (case peer_of k fd of None \<Rightarrow> replicate sizeof_in6 0 | Some bs \<Rightarrow> put bs (replicate sizeof_in6 0))"

section \<open>Operations\<close>

text \<open>The constructor: \<open>fd\<close> is the socket, \<open>null_fd\<close> what opening \<^verbatim>\<open>/dev/null\<close> gives. \<open>None\<close> is
  \<open>exit(-1)\<close>.\<close>

definition Acceptor ::
  "uring_env \<Rightarrow> bool \<Rightarrow> (nat, accept_fn) poller \<Rightarrow> evt \<Rightarrow> int \<Rightarrow> int \<Rightarrow> net_address \<Rightarrow> bool \<Rightarrow> acceptor option" where
  "Acceptor env le p a fd null_fd listen_address should_reuse_port =
     (let e = RegisterCallback ReadCallback True (Eventer env p a);
          s = Socketer fd
      in if fd < 0 then None
         else Some
           \<lparr>ev_poller = ev_poller e, ev_self = ev_self e, ev_fd = ev_fd e, in_events = in_events e,
            out_events = out_events e, is_handling = is_handling e, registered = registered e,
            accept_socketer = BindAddress le listen_address (SetReusePort should_reuse_port (SetReuseAddress True s)),
            is_listening = False, idle_fd = null_fd, has_new_connection_callback = False,
            accept_contexts = Map.empty, next_accept_context = 0, acceptor_alive = True,
            given = [], handled = [], idle_closed = [], acceptor_crashed = None\<rparr>)"

definition RegisterNewConnectionCallback :: "bool \<Rightarrow> acceptor \<Rightarrow> acceptor" where
  "RegisterNewConnectionCallback is_set w = w\<lparr>has_new_connection_callback := is_set\<rparr>"

text \<open>The destructor, after which the members go: the eventer and the socket. The operations in the ring are
  left as they are.\<close>

definition destroy_acceptor :: "uring_env \<Rightarrow> acceptor \<Rightarrow> acceptor option" where
  "destroy_acceptor env w =
     (case destroy_eventer env w of
        None \<Rightarrow> None
      | Some p \<Rightarrow>
          Some (w\<lparr>is_listening := False, idle_closed := idle_closed w @ [idle_fd w], ev_poller := p,
                  accept_socketer := Socketer_Close (accept_socketer w), acceptor_alive := False\<rparr>))"

definition delete_accept_context :: "nat \<Rightarrow> acceptor \<Rightarrow> acceptor res" where
  "delete_accept_context a w =
     (case accept_contexts w a of
        None \<Rightarrow> Inl DoubleFree
      | Some _ \<Rightarrow> Inr (w\<lparr>accept_contexts := (accept_contexts w)(a := None)\<rparr>))"

definition new_AcceptContext :: AcceptContext where
  "new_AcceptContext = \<lparr>actx_addr = replicate 128 0, actx_len = 128\<rparr>"

definition SubmitAcceptOnce :: "uring_env \<Rightarrow> acceptor \<Rightarrow> acceptor" where
  "SubmitAcceptOnce env w =
     (if \<not> is_listening w then w
      else
        let a = next_accept_context w;
            w1 = w\<lparr>accept_contexts := (accept_contexts w)(a \<mapsto> new_AcceptContext),
                   next_accept_context := Suc a\<rparr>
        in case SubmitAccept env (socket_fd (accept_socketer w1)) (Some a) (Some AcceptDoneFn) 0 True True (ev_poller w1) of
             (key, p) \<Rightarrow>
               if key = 0 then w1\<lparr>ev_poller := p, accept_contexts := (accept_contexts w1)(a := None)\<rparr>
               else w1\<lparr>ev_poller := p\<rparr>)"

definition Acceptor_Listen :: "uring_env \<Rightarrow> acceptor \<Rightarrow> acceptor" where
  "Acceptor_Listen env w =
     SubmitAcceptOnce env (w\<lparr>is_listening := True, accept_socketer := Socketer_Listen (accept_socketer w)\<rparr>)"

definition Acceptor_DoReading :: "uring_env \<Rightarrow> acceptor \<Rightarrow> acceptor" where
  "Acceptor_DoReading env w = SubmitAcceptOnce env w"

text \<open>The two branches of \<open>OnAcceptComplete\<close> on the result.\<close>

definition accept_connection :: "accept_env \<Rightarrow> int \<Rightarrow> acceptor \<Rightarrow> acceptor" where
  "accept_connection k conn_fd w =
     (if has_new_connection_callback w
      then w\<lparr>handled := handled w @ [(conn_fd, Some (GetPeerAddress k conn_fd))]\<rparr>
      else w\<lparr>handled := handled w @ [(conn_fd, None)]\<rparr>)"

definition accept_error :: "accept_env \<Rightarrow> int \<Rightarrow> acceptor \<Rightarrow> acceptor" where
  "accept_error k conn_fd w =
     (let e = (if conn_fd < 0 then - conn_fd else 0);
          saved_errno = (if e = 0 then errno k else e)
      in if \<not> transient saved_errno \<and> saved_errno = EMFILE
         then w\<lparr>idle_closed := idle_closed w @ [idle_fd w, accept_result k], idle_fd := open_result k\<rparr>
         else w)"

definition accept_outcome :: "accept_env \<Rightarrow> int \<Rightarrow> acceptor \<Rightarrow> acceptor" where
  "accept_outcome k conn_fd w =
     (let w0 = (if 0 \<le> conn_fd then w\<lparr>given := given w @ [conn_fd]\<rparr> else w)
      in if 0 \<le> conn_fd \<and> conn_fd \<le> kMaxEventAmount then accept_connection k conn_fd w0
         else accept_error k conn_fd w0)"

text \<open>\<open>op->context\<close> keeps the pointer to the deleted context.\<close>

definition OnAcceptComplete ::
  "uring_env \<Rightarrow> accept_env \<Rightarrow> cqe \<Rightarrow> (nat, accept_fn) IoUringOp \<Rightarrow> acceptor \<Rightarrow>
   ((nat, accept_fn) IoUringOp \<times> acceptor) res" where
  "OnAcceptComplete env k c op w =
     (case op_context op of
        None \<Rightarrow> Inl NullPointer
      | Some a \<Rightarrow>
          if accept_contexts w a = None then Inl UseAfterFree
          else if \<not> acceptor_alive w then Inl UseAfterFree
          else
            let w1 = accept_outcome k (cqe_res c) w
            in if \<not> cqe_more c
               then res_bind (delete_accept_context a w1) (\<lambda>w2.
                      Inr (op, if is_listening w2 then SubmitAcceptOnce env w2 else w2))
               else Inr (op, w1))"

text \<open>The completion function as the poller calls it, and a completion that reaches the poller, with the
  deleters that it runs.\<close>

definition accept_complete :: "uring_env \<Rightarrow> accept_env \<Rightarrow> (nat, accept_fn, acceptor) completion" where
  "accept_complete env k fn c op p w =
     (case OnAcceptComplete env k c op (w\<lparr>ev_poller := p\<rparr>) of
        Inl e \<Rightarrow> (op, p, w\<lparr>acceptor_crashed := Some e\<rparr>)
      | Inr (op', w') \<Rightarrow> (op', ev_poller w', w'\<lparr>acceptor_crashed := None\<rparr>))"

fun run_accept_deleters :: "nat list \<Rightarrow> acceptor \<Rightarrow> acceptor res" where
  "run_accept_deleters [] w = Inr w"
| "run_accept_deleters (a # as) w = res_bind (delete_accept_context a w) (run_accept_deleters as)"

definition accept_cqe :: "uring_env \<Rightarrow> accept_env \<Rightarrow> cqe \<Rightarrow> acceptor \<Rightarrow> acceptor res" where
  "accept_cqe env k c w =
     (case HandleCqe env (accept_complete env k) c (ev_poller w) (w\<lparr>acceptor_crashed := None\<rparr>) of
        (calls, p, w1) \<Rightarrow>
          case acceptor_crashed w1 of
            Some e \<Rightarrow> Inl e
          | None \<Rightarrow> run_accept_deleters (drop (length (deleted (ev_poller w))) (deleted p)) (w1\<lparr>ev_poller := p\<rparr>))"

section \<open>Invariants\<close>

definition accept_op_ok :: "acceptor \<Rightarrow> (nat, accept_fn) IoUringOp \<Rightarrow> bool" where
  "accept_op_ok w op \<longleftrightarrow> op_type op = kAccept \<and> op_completion op = Some AcceptDoneFn \<and> op_context op \<noteq> None \<and>
     op_fd op = socket_fd (accept_socketer w)"

definition acceptor_ok :: "nat set \<Rightarrow> acceptor \<Rightarrow> bool" where
  "acceptor_ok A w \<longleftrightarrow>
     keys_ok (ops (ev_poller w)) (next_key (ev_poller w)) \<and>
     owns A (ops (ev_poller w)) (accept_contexts w) (next_accept_context w) \<and>
     (\<forall>k op. ops (ev_poller w) k = Some op \<longrightarrow> accept_op_ok w op) \<and> acceptor_alive w \<and>
     map fst (handled w) = filter (\<lambda>fd. fd \<le> kMaxEventAmount) (given w)"

text \<open>A listening acceptor has an operation in the ring.\<close>

definition accept_waiting :: "acceptor \<Rightarrow> bool" where
  "accept_waiting w \<longleftrightarrow> (is_listening w \<longrightarrow> ops (ev_poller w) \<noteq> Map.empty)"

text \<open>What \<open>SubmitAcceptOnce\<close> leaves.\<close>

lemma SubmitAcceptOnce_frame:
  "is_listening (SubmitAcceptOnce env w) = is_listening w" "given (SubmitAcceptOnce env w) = given w"
  "handled (SubmitAcceptOnce env w) = handled w" "acceptor_alive (SubmitAcceptOnce env w) = acceptor_alive w"
  "accept_socketer (SubmitAcceptOnce env w) = accept_socketer w"
  "counts (ev_poller w) (ev_poller (SubmitAcceptOnce env w))"
  "deleted (ev_poller (SubmitAcceptOnce env w)) = deleted (ev_poller w)"
  by (simp_all add: SubmitAcceptOnce_def SubmitAccept_def case_prod_beta Let_def submit_op_counts counts_same
      SubmitRead_deleted)

lemma SubmitAcceptOnce_cases:
  assumes "is_listening w" and n: "0 < next_key (ev_poller w)"
  shows "next_key (ev_poller (SubmitAcceptOnce env w)) = next_key (ev_poller w) + 1"
    "next_accept_context (SubmitAcceptOnce env w) = Suc (next_accept_context w)"
    "get_sqe env (sqe_calls (ev_poller w)) \<Longrightarrow>
      ops (ev_poller (SubmitAcceptOnce env w)) = (ops (ev_poller w))(next_key (ev_poller w) \<mapsto>
        mk_op kAccept None (Some (next_accept_context w)) (socket_fd (accept_socketer w)) (Some AcceptDoneFn) True
          (next_key (ev_poller w))) \<and>
      accept_contexts (SubmitAcceptOnce env w) = (accept_contexts w)(next_accept_context w \<mapsto> new_AcceptContext)"
    "\<not> get_sqe env (sqe_calls (ev_poller w)) \<Longrightarrow>
      ops (ev_poller (SubmitAcceptOnce env w)) = ops (ev_poller w) \<and>
      accept_contexts (SubmitAcceptOnce env w) = (accept_contexts w)(next_accept_context w := None)"
  using assms(1) submit_op_fields(2,3) [OF n] submit_op_result [OF n] n [unfolded word_gt_0]
  by (simp_all add: SubmitAcceptOnce_def SubmitAccept_def case_prod_beta Let_def)

lemma SubmitAcceptOnce_ok:
  assumes ok: "acceptor_ok A w" and b: "next_key (ev_poller w) < key_bound"
  shows "acceptor_ok A (SubmitAcceptOnce env w)"
proof (cases "is_listening w")
  case True
  let ?p = "ev_poller w"
  have k: "keys_ok (ops ?p) (next_key ?p)" and own: "owns A (ops ?p) (accept_contexts w) (next_accept_context w)"
    using ok by (simp_all add: acceptor_ok_def)
  have n: "0 < next_key ?p" and fresh: "ops ?p (next_key ?p) = None" using k by (auto simp: keys_ok_def)
  note s = SubmitAcceptOnce_cases [OF True n, of env]
  show ?thesis
  proof (cases "get_sqe env (sqe_calls ?p)")
    case got: True
    show ?thesis
      using ok owns_new [OF own fresh] keys_ok_new [OF k b]
      by (auto simp: acceptor_ok_def accept_op_ok_def s(3) [OF got] s(1,2) SubmitAcceptOnce_frame mk_op_def)
  next
    case False
    then show ?thesis
      using ok owns_failed [OF own] keys_ok_next [OF k b] s(4) [OF False]
      by (auto simp: acceptor_ok_def accept_op_ok_def s(1,2) SubmitAcceptOnce_frame)
  qed
qed (use ok in \<open>simp add: SubmitAcceptOnce_def\<close>)

lemma SubmitAcceptOnce_waiting:
  assumes "0 < next_key (ev_poller w)" and "\<forall>n. get_sqe env n"
  shows "accept_waiting (SubmitAcceptOnce env w)"
proof (cases "is_listening w")
  case True
  then show ?thesis
    using SubmitAcceptOnce_cases(3) [OF True assms(1), of env] assms(2) by (auto simp: accept_waiting_def)
qed (simp add: accept_waiting_def SubmitAcceptOnce_def)

lemma acceptor_okD:
  assumes "acceptor_ok A w"
  shows "0 < next_key (ev_poller w)" "owns A (ops (ev_poller w)) (accept_contexts w) (next_accept_context w)"
    "ops (ev_poller w) k = Some op \<Longrightarrow> accept_op_ok w op"
  using assms by (simp_all add: acceptor_ok_def keys_ok_def)

section \<open>Completions\<close>

lemma accept_outcome_frame:
  "ev_poller (accept_outcome k fd w) = ev_poller w" "accept_contexts (accept_outcome k fd w) = accept_contexts w"
  "next_accept_context (accept_outcome k fd w) = next_accept_context w"
  "acceptor_alive (accept_outcome k fd w) = acceptor_alive w" "is_listening (accept_outcome k fd w) = is_listening w"
  "accept_socketer (accept_outcome k fd w) = accept_socketer w"
  "given (accept_outcome k fd w) = given w @ (if 0 \<le> fd then [fd] else [])"
  by (simp_all add: accept_outcome_def accept_connection_def accept_error_def Let_def)

lemma accept_outcome_handled: "\<exists>xs. handled (accept_outcome k fd w) = handled w @ xs"
  by (simp add: accept_outcome_def accept_connection_def accept_error_def Let_def)

lemma accept_outcome_ok: "acceptor_ok A w \<Longrightarrow> acceptor_ok A (accept_outcome k fd w)"
proof -
  assume ok: "acceptor_ok A w"
  have "map fst (handled (accept_outcome k fd w)) = filter (\<lambda>fd. fd \<le> kMaxEventAmount) (given (accept_outcome k fd w))"
    using ok by (simp add: acceptor_ok_def accept_outcome_def accept_connection_def accept_error_def Let_def)
  then show ?thesis using ok by (simp add: acceptor_ok_def accept_op_ok_def accept_outcome_frame)
qed

lemma acceptor_ok_delete:
  assumes ok: "acceptor_ok A w" and "a \<in> A"
  shows "delete_accept_context a w = Inr (w\<lparr>accept_contexts := (accept_contexts w)(a := None)\<rparr>)"
    "acceptor_ok (A - {a}) (w\<lparr>accept_contexts := (accept_contexts w)(a := None)\<rparr>)"
proof -
  note own = acceptor_okD(2) [OF ok]
  show "delete_accept_context a w = Inr (w\<lparr>accept_contexts := (accept_contexts w)(a := None)\<rparr>)"
    using owns_in_hand [OF own assms(2)] by (auto simp: delete_accept_context_def)
  show "acceptor_ok (A - {a}) (w\<lparr>accept_contexts := (accept_contexts w)(a := None)\<rparr>)"
    using ok owns_delete [OF own assms(2)] by (simp add: acceptor_ok_def accept_op_ok_def)
qed

text \<open>The completion function with its context in hand: it returns, and either leaves the operation to the
  poller, or ends it and submits the next one.\<close>

lemma OnAcceptComplete_more:
  assumes "acceptor_ok {a} w" "op_context op = Some a" "cqe_more c"
  shows "OnAcceptComplete env k c op w = Inr (op, accept_outcome k (cqe_res c) w)"
  using assms owns_in_hand [OF acceptor_okD(2) [OF assms(1)], of a]
  by (auto simp: OnAcceptComplete_def acceptor_ok_def)

lemma OnAcceptComplete_last:
  assumes ok: "acceptor_ok {a} w" and op: "op_context op = Some a" and last: "\<not> cqe_more c"
    and b: "next_key (ev_poller w) < key_bound"
  obtains w' where "OnAcceptComplete env k c op w = Inr (op, w')" "acceptor_ok {} w'"
    "counts (ev_poller w) (ev_poller w')" "deleted (ev_poller w') = deleted (ev_poller w)"
    "given w' = given w @ (if 0 \<le> cqe_res c then [cqe_res c] else [])" "is_listening w' = is_listening w"
    "(\<forall>n. get_sqe env n) \<Longrightarrow> accept_waiting w'" "\<exists>xs. handled w' = handled w @ xs"
proof -
  let ?v = "accept_outcome k (cqe_res c) w"
  let ?d = "?v\<lparr>accept_contexts := (accept_contexts ?v)(a := None)\<rparr>"
  note v = accept_outcome_ok [OF ok, of k "cqe_res c"]
  have d: "delete_accept_context a ?v = Inr ?d" "acceptor_ok {} ?d"
    using acceptor_ok_delete [OF v, of a] by simp_all
  have "OnAcceptComplete env k c op w = Inr (op, SubmitAcceptOnce env ?d)"
    using ok op last owns_in_hand [OF acceptor_okD(2) [OF ok], of a]
    by (auto simp: OnAcceptComplete_def d(1) acceptor_ok_def SubmitAcceptOnce_def)
  moreover have "acceptor_ok {} (SubmitAcceptOnce env ?d)"
    by (rule SubmitAcceptOnce_ok [OF d(2)]) (simp add: accept_outcome_frame b)
  moreover have "(\<forall>n. get_sqe env n) \<Longrightarrow> accept_waiting (SubmitAcceptOnce env ?d)"
    using acceptor_okD(1) [OF ok] by (intro SubmitAcceptOnce_waiting) (simp_all add: accept_outcome_frame)
  ultimately show thesis
    using that SubmitAcceptOnce_frame [where env = env and w = ?d] accept_outcome_handled [of k "cqe_res c" w]
    by (simp add: accept_outcome_frame)
qed

lemma acceptor_ok_taken:
  assumes ok: "acceptor_ok {} w" and op: "ops (ev_poller w) k = Some op" "op_context op = Some a"
  shows "acceptor_ok {a} (w\<lparr>ev_poller := taken k (ev_poller w)\<rparr>)"
  using ok owns_take [OF acceptor_okD(2) [OF ok] op(1)] op(2)
  by (auto simp: acceptor_ok_def accept_op_ok_def keys_ok_def)

lemma acceptor_ok_returned:
  assumes ok: "acceptor_ok {a} w" and op: "ops (ev_poller w) k = None" "op_context op = Some a" "op_deleter op" "accept_op_ok w op"
    and k: "0 < k" "k < next_key (ev_poller w)" and q: "ops q = (ops (ev_poller w))(k \<mapsto> op)" "next_key q = next_key (ev_poller w)"
  shows "acceptor_ok {} (w\<lparr>ev_poller := q\<rparr>)"
  using ok owns_return [OF acceptor_okD(2) [OF ok] op(1-3)] op(4) k
  by (auto simp: acceptor_ok_def accept_op_ok_def keys_ok_def q)

lemma HandleCqe_accept:
  assumes "user_data c \<noteq> 0" "ops p (user_data c) = Some op" "op_completion op = Some fn" "op_type op = kAccept"
  shows "HandleCqe env complete c p w =
    (case complete fn c op (taken (user_data c) p) w of (op', p2, w') \<Rightarrow>
       let p3 = ReleaseBufferFromCqe env c p2
       in ([], if cqe_more c \<and> op_context op' \<noteq> None then p3\<lparr>ops := (ops p3)(user_data c \<mapsto> op')\<rparr> else p3, w'))"
  using assms by (simp add: HandleCqe_def LookupOp_def taken_def Let_def)

lemma acceptor_ok_quiet:
  "acceptor_ok A (w\<lparr>acceptor_crashed := x\<rparr>) = acceptor_ok A w"
  "ops q = ops (ev_poller w) \<Longrightarrow> next_key q = next_key (ev_poller w) \<Longrightarrow> acceptor_ok A (w\<lparr>ev_poller := q\<rparr>) = acceptor_ok A w"
  by (simp_all add: acceptor_ok_def accept_op_ok_def)

text \<open>What a completion does to an acceptor in a good state.\<close>

definition accept_step :: "uring_env \<Rightarrow> cqe \<Rightarrow> acceptor \<Rightarrow> acceptor \<Rightarrow> bool" where
  "accept_step env c w w' \<longleftrightarrow>
     acceptor_ok {} w' \<and> counts (ev_poller w) (ev_poller w') \<and> is_listening w' = is_listening w \<and>
     given w' = given w @ (if user_data c \<noteq> 0 \<and> ops (ev_poller w) (user_data c) \<noteq> None \<and> 0 \<le> cqe_res c
                           then [cqe_res c] else []) \<and> (\<exists>xs. handled w' = handled w @ xs) \<and>
     ((\<forall>n. get_sqe env n) \<longrightarrow> accept_waiting w \<longrightarrow> accept_waiting w')"

lemma accept_cqe_unknown:
  assumes ok: "acceptor_ok {} w" and c: "user_data c = 0 \<or> ops (ev_poller w) (user_data c) = None"
  shows "\<exists>w'. accept_cqe env k c w = Inr w' \<and> accept_step env c w w'"
proof -
  let ?q = "ReleaseBufferFromCqe env c (ev_poller w)"
  have "accept_cqe env k c w = Inr (w\<lparr>acceptor_crashed := None, ev_poller := ?q\<rparr>)"
    using c by (simp add: accept_cqe_def HandleCqe_unknown ReleaseBuffer_fields)
  moreover have "acceptor_ok {} (w\<lparr>acceptor_crashed := None, ev_poller := ?q\<rparr>)"
    using ok acceptor_ok_quiet(2) [of ?q "w\<lparr>acceptor_crashed := None\<rparr>"]
    by (simp add: ReleaseBuffer_fields acceptor_ok_quiet(1))
  ultimately show ?thesis
    using c by (auto simp: accept_step_def counts_ReleaseBuffer accept_waiting_def ReleaseBuffer_fields)
qed

lemma accept_cqe_more:
  assumes ok: "acceptor_ok {} w" and op: "user_data c \<noteq> 0" "ops (ev_poller w) (user_data c) = Some op" and more: "cqe_more c"
  shows "\<exists>w'. accept_cqe env k c w = Inr w' \<and> accept_step env c w w'"
proof -
  let ?p = "ev_poller w" and ?k = "user_data c" and ?v = "w\<lparr>acceptor_crashed := None\<rparr>"
  let ?t = "taken ?k ?p"
  note o = acceptor_okD(3) [OF ok op(2)]
  obtain a where a: "op_context op = Some a" using o by (auto simp: accept_op_ok_def)
  have del: "op_deleter op" using acceptor_okD(2) [OF ok] op(2) a by (auto simp: owns_def)
  have kb: "0 < ?k" "?k < next_key ?p" using ok op(2) by (auto simp: acceptor_ok_def keys_ok_def)
  have t: "acceptor_ok {a} (?v\<lparr>ev_poller := ?t\<rparr>)"
    using acceptor_ok_taken [of ?v ?k op a] ok op(2) a by (simp add: acceptor_ok_quiet(1))
  let ?x = "accept_outcome k (cqe_res c) (?v\<lparr>ev_poller := ?t\<rparr>)"
  let ?r = "ReleaseBufferFromCqe env c ?t"
  let ?q = "?r\<lparr>ops := (ops ?r)(?k \<mapsto> op)\<rparr>"
  have "accept_complete env k AcceptDoneFn c op ?t ?v = (op, ?t, ?x\<lparr>acceptor_crashed := None\<rparr>)"
    using OnAcceptComplete_more [OF t a more] by (simp add: accept_complete_def accept_outcome_frame)
  then have "HandleCqe env (accept_complete env k) c ?p ?v = ([], ?q, ?x\<lparr>acceptor_crashed := None\<rparr>)"
    using HandleCqe_accept [OF op, of AcceptDoneFn env "accept_complete env k" ?v] o more a
    by (simp add: accept_op_ok_def Let_def)
  then have r: "accept_cqe env k c w = Inr (?x\<lparr>acceptor_crashed := None, ev_poller := ?q\<rparr>)"
    by (simp add: accept_cqe_def ReleaseBuffer_fields)
  have x: "acceptor_ok {a} (?x\<lparr>acceptor_crashed := None\<rparr>)"
    using accept_outcome_ok [OF t] by (simp add: acceptor_ok_quiet(1))
  have "acceptor_ok {} (?x\<lparr>acceptor_crashed := None, ev_poller := ?q\<rparr>)"
    using acceptor_ok_returned [OF x, of ?k op ?q] a del o kb
    by (simp add: accept_outcome_frame ReleaseBuffer_fields accept_op_ok_def)
  moreover have "counts ?p ?q"
  proof -
    have "counts ?p ?t" by (rule counts_same) simp_all
    moreover have "counts ?r ?q" by (rule counts_same) simp_all
    ultimately show ?thesis using counts_ReleaseBuffer [of ?t env c] counts_trans by blast
  qed
  ultimately show ?thesis
    using r op accept_outcome_handled [of k "cqe_res c" "?v\<lparr>ev_poller := ?t\<rparr>"]
    by (auto simp: accept_step_def accept_outcome_frame accept_waiting_def)
qed

lemma accept_cqe_last:
  assumes ok: "acceptor_ok {} w" and op: "user_data c \<noteq> 0" "ops (ev_poller w) (user_data c) = Some op"
    and last: "\<not> cqe_more c" and b: "next_key (ev_poller w) < key_bound"
  shows "\<exists>w'. accept_cqe env k c w = Inr w' \<and> accept_step env c w w'"
proof -
  let ?p = "ev_poller w" and ?v = "w\<lparr>acceptor_crashed := None\<rparr>"
  let ?t = "taken (user_data c) ?p"
  note o = acceptor_okD(3) [OF ok op(2)]
  obtain a where a: "op_context op = Some a" using o by (auto simp: accept_op_ok_def)
  have t: "acceptor_ok {a} (?v\<lparr>ev_poller := ?t\<rparr>)"
    using acceptor_ok_taken [of ?v "user_data c" op a] ok op(2) a by (simp add: acceptor_ok_quiet(1))
  obtain x where x: "OnAcceptComplete env k c op (?v\<lparr>ev_poller := ?t\<rparr>) = Inr (op, x)" "acceptor_ok {} x"
    "counts ?t (ev_poller x)" "deleted (ev_poller x) = deleted ?t"
    "given x = given w @ (if 0 \<le> cqe_res c then [cqe_res c] else [])" "is_listening x = is_listening w"
    "(\<forall>n. get_sqe env n) \<Longrightarrow> accept_waiting x" "\<exists>xs. handled x = handled w @ xs"
    using OnAcceptComplete_last [OF t a last, of env k] b by auto
  let ?q = "ReleaseBufferFromCqe env c (ev_poller x)"
  have "accept_complete env k AcceptDoneFn c op ?t ?v = (op, ev_poller x, x\<lparr>acceptor_crashed := None\<rparr>)"
    using x(1) by (simp add: accept_complete_def)
  then have "HandleCqe env (accept_complete env k) c ?p ?v = ([], ?q, x\<lparr>acceptor_crashed := None\<rparr>)"
    using HandleCqe_accept [OF op, of AcceptDoneFn env "accept_complete env k" ?v] o last
    by (simp add: accept_op_ok_def Let_def)
  then have r: "accept_cqe env k c w = Inr (x\<lparr>acceptor_crashed := None, ev_poller := ?q\<rparr>)"
    using x(4) by (simp add: accept_cqe_def ReleaseBuffer_fields)
  have "acceptor_ok {} (x\<lparr>acceptor_crashed := None, ev_poller := ?q\<rparr>)"
    using x(2) acceptor_ok_quiet(2) [of ?q "x\<lparr>acceptor_crashed := None\<rparr>"]
    by (simp add: ReleaseBuffer_fields acceptor_ok_quiet(1))
  moreover have "counts ?p ?q"
  proof -
    have "counts ?p ?t" by (rule counts_same) simp_all
    then show ?thesis using x(3) counts_ReleaseBuffer [of "ev_poller x" env c] counts_trans by blast
  qed
  ultimately show ?thesis
    using r op x(5-8) by (auto simp: accept_step_def accept_waiting_def ReleaseBuffer_fields)
qed

lemma accept_cqe_sound:
  assumes "acceptor_ok {} w" and "next_key (ev_poller w) < key_bound"
  obtains w' where "accept_cqe env k c w = Inr w'" "accept_step env c w w'"
  using accept_cqe_unknown [OF assms(1)] accept_cqe_more [OF assms(1)] accept_cqe_last [OF assms(1) _ _ _ assms(2)]
  by (metis not_None_eq)

section \<open>Runs\<close>

inductive accept_reach :: "uring_env \<Rightarrow> acceptor \<Rightarrow> bool" for env where
  start: "Poller env var queue_init supported waited = Some p \<Longrightarrow> Fd env a = fd \<Longrightarrow>
    Acceptor env le p a fd null_fd addr reuse = Some w \<Longrightarrow> accept_reach env w"
| callback: "accept_reach env w \<Longrightarrow> accept_reach env (RegisterNewConnectionCallback b w)"
| listen: "accept_reach env w \<Longrightarrow> accept_reach env (Acceptor_Listen env w)"
| reading: "accept_reach env w \<Longrightarrow> accept_reach env (Acceptor_DoReading env w)"
| completion: "accept_reach env w \<Longrightarrow> accept_cqe env k c w = Inr w' \<Longrightarrow> accept_reach env w'"

definition accept_inv :: "uring_env \<Rightarrow> acceptor \<Rightarrow> bool" where
  "accept_inv env w \<longleftrightarrow> key_count (ev_poller w) \<and>
     (few_calls (ev_poller w) \<longrightarrow> acceptor_ok {} w \<and> ((\<forall>n. get_sqe env n) \<longrightarrow> accept_waiting w))"

lemma accept_inv_step:
  assumes inv: "accept_inv env w" and c: "counts (ev_poller w) (ev_poller w')"
    and step: "acceptor_ok {} w \<Longrightarrow> next_key (ev_poller w) < key_bound \<Longrightarrow>
      acceptor_ok {} w' \<and> ((\<forall>n. get_sqe env n) \<longrightarrow> accept_waiting w \<longrightarrow> accept_waiting w')"
  shows "accept_inv env w'"
proof -
  have k: "key_count (ev_poller w)" "key_count (ev_poller w')" using inv c by (simp_all add: accept_inv_def counts_def)
  show ?thesis
  proof (cases "few_calls (ev_poller w')")
    case True
    then have few: "few_calls (ev_poller w)" by (rule counts_few [OF c])
    then show ?thesis
      using inv step few_bound(1) [OF k(1) few] k by (auto simp: accept_inv_def)
  qed (simp add: accept_inv_def k)
qed

lemma submit_inv:
  assumes "accept_inv env w"
  shows "accept_inv env (SubmitAcceptOnce env w)"
  by (rule accept_inv_step [OF assms SubmitAcceptOnce_frame(6)])
    (use SubmitAcceptOnce_ok SubmitAcceptOnce_waiting acceptor_okD(1) in blast)

text \<open>The acceptor keeps the contract of the poller's clients: it acts through the public operations, and
  holds no key.\<close>

lemma SubmitAcceptOnce_api: "(poller_api env)\<^sup>*\<^sup>* (ev_poller w) (ev_poller (SubmitAcceptOnce env w))"
  using poller_api.accept_op [of env "ev_poller w"]
  by (auto simp: SubmitAcceptOnce_def case_prod_beta Let_def)

lemma OnAcceptComplete_api:
  assumes "OnAcceptComplete env k c op w = Inr (op', w')"
  shows "op' = op" "counts (ev_poller w) (ev_poller w')" "(poller_api env)\<^sup>*\<^sup>* (ev_poller w) (ev_poller w')"
proof -
  let ?v = "accept_outcome k (cqe_res c) w"
  have r: "op' = op \<and> (w' = ?v \<or> (\<exists>a. w' = SubmitAcceptOnce env (?v\<lparr>accept_contexts := (accept_contexts ?v)(a := None)\<rparr>)))"
    using assms by (auto simp: OnAcceptComplete_def Let_def res_bind_Inr_iff delete_accept_context_def SubmitAcceptOnce_def
        split: option.splits if_splits)
  then show "op' = op" by simp
  show "counts (ev_poller w) (ev_poller w')"
    using r SubmitAcceptOnce_frame(6) [of "?v\<lparr>accept_contexts := x\<rparr>" env for x]
    by (auto simp: accept_outcome_frame counts_same)
  show "(poller_api env)\<^sup>*\<^sup>* (ev_poller w) (ev_poller w')"
    using r SubmitAcceptOnce_api [of env "?v\<lparr>accept_contexts := x\<rparr>" for x] by (auto simp: accept_outcome_frame)
qed

lemma accept_keeps_contract: "callbacks_ok env (\<lambda>w. {}) (accept_complete env k)"
  unfolding callbacks_ok_def
proof (intro allI impI)
  fix fn c op p w op' p' w'
  assume call: "accept_complete env k fn c op p w = (op', p', w')"
  have "op' = op \<and> counts p p' \<and> (poller_api env)\<^sup>*\<^sup>* p p'"
  proof (cases "OnAcceptComplete env k c op (w\<lparr>ev_poller := p\<rparr>)")
    case (Inl e)
    then show ?thesis using call by (auto simp: accept_complete_def counts_same)
  next
    case (Inr r)
    obtain op1 w1 where r: "r = (op1, w1)" by fastforce
    then show ?thesis using call Inr OnAcceptComplete_api [of env k c op "w\<lparr>ev_poller := p\<rparr>" op1 w1]
      by (auto simp: accept_complete_def)
  qed
  then show "counts p p' \<and> (key_count p \<longrightarrow> few_calls p' \<longrightarrow> (\<forall>k\<in>{}. safe_key p k) \<longrightarrow>
      (poller_api env)\<^sup>*\<^sup>* p p' \<and> (\<exists>x. op' = op\<lparr>op_context := x\<rparr>) \<and> (\<forall>k\<in>{}. safe_key p' k))"
    by (auto intro: exI [of _ "op_context op"])
qed

lemma run_accept_deleters_poller: "run_accept_deleters ds w = Inr w' \<Longrightarrow> ev_poller w' = ev_poller w"
  by (induction ds arbitrary: w) (auto simp: res_bind_Inr_iff delete_accept_context_def split: option.splits)

lemma accept_cqe_counts:
  assumes "accept_cqe env k c w = Inr w'"
  shows "counts (ev_poller w) (ev_poller w')"
proof -
  have "ev_poller w' = cqe_poller env (accept_complete env k) c (ev_poller w) (w\<lparr>acceptor_crashed := None\<rparr>)"
    using assms run_accept_deleters_poller by (auto simp: accept_cqe_def case_prod_beta split: option.splits)
  then show ?thesis using HandleCqe_counts [OF accept_keeps_contract] by simp
qed

lemma accept_start:
  assumes "Poller env var queue_init supported waited = Some p" "Acceptor env le p a fd null_fd addr reuse = Some w"
  shows "accept_inv env w"
proof -
  note f = Poller_fields(2,3) [OF assms(1)]
  have "ev_poller w = AddEventer env a 0 p \<and> accept_contexts w = Map.empty \<and> acceptor_alive w \<and> given w = [] \<and>
      handled w = [] \<and> \<not> is_listening w"
    using assms(2) by (auto simp: Acceptor_def Let_def RegisterCallback_def Eventer_def split: if_splits)
  then show ?thesis
    by (simp add: accept_inv_def key_count_def acceptor_ok_def keys_ok_def accept_waiting_def AddEventer_ops f)
qed

lemma accept_reach_inv: "accept_reach env w \<Longrightarrow> accept_inv env w"
proof (induction rule: accept_reach.induct)
  case (start var queue_init supported waited p a fd le null_fd addr reuse w)
  then show ?case using accept_start by blast
next
  case (callback w b)
  then show ?case
    by (simp add: accept_inv_def RegisterNewConnectionCallback_def acceptor_ok_def accept_op_ok_def accept_waiting_def)
next
  case (listen w)
  let ?w = "w\<lparr>is_listening := True, accept_socketer := Socketer_Listen (accept_socketer w)\<rparr>"
  show ?case
    unfolding Acceptor_Listen_def
  proof (rule accept_inv_step [OF listen.IH])
    show "counts (ev_poller w) (ev_poller (SubmitAcceptOnce env ?w))"
      using SubmitAcceptOnce_frame(6) [of ?w env] by simp
    assume ok: "acceptor_ok {} w" and b: "next_key (ev_poller w) < key_bound"
    have "acceptor_ok {} ?w" using ok by (simp add: acceptor_ok_def accept_op_ok_def Socketer_Listen_def sys_def)
    then show "acceptor_ok {} (SubmitAcceptOnce env ?w) \<and>
        ((\<forall>n. get_sqe env n) \<longrightarrow> accept_waiting w \<longrightarrow> accept_waiting (SubmitAcceptOnce env ?w))"
      using SubmitAcceptOnce_ok [of "{}" ?w env] SubmitAcceptOnce_waiting [of ?w env] acceptor_okD(1) [OF ok] b by simp
  qed
next
  case (reading w)
  then show ?case by (simp add: Acceptor_DoReading_def submit_inv)
next
  case (completion w k c w')
  show ?case
  proof (rule accept_inv_step [OF completion.IH accept_cqe_counts [OF completion.hyps(2)]])
    assume "acceptor_ok {} w" "next_key (ev_poller w) < key_bound"
    from accept_cqe_sound [OF this, of env k c] completion.hyps(2)
    show "acceptor_ok {} w' \<and> ((\<forall>n. get_sqe env n) \<longrightarrow> accept_waiting w \<longrightarrow> accept_waiting w')"
      by (auto simp: accept_step_def)
  qed
qed

section \<open>Theorems\<close>

text \<open>A listening acceptor with a callback on a new poller, and a connection that arrives.\<close>

definition sample_acceptor :: acceptor where
  "sample_acceptor =
     (case Acceptor sample_env True sample_poller 1 7 8 (replicate sizeof_in6 0) False of
        Some w \<Rightarrow> Acceptor_Listen sample_env (RegisterNewConnectionCallback True w))"

definition sample_kernel :: accept_env where
  "sample_kernel = \<lparr>peer_of = (\<lambda>fd. None), accept_result = - 1, open_result = 8, errno = 0\<rparr>"

definition sample_connection :: cqe where
  "sample_connection = \<lparr>user_data = 1, cqe_res = 9, cqe_flags = F_MORE\<rparr>"

lemmas sample_acceptor_defs = sample_acceptor_def Acceptor_def Acceptor_Listen_def RegisterNewConnectionCallback_def
  RegisterCallback_def Eventer_def AddEventer_def SubmitPoll_def SubmitPending_def Let_def sample_env_def
  sample_poller_def empty_poller_def SubmitAcceptOnce_def SubmitAccept_def submit_op_def NormalizeKey_def
  io_uring_get_sqe_def prep_def mk_op_def BindAddress_def SetReusePort_def SetReuseAddress_def Socketer_def
  Socketer_Listen_def sys_def

lemma sample_acceptor_facts:
  "accept_reach sample_env sample_acceptor" "few_calls (ev_poller sample_acceptor)" "is_listening sample_acceptor"
  "\<exists>op. ops (ev_poller sample_acceptor) 1 = Some op \<and> op_context op = Some 0 \<and> op_type op = kAccept \<and>
     op_completion op = Some AcceptDoneFn"
  "given sample_acceptor = []" "accept_contexts sample_acceptor 0 \<noteq> None"
  "out_events sample_acceptor = 0" "\<not> is_handling sample_acceptor"
proof -
  obtain w where w: "Acceptor sample_env True sample_poller 1 7 8 (replicate sizeof_in6 0) False = Some w"
    by (simp add: Acceptor_def Let_def)
  then have e: "sample_acceptor = Acceptor_Listen sample_env (RegisterNewConnectionCallback True w)"
    unfolding sample_acceptor_def by simp
  have "Fd sample_env 1 = 7" by (simp add: sample_env_def)
  then show "accept_reach sample_env sample_acceptor"
    unfolding e by (intro accept_reach.listen accept_reach.callback accept_reach.start [OF sample_poller_eq _ w])
qed (simp_all add: sample_acceptor_defs few_calls_def)

text \<open>C22. A completion never makes the acceptor use or free a context that is gone, and every descriptor up to
  600000 that the kernel has given is passed to the callback or closed, once and in order. The hypothesis
  says that fewer than \<open>2\<^sup>6\<^sup>2\<close> entries of the ring were asked for.\<close>

theorem acceptor_safe:
  assumes "accept_reach env w" and "few_calls (ev_poller w)"
  shows "\<exists>w'. accept_cqe env k c w = Inr w' \<and>
     map fst (handled w') = filter (\<lambda>fd. fd \<le> kMaxEventAmount) (given w') \<and>
     given w' = given w @ (if user_data c \<noteq> 0 \<and> ops (ev_poller w) (user_data c) \<noteq> None \<and> 0 \<le> cqe_res c
                           then [cqe_res c] else [])"
proof -
  have ok: "acceptor_ok {} w" "next_key (ev_poller w) < key_bound"
    using accept_reach_inv [OF assms(1)] assms(2) few_bound(1) by (auto simp: accept_inv_def)
  obtain w' where "accept_cqe env k c w = Inr w'" "accept_step env c w w'"
    by (rule accept_cqe_sound [OF ok])
  then show ?thesis by (auto simp: accept_step_def acceptor_ok_def)
qed

theorem acceptor_safe_witness:
  "\<exists>w'. accept_cqe sample_env sample_kernel sample_connection sample_acceptor = Inr w' \<and> map fst (handled w') = [9]"
  using acceptor_safe [OF sample_acceptor_facts(1,2), of sample_kernel sample_connection] sample_acceptor_facts(4,5)
  by (auto simp: sample_connection_def kMaxEventAmount_def)

text \<open>C28. As long as the ring has room, a listening acceptor has an accept operation on its socket in the
  ring, whatever completions it got: it never stops accepting.\<close>

theorem acceptor_keeps_listening:
  assumes "accept_reach env w" and "few_calls (ev_poller w)" and "\<forall>n. get_sqe env n" and "is_listening w"
  shows "\<exists>key op. ops (ev_poller w) key = Some op \<and> op_type op = kAccept \<and>
     op_fd op = socket_fd (accept_socketer w) \<and> op_completion op = Some AcceptDoneFn"
proof -
  have ok: "acceptor_ok {} w" "accept_waiting w"
    using accept_reach_inv [OF assms(1)] assms(2,3) by (auto simp: accept_inv_def)
  then obtain key op where "ops (ev_poller w) key = Some op"
    using assms(4) by (auto simp: accept_waiting_def fun_eq_iff)
  then show ?thesis using acceptor_okD(3) [OF ok(1)] by (auto simp: accept_op_ok_def)
qed

theorem acceptor_keeps_listening_witness:
  "is_listening sample_acceptor \<and> (\<exists>key op. ops (ev_poller sample_acceptor) key = Some op \<and> op_fd op = 7)"
proof -
  have "socket_fd (accept_socketer sample_acceptor) = 7" by (simp add: sample_acceptor_defs)
  moreover have "\<forall>n. get_sqe sample_env n" by (simp add: sample_env_def)
  ultimately show ?thesis
    using acceptor_keeps_listening [OF sample_acceptor_facts(1,2) _ sample_acceptor_facts(3)] sample_acceptor_facts(3) by metis
qed

text \<open>C40. Destroying an acceptor does not cancel its operation: a connection that arrives afterwards uses the
  destroyed acceptor.\<close>

theorem destroyed_acceptor_used:
  "\<exists>w w'. accept_reach sample_env w \<and> destroy_acceptor sample_env w = Some w' \<and>
     accept_cqe sample_env sample_kernel sample_connection w' = Inl UseAfterFree"
proof -
  let ?w = sample_acceptor
  obtain op where op: "ops (ev_poller ?w) 1 = Some op" "op_context op = Some 0" "op_type op = kAccept"
    "op_completion op = Some AcceptDoneFn"
    using sample_acceptor_facts(4) by blast
  obtain w' where w': "destroy_acceptor sample_env ?w = Some w'"
    using sample_acceptor_facts(8) by (simp add: destroy_acceptor_def destroy_eventer_def)
  have "ops (RemoveEventer env e p) = ops p" for env e and p :: "(nat, accept_fn) poller"
    by (simp add: RemoveEventer_def CancelPoll_def io_uring_get_sqe_def prep_def Let_def split: option.splits)
  then have d: "ops (ev_poller w') 1 = Some op" "\<not> acceptor_alive w'"
    using w' op(1) by (auto simp: destroy_acceptor_def destroy_eventer_def RemoveMyself_def split: if_splits)
  let ?c = "sample_connection" and ?v = "w'\<lparr>acceptor_crashed := None\<rparr>"
  have "accept_complete sample_env sample_kernel AcceptDoneFn ?c op (taken 1 (ev_poller w')) ?v =
      (op, taken 1 (ev_poller w'), ?v\<lparr>acceptor_crashed := Some UseAfterFree\<rparr>)"
    using op(2) d(2) by (simp add: accept_complete_def OnAcceptComplete_def)
  then have "acceptor_crashed (snd (snd (HandleCqe sample_env (accept_complete sample_env sample_kernel) ?c (ev_poller w') ?v)))
      = Some UseAfterFree"
    using HandleCqe_accept [of ?c "ev_poller w'" op AcceptDoneFn sample_env "accept_complete sample_env sample_kernel" ?v] op d
    by (simp add: sample_connection_def Let_def)
  then have "accept_cqe sample_env sample_kernel ?c w' = Inl UseAfterFree" by (simp add: accept_cqe_def case_prod_beta)
  then show ?thesis using sample_acceptor_facts(1) w' by blast
qed

text \<open>When the ring is full at the wrong moment, the acceptor has no operation left and stays deaf.\<close>

lemma full_ring_deafens:
  "\<not> get_sqe env (sqe_calls (ev_poller w)) \<Longrightarrow> 0 < next_key (ev_poller w) \<Longrightarrow> ops (ev_poller w) = Map.empty \<Longrightarrow>
   is_listening w \<Longrightarrow> is_listening (SubmitAcceptOnce env w) \<and> ops (ev_poller (SubmitAcceptOnce env w)) = Map.empty"
  using SubmitAcceptOnce_cases(4) [of w env] by (simp add: SubmitAcceptOnce_frame)

end
