(* ===== verification/Rpc_Channel.thy ===== *)
theory Rpc_Channel
  imports Rpc_Codec
begin

text \<open>
  The RPC channels (\<^verbatim>\<open>src/src/rpc_channel.h\<close>, \<^verbatim>\<open>src/src/rpc_channel.cc\<close>) and the RPC server
  (\<^verbatim>\<open>src/src/rpc_server.cc\<close>): a channel turns the calls of generated stubs into messages and matches the
  answers to the calls; on the side of the server it dispatches requests to the registered services.

  Protocol Buffers is an argument: \<open>parse v bytes\<close> is \<open>ParseFromString\<close> on an object with the value
  \<open>v\<close> (whether it succeeded, and the value afterwards), \<open>ser\<close> is \<open>SerializeAsString\<close>. A service is a
  map from method names; a method has the prototypes of its messages and the function \<open>serve\<close>, \<open>Some\<close>
  the response when it runs its closure before it returns, \<open>None\<close> when it keeps the closure. Messages and
  closures are objects with an address. \<open>done_runs\<close> are the closures of calls that were run, with the value of
  the response they find; \<open>sent\<close> the messages given to the codec.
\<close>

section \<open>Messages\<close>

datatype MessageType = OTHER | REQUEST | RESPONSE | ERROR

datatype RpcErrorCode =
    NO_ERROR | WRONG_PROTO | NO_SERVICE | NO_METHOD | INVALID_REQUEST | INVALID_RESPONSE | TIMEOUT

record RpcMessage =
  mtype :: MessageType
  mid :: "64 word"
  mservice :: "string option"
  mmethod :: "string option"
  mrequest :: "byte list option"
  mresponse :: "byte list option"
  merror :: "RpcErrorCode option"

definition no_message :: RpcMessage where
  "no_message = \<lparr>mtype = OTHER, mid = 0, mservice = None, mmethod = None, mrequest = None, mresponse = None, merror = None\<rparr>"

text \<open>Reading an optional field that is not set gives the default.\<close>

definition get_string :: "string option \<Rightarrow> string" where
  "get_string x = (case x of None \<Rightarrow> [] | Some s \<Rightarrow> s)"

definition get_bytes :: "byte list option \<Rightarrow> byte list" where
  "get_bytes x = (case x of None \<Rightarrow> [] | Some s \<Rightarrow> s)"

definition kRpcTag :: "byte list" where
  "kRpcTag = [82, 80, 67, 48]"

section \<open>State\<close>

record 'v rpc_method =
  request_prototype :: 'v
  response_prototype :: 'v
  serve :: "'v \<Rightarrow> 'v option"

type_synonym 'v service = "string \<rightharpoonup> 'v rpc_method"

record OutstandingCall =
  response_message :: "nat option"
  done_callback :: "nat option"

text \<open>What the two channels share.\<close>

record 'v rpc_calls =
  id_counter :: "64 word"
  outstanding_calls :: "64 word \<rightharpoonup> OutstandingCall"
  messages :: "nat \<rightharpoonup> 'v"
  closures :: "nat set"
  done_runs :: "(nat \<times> 'v option) list"

record 'v async_channel = "'v rpc_calls" +
  has_connection :: bool
  is_connected :: bool
  rpc_services :: "(string \<rightharpoonup> 'v service) option"
  next_message :: nat
  pending_done :: "(nat \<times> 64 word) list"
  sent :: "RpcMessage list"
  shut_down :: bool

text \<open>The constructors. \<open>id_\<close> is not initialised: its value is the first argument.\<close>

definition RpcAsyncChannel :: "64 word \<Rightarrow> bool \<Rightarrow> 'v async_channel" where
  "RpcAsyncChannel id0 with_connection =
     \<lparr>id_counter = id0, outstanding_calls = Map.empty, messages = Map.empty, closures = {}, done_runs = [],
      has_connection = with_connection, is_connected = with_connection, rpc_services = None, next_message = 0,
      pending_done = [], sent = [], shut_down = False\<rparr>"

definition SetConnection :: "'v async_channel \<Rightarrow> 'v async_channel" where
  "SetConnection ch = ch\<lparr>has_connection := True, is_connected := True\<rparr>"

definition SetServices :: "(string \<rightharpoonup> 'v service) \<Rightarrow> 'v async_channel \<Rightarrow> 'v async_channel" where
  "SetServices ss ch = ch\<lparr>rpc_services := Some ss\<rparr>"

section \<open>Objects\<close>

definition delete_message :: "nat \<Rightarrow> ('v, 'm) rpc_calls_scheme \<Rightarrow> ('v, 'm) rpc_calls_scheme res" where
  "delete_message a ch =
     (if messages ch a = None then Inl DoubleFree else Inr (ch\<lparr>messages := (messages ch)(a := None)\<rparr>))"

definition delete_closure :: "nat \<Rightarrow> ('v, 'm) rpc_calls_scheme \<Rightarrow> ('v, 'm) rpc_calls_scheme res" where
  "delete_closure d ch = (if d \<notin> closures ch then Inl DoubleFree else Inr (ch\<lparr>closures := closures ch - {d}\<rparr>))"

definition ParseFromString ::
  "('v \<Rightarrow> byte list \<Rightarrow> bool \<times> 'v) \<Rightarrow> nat \<Rightarrow> byte list \<Rightarrow> ('v, 'm) rpc_calls_scheme \<Rightarrow> ('v, 'm) rpc_calls_scheme res" where
  "ParseFromString parse a bs ch =
     (case messages ch a of
        None \<Rightarrow> Inl UseAfterFree
      | Some v \<Rightarrow> Inr (ch\<lparr>messages := (messages ch)(a \<mapsto> snd (parse v bs))\<rparr>))"

text \<open>A closure of \<open>NewCallback\<close> deletes itself when it is run.\<close>

definition Run_closure :: "nat \<Rightarrow> nat \<Rightarrow> ('v, 'm) rpc_calls_scheme \<Rightarrow> ('v, 'm) rpc_calls_scheme res" where
  "Run_closure d a ch =
     (if d \<notin> closures ch then Inl UseAfterFree
      else Inr (ch\<lparr>closures := closures ch - {d}, done_runs := done_runs ch @ [(d, messages ch a)]\<rparr>))"

section \<open>Calls\<close>

definition request_message :: "64 word \<Rightarrow> string \<Rightarrow> string \<Rightarrow> byte list \<Rightarrow> RpcMessage" where
  "request_message cid service meth request =
     no_message\<lparr>mtype := REQUEST, mid := cid, mservice := Some service, mmethod := Some meth, mrequest := Some request\<rparr>"

definition register_call ::
  "nat option \<Rightarrow> nat option \<Rightarrow> ('v, 'm) rpc_calls_scheme \<Rightarrow> 64 word \<times> ('v, 'm) rpc_calls_scheme" where
  "register_call response done_cb ch =
     (let cid = id_counter ch + 1
      in (cid, ch\<lparr>id_counter := cid,
                 outstanding_calls := (outstanding_calls ch)(cid \<mapsto> \<lparr>response_message = response, done_callback = done_cb\<rparr>)\<rparr>))"

definition CallMethod ::
  "('v \<Rightarrow> byte list) \<Rightarrow> string \<Rightarrow> string \<Rightarrow> 'v \<Rightarrow> nat option \<Rightarrow> nat option \<Rightarrow> 'v async_channel \<Rightarrow> 'v async_channel res" where
  "CallMethod ser service meth request response done_cb ch =
     (case register_call response done_cb ch of (cid, ch1) \<Rightarrow>
        if \<not> has_connection ch1 then Inl NullPointer
        else Inr (ch1\<lparr>sent := sent ch1 @ [request_message cid service meth (ser request)]\<rparr>))"

definition take_call :: "64 word \<Rightarrow> ('v, 'm) rpc_calls_scheme \<Rightarrow> OutstandingCall \<times> ('v, 'm) rpc_calls_scheme" where
  "take_call cid ch =
     (case outstanding_calls ch cid of
        None \<Rightarrow> (\<lparr>response_message = None, done_callback = None\<rparr>, ch)
      | Some oc \<Rightarrow> (oc, ch\<lparr>outstanding_calls := (outstanding_calls ch)(cid := None)\<rparr>))"

definition finish_call ::
  "('v \<Rightarrow> byte list \<Rightarrow> bool \<times> 'v) \<Rightarrow> RpcMessage \<Rightarrow> nat \<Rightarrow> nat option \<Rightarrow> ('v, 'm) rpc_calls_scheme \<Rightarrow>
   ('v, 'm) rpc_calls_scheme res" where
  "finish_call parse m a done_cb ch =
     res_bind (case mresponse m of None \<Rightarrow> Inr ch | Some bs \<Rightarrow> ParseFromString parse a bs ch) (\<lambda>ch1.
       case done_cb of None \<Rightarrow> Inr ch1 | Some d \<Rightarrow> Run_closure d a ch1)"

text \<open>The branch of \<open>OnRpcMessage\<close> for a response; the \<open>unique_ptr\<close> deletes the response at its end.\<close>

definition OnResponse ::
  "('v \<Rightarrow> byte list \<Rightarrow> bool \<times> 'v) \<Rightarrow> RpcMessage \<Rightarrow> 'v async_channel \<Rightarrow> 'v async_channel res" where
  "OnResponse parse m ch =
     (case take_call (mid m) ch of (oc, ch1) \<Rightarrow>
        case response_message oc of
          None \<Rightarrow> Inr ch1
        | Some a \<Rightarrow> res_bind (finish_call parse m a (done_callback oc) ch1) (delete_message a))"

text \<open>The closure that the channel gives to a service.\<close>

definition DoneCallback :: "('v \<Rightarrow> byte list) \<Rightarrow> nat \<Rightarrow> 64 word \<Rightarrow> 'v async_channel \<Rightarrow> 'v async_channel res" where
  "DoneCallback ser a cid ch =
     (case messages ch a of
        None \<Rightarrow> Inl UseAfterFree
      | Some v \<Rightarrow>
          if \<not> has_connection ch then Inl NullPointer
          else delete_message a
                 (ch\<lparr>sent := sent ch @ [no_message\<lparr>mtype := RESPONSE, mid := cid, mresponse := Some (ser v)\<rparr>]\<rparr>))"

definition new_message :: "'v \<Rightarrow> 'v async_channel \<Rightarrow> nat \<times> 'v async_channel" where
  "new_message v ch =
     (next_message ch, ch\<lparr>messages := (messages ch)(next_message ch \<mapsto> v), next_message := Suc (next_message ch)\<rparr>)"

definition call_service ::
  "('v \<Rightarrow> byte list) \<Rightarrow> 'v rpc_method \<Rightarrow> 'v \<Rightarrow> 64 word \<Rightarrow> 'v async_channel \<Rightarrow> 'v async_channel res" where
  "call_service ser meth req cid ch =
     (case new_message (response_prototype meth) ch of (a, ch1) \<Rightarrow>
        case serve meth req of
          None \<Rightarrow> Inr (ch1\<lparr>pending_done := pending_done ch1 @ [(a, cid)]\<rparr>)
        | Some v \<Rightarrow> DoneCallback ser a cid (ch1\<lparr>messages := (messages ch1)(a \<mapsto> v)\<rparr>))"

text \<open>The lookup of a request: the method and the request, or the error.\<close>

definition find_method ::
  "('v \<Rightarrow> byte list \<Rightarrow> bool \<times> 'v) \<Rightarrow> (string \<rightharpoonup> 'v service) option \<Rightarrow> RpcMessage \<Rightarrow> RpcErrorCode + ('v rpc_method \<times> 'v)" where
  "find_method parse ss m =
     (case ss of
        None \<Rightarrow> Inl NO_SERVICE
      | Some services \<Rightarrow>
          (case services (get_string (mservice m)) of
             None \<Rightarrow> Inl NO_SERVICE
           | Some service \<Rightarrow>
               (case service (get_string (mmethod m)) of
                  None \<Rightarrow> Inl NO_METHOD
                | Some meth \<Rightarrow>
                    (case parse (request_prototype meth) (get_bytes (mrequest m)) of (ok, req) \<Rightarrow>
                       if ok then Inr (meth, req) else Inl INVALID_REQUEST))))"

definition error_reply :: "64 word \<Rightarrow> RpcErrorCode \<Rightarrow> RpcMessage" where
  "error_reply cid e = no_message\<lparr>mtype := RESPONSE, mid := cid, merror := Some e\<rparr>"

definition OnRequest ::
  "('v \<Rightarrow> byte list \<Rightarrow> bool \<times> 'v) \<Rightarrow> ('v \<Rightarrow> byte list) \<Rightarrow> RpcMessage \<Rightarrow> 'v async_channel \<Rightarrow> 'v async_channel res" where
  "OnRequest parse ser m ch =
     (case find_method parse (rpc_services ch) m of
        Inl e \<Rightarrow> Inr (ch\<lparr>sent := sent ch @ [error_reply (mid m) e]\<rparr>)
      | Inr (meth, req) \<Rightarrow> call_service ser meth req (mid m) ch)"

definition OnRpcMessage ::
  "('v \<Rightarrow> byte list \<Rightarrow> bool \<times> 'v) \<Rightarrow> ('v \<Rightarrow> byte list) \<Rightarrow> RpcMessage \<Rightarrow> 'v async_channel \<Rightarrow> 'v async_channel res" where
  "OnRpcMessage parse ser m ch =
     (if mtype m = RESPONSE then OnResponse parse m ch
      else if mtype m = REQUEST then OnRequest parse ser m ch
      else Inr ch)"

text \<open>The destructor; \<open>traversal\<close> are the outstanding calls in the order of the table.\<close>

fun destroy_calls :: "OutstandingCall list \<Rightarrow> ('v, 'm) rpc_calls_scheme \<Rightarrow> ('v, 'm) rpc_calls_scheme res" where
  "destroy_calls [] ch = Inr ch"
| "destroy_calls (oc # ocs) ch =
     res_bind (case response_message oc of None \<Rightarrow> Inr ch | Some a \<Rightarrow> delete_message a ch) (\<lambda>ch1.
       res_bind (case done_callback oc of None \<Rightarrow> Inr ch1 | Some d \<Rightarrow> delete_closure d ch1) (destroy_calls ocs))"

text \<open>What the codec of the channel calls: the messages, and the default error callback.\<close>

fun on_events ::
  "('v \<Rightarrow> byte list \<Rightarrow> bool \<times> 'v) \<Rightarrow> ('v \<Rightarrow> byte list) \<Rightarrow> RpcMessage rpc_event list \<Rightarrow> 'v async_channel \<Rightarrow>
   'v async_channel res" where
  "on_events parse ser [] ch = Inr ch"
| "on_events parse ser (MessageCall m # evs) ch = res_bind (OnRpcMessage parse ser m ch) (on_events parse ser evs)"
| "on_events parse ser (ErrCall e # evs) ch =
     on_events parse ser evs (if is_connected ch then ch\<lparr>shut_down := True\<rparr> else ch)"
| "on_events parse ser (RawCall raw # evs) ch = on_events parse ser evs ch"

definition Channel_OnMessage ::
  "adler \<Rightarrow> (byte list \<Rightarrow> RpcMessage option) \<Rightarrow> bool \<Rightarrow> ('v \<Rightarrow> byte list \<Rightarrow> bool \<times> 'v) \<Rightarrow> ('v \<Rightarrow> byte list) \<Rightarrow>
   io_buffer \<Rightarrow> 'v async_channel \<Rightarrow> (io_buffer \<times> 'v async_channel) res" where
  "Channel_OnMessage adler32 ParseFromArray le parse ser b ch =
     res_bind (OnMessage adler32 ParseFromArray le (RpcCodec_async kRpcTag None) b) (\<lambda>(evs, b').
       res_bind (on_events parse ser evs ch) (\<lambda>ch'. Inr (b', ch')))"

section \<open>Ownership\<close>

text \<open>
  \<open>refs_ok r A H\<close>: the objects \<open>H\<close> that are alive are those that the entries of the table \<open>r\<close> refer to, each
  one to its own, and those in \<open>A\<close>.
\<close>

definition refs_ok :: "('k \<rightharpoonup> 'a) \<Rightarrow> 'a set \<Rightarrow> 'a set \<Rightarrow> bool" where
  "refs_ok r A H \<longleftrightarrow> inj_on r (dom r) \<and> ran r \<inter> A = {} \<and> H = ran r \<union> A"

lemma refs_add:
  assumes "refs_ok r A H" and "r k = None" and "a \<notin> H"
  shows "refs_ok (r(k \<mapsto> a)) A (insert a H)"
  using assms inj_on_new [of r a k] by (auto simp: refs_ok_def)

lemma refs_take:
  assumes "refs_ok r A H" and "r k = Some a"
  shows "refs_ok (r(k := None)) (insert a A) H"
proof -
  have "a \<in> ran r" using assms(2) by (auto simp: ran_def)
  then show ?thesis
    using assms ran_del [of r k] inj_on_del [of r k] by (auto simp: refs_ok_def)
qed

lemma refs_give:
  assumes "refs_ok r A H" and "r k = None" and "a \<in> A"
  shows "refs_ok (r(k \<mapsto> a)) (A - {a}) H"
proof -
  have "a \<notin> ran r" using assms by (auto simp: refs_ok_def)
  then show ?thesis using assms inj_on_new [of r a k] by (auto simp: refs_ok_def)
qed

lemma refs_out: "refs_ok r A H \<Longrightarrow> a \<in> A \<Longrightarrow> refs_ok r (A - {a}) (H - {a})"
  by (auto simp: refs_ok_def)

lemma refs_in: "refs_ok r A H \<Longrightarrow> a \<notin> H \<Longrightarrow> refs_ok r (insert a A) (insert a H)"
  by (auto simp: refs_ok_def)

lemma refs_alive: "refs_ok r A H \<Longrightarrow> r k = Some a \<Longrightarrow> a \<in> H"
  by (auto simp: refs_ok_def ran_def)

lemma refs_empty [simp]: "refs_ok Map.empty A H \<longleftrightarrow> H = A"
  by (auto simp: refs_ok_def)

text \<open>The responses and the closures that the outstanding calls refer to.\<close>

definition resp_of :: "('v, 'm) rpc_calls_scheme \<Rightarrow> 64 word \<rightharpoonup> nat" where
  "resp_of ch k = Option.bind (outstanding_calls ch k) response_message"

definition done_of :: "('v, 'm) rpc_calls_scheme \<Rightarrow> 64 word \<rightharpoonup> nat" where
  "done_of ch k = Option.bind (outstanding_calls ch k) done_callback"

text \<open>
  The invariant of the calls: \<open>A\<close> are the messages that are in other hands. Every outstanding call has a
  response; the closures that were run are different and no longer alive; the identifiers in use lie among
  the \<open>n\<close> that were given out since \<open>id0\<close>.
\<close>

definition calls_ok :: "64 word \<Rightarrow> nat \<Rightarrow> nat set \<Rightarrow> ('v, 'm) rpc_calls_scheme \<Rightarrow> bool" where
  "calls_ok id0 n A ch \<longleftrightarrow>
     refs_ok (resp_of ch) A (dom (messages ch)) \<and> refs_ok (done_of ch) {} (closures ch) \<and>
     (\<forall>k oc. outstanding_calls ch k = Some oc \<longrightarrow> response_message oc \<noteq> None) \<and>
     distinct (map fst (done_runs ch)) \<and> fst ` set (done_runs ch) \<inter> closures ch = {} \<and>
     id_counter ch = id0 + word_of_nat n \<and>
     dom (outstanding_calls ch) \<subseteq> (\<lambda>i. id0 + word_of_nat i) ` {1..n}"

lemma calls_okD:
  assumes "calls_ok id0 n A ch"
  shows "refs_ok (resp_of ch) A (dom (messages ch))" "refs_ok (done_of ch) {} (closures ch)"
    "outstanding_calls ch k = Some oc \<Longrightarrow> response_message oc \<noteq> None"
  using assms by (simp_all add: calls_ok_def)

lemma calls_fresh:
  assumes "calls_ok id0 n A ch" and n: "n + 1 < 2 ^ 64"
  shows "outstanding_calls ch (id_counter ch + 1) = None"
proof (rule ccontr)
  assume "outstanding_calls ch (id_counter ch + 1) \<noteq> None"
  then have "id_counter ch + 1 \<in> (\<lambda>i. id0 + word_of_nat i) ` {1..n}"
    using assms(1) unfolding calls_ok_def by blast
  then obtain i where i: "i \<le> n" "id_counter ch + 1 = id0 + word_of_nat i" by auto
  moreover have "id_counter ch + 1 = id0 + word_of_nat (n + 1)" using assms(1) by (simp add: calls_ok_def)
  ultimately have "(word_of_nat (n + 1) :: 64 word) = word_of_nat i" by simp
  then have "unat (word_of_nat (n + 1) :: 64 word) = unat (word_of_nat i :: 64 word)" by (rule arg_cong)
  then have "n + 1 = i" using n i(1) by (simp add: unat_of_nat del: of_nat_Suc)
  then show False using i(1) by simp
qed

lemma of_upd:
  "resp_of (ch\<lparr>outstanding_calls := (outstanding_calls ch)(k := x)\<rparr>) = (resp_of ch)(k := Option.bind x response_message)"
  "done_of (ch\<lparr>outstanding_calls := (outstanding_calls ch)(k := x)\<rparr>) = (done_of ch)(k := Option.bind x done_callback)"
  by (auto simp: resp_of_def done_of_def fun_eq_iff)

text \<open>A call: its response goes from the hands of the caller to the table, its closure is a new one.\<close>

lemma register_ok:
  assumes ok: "calls_ok id0 n A ch" and n: "n + 1 < 2 ^ 64" and a: "a \<in> A"
    and d: "d \<notin> closures ch" "d \<notin> fst ` set (done_runs ch)"
    and r: "register_call (Some a) (Some d) (ch\<lparr>closures := insert d (closures ch)\<rparr>) = (k, ch')"
  shows "calls_ok id0 (n + 1) (A - {a}) ch'"
proof -
  let ?k = "id_counter ch + 1"
  have fresh: "outstanding_calls ch ?k = None" by (rule calls_fresh [OF ok n])
  have none: "resp_of ch ?k = None" "done_of ch ?k = None" using fresh by (simp_all add: resp_of_def done_of_def)
  have ch': "ch' = ch\<lparr>closures := insert d (closures ch), id_counter := ?k,
      outstanding_calls := (outstanding_calls ch)(?k \<mapsto> \<lparr>response_message = Some a, done_callback = Some d\<rparr>)\<rparr>"
    using r unfolding register_call_def Let_def by auto
  have resp: "resp_of ch' = (resp_of ch)(?k \<mapsto> a)" "done_of ch' = (done_of ch)(?k \<mapsto> d)"
    by (auto simp: ch' resp_of_def done_of_def fun_eq_iff)
  have id: "?k = id0 + word_of_nat (n + 1)" using ok by (simp add: calls_ok_def)
  have "dom (outstanding_calls ch') \<subseteq> (\<lambda>i. id0 + word_of_nat i) ` {1..n + 1}"
  proof -
    have "(\<lambda>i. id0 + word_of_nat i) ` {1..n + 1} = insert (?k :: 64 word) ((\<lambda>i. id0 + word_of_nat i) ` {1..n})"
      unfolding id by (simp add: atLeastAtMostSuc_conv)
    moreover have "dom (outstanding_calls ch') = insert ?k (dom (outstanding_calls ch))" by (simp add: ch')
    moreover have "dom (outstanding_calls ch) \<subseteq> (\<lambda>i. id0 + word_of_nat i) ` {1..n}" using ok by (simp add: calls_ok_def)
    ultimately show ?thesis by blast
  qed
  moreover have "\<forall>k oc. outstanding_calls ch' k = Some oc \<longrightarrow> response_message oc \<noteq> None"
    using ok by (simp add: ch' calls_ok_def)
  moreover have "messages ch' = messages ch" "closures ch' = insert d (closures ch)" "done_runs ch' = done_runs ch"
    "id_counter ch' = ?k" by (simp_all add: ch')
  ultimately show ?thesis
    using ok d refs_give [OF calls_okD(1) [OF ok] none(1) a] refs_add [OF calls_okD(2) [OF ok] none(2) d(1)] id
    by (auto simp: calls_ok_def resp simp del: of_nat_Suc)
qed

section \<open>Answers\<close>

text \<open>The value of a response object when the closure runs.\<close>

definition answer :: "('v \<Rightarrow> byte list \<Rightarrow> bool \<times> 'v) \<Rightarrow> RpcMessage \<Rightarrow> 'v \<Rightarrow> 'v" where
  "answer parse m v = (case mresponse m of None \<Rightarrow> v | Some bs \<Rightarrow> snd (parse v bs))"

definition answered :: "64 word \<Rightarrow> nat \<Rightarrow> nat option \<Rightarrow> 'v \<Rightarrow> ('v, 'm) rpc_calls_scheme \<Rightarrow> ('v, 'm) rpc_calls_scheme" where
  "answered k a d v ch =
     ch\<lparr>outstanding_calls := (outstanding_calls ch)(k := None), messages := (messages ch)(a := None),
        closures := closures ch - set_option d,
        done_runs := done_runs ch @ (case d of None \<Rightarrow> [] | Some x \<Rightarrow> [(x, Some v)])\<rparr>"

lemma OnResponse_eq:
  assumes "outstanding_calls ch (mid m) = Some oc" "response_message oc = Some a" "messages ch a = Some v"
    and "set_option (done_callback oc) \<subseteq> closures ch"
  shows "OnResponse parse m ch = Inr (answered (mid m) a (done_callback oc) (answer parse m v) ch)"
  using assms
  by (cases "mresponse m"; cases "done_callback oc")
    (simp_all add: OnResponse_def take_call_def finish_call_def ParseFromString_def Run_closure_def delete_message_def
      answered_def answer_def)

lemma OnResponse_unknown: "outstanding_calls ch (mid m) = None \<Longrightarrow> OnResponse parse m ch = Inr ch"
  by (simp add: OnResponse_def take_call_def)

lemma answered_ok:
  assumes ok: "calls_ok id0 n A ch" and oc: "outstanding_calls ch k = Some oc" "response_message oc = Some a"
  shows "calls_ok id0 n A (answered k a (done_callback oc) v ch)"
proof -
  let ?ch = "answered k a (done_callback oc) v ch"
  have f: "messages ?ch = (messages ch)(a := None)" "closures ?ch = closures ch - set_option (done_callback oc)"
    "id_counter ?ch = id_counter ch" "outstanding_calls ?ch = (outstanding_calls ch)(k := None)"
    "done_runs ?ch = done_runs ch @ (case done_callback oc of None \<Rightarrow> [] | Some x \<Rightarrow> [(x, Some v)])"
    by (simp_all add: answered_def)
  have r: "resp_of ?ch = (resp_of ch)(k := None)" "done_of ?ch = (done_of ch)(k := None)"
    by (auto simp: answered_def resp_of_def done_of_def fun_eq_iff)
  have rk: "resp_of ch k = Some a" "done_of ch k = done_callback oc" using oc by (simp_all add: resp_of_def done_of_def)
  have "a \<notin> A" using calls_okD(1) [OF ok] rk(1) by (auto simp: refs_ok_def ran_def)
  then have resp: "refs_ok ((resp_of ch)(k := None)) A (dom (messages ?ch))"
    using refs_out [OF refs_take [OF calls_okD(1) [OF ok] rk(1)], of a] by (simp add: f(1))
  have closed: "refs_ok ((done_of ch)(k := None)) {} (closures ?ch)"
  proof (cases "done_callback oc")
    case None
    then show ?thesis unfolding f(2) using calls_okD(2) [OF ok] rk(2) by (simp add: fun_upd_idem)
  next
    case (Some d)
    then show ?thesis unfolding f(2) using refs_out [OF refs_take [OF calls_okD(2) [OF ok], of k d], of d] rk(2) by simp
  qed
  have "set_option (done_callback oc) \<subseteq> closures ch"
    using refs_alive [OF calls_okD(2) [OF ok]] rk(2) by (cases "done_callback oc") auto
  moreover have "fst ` set (done_runs ch) \<inter> closures ch = {}" "distinct (map fst (done_runs ch))"
    using ok by (simp_all add: calls_ok_def)
  ultimately have "distinct (map fst (done_runs ?ch)) \<and> fst ` set (done_runs ?ch) \<inter> closures ?ch = {}"
    unfolding f(2,5) by (cases "done_callback oc") auto
  moreover have "\<forall>x o'. outstanding_calls ?ch x = Some o' \<longrightarrow> response_message o' \<noteq> None"
    using calls_okD(3) [OF ok] by (simp add: f(4))
  moreover have "dom (outstanding_calls ?ch) \<subseteq> (\<lambda>i. id0 + word_of_nat i) ` {1..n}" "id_counter ?ch = id0 + word_of_nat n"
    using ok by (auto simp: calls_ok_def f(3,4))
  ultimately show ?thesis using resp closed by (simp add: calls_ok_def r)
qed

section \<open>The asynchronous channel\<close>

definition channel_ok :: "64 word \<Rightarrow> nat \<Rightarrow> 'v async_channel \<Rightarrow> bool" where
  "channel_ok id0 n ch \<longleftrightarrow>
     calls_ok id0 n (fst ` set (pending_done ch)) ch \<and> distinct (map fst (pending_done ch)) \<and>
     (\<forall>a \<in> dom (messages ch). a < next_message ch) \<and> has_connection ch"

lemma OnResponse_ok:
  assumes ok: "channel_ok id0 n ch"
  obtains ch' where "OnResponse parse m ch = Inr ch'" "channel_ok id0 n ch'"
proof (cases "outstanding_calls ch (mid m)")
  case None
  then show thesis using that ok OnResponse_unknown by blast
next
  case (Some oc)
  have c: "calls_ok id0 n (fst ` set (pending_done ch)) ch" using ok by (simp add: channel_ok_def)
  obtain a where a: "response_message oc = Some a" using calls_okD(3) [OF c Some] by blast
  have r: "resp_of ch (mid m) = Some a" "done_of ch (mid m) = done_callback oc"
    using Some a by (simp_all add: resp_of_def done_of_def)
  obtain v where v: "messages ch a = Some v" using refs_alive [OF calls_okD(1) [OF c] r(1)] by blast
  have d: "set_option (done_callback oc) \<subseteq> closures ch"
    using refs_alive [OF calls_okD(2) [OF c]] r(2) by (cases "done_callback oc") auto
  let ?ch = "answered (mid m) a (done_callback oc) (answer parse m v) ch"
  have "channel_ok id0 n ?ch"
    using ok answered_ok [OF c Some a] by (auto simp: channel_ok_def answered_def)
  then show thesis using that OnResponse_eq [OF Some a v d] by blast
qed

lemma calls_ok_cong:
  assumes "id_counter ch' = id_counter ch" "outstanding_calls ch' = outstanding_calls ch"
    "dom (messages ch') = dom (messages ch)" "closures ch' = closures ch" "done_runs ch' = done_runs ch"
  shows "calls_ok id0 n A ch' = calls_ok id0 n A ch"
proof -
  have "resp_of ch' = resp_of ch" "done_of ch' = done_of ch" by (auto simp: resp_of_def done_of_def fun_eq_iff assms)
  then show ?thesis by (simp add: calls_ok_def assms)
qed

lemma new_message_ok:
  assumes ok: "calls_ok id0 n A ch" and new: "\<forall>a \<in> dom (messages ch). a < next_message ch" "new_message v ch = (a, ch1)"
  shows "calls_ok id0 n (insert a A) ch1" "messages ch1 = (messages ch)(a \<mapsto> v)" "a = next_message ch" "a \<notin> A"
    "ch1 = ch\<lparr>messages := (messages ch)(a \<mapsto> v), next_message := Suc a\<rparr>"
proof -
  have e: "a = next_message ch" "ch1 = ch\<lparr>messages := (messages ch)(a \<mapsto> v), next_message := Suc a\<rparr>"
    using new(2) by (auto simp: new_message_def)
  then show "messages ch1 = (messages ch)(a \<mapsto> v)" "a = next_message ch"
    "ch1 = ch\<lparr>messages := (messages ch)(a \<mapsto> v), next_message := Suc a\<rparr>" by simp_all
  have fresh: "a \<notin> dom (messages ch)" using new(1) e(1) by auto
  then show "a \<notin> A" using calls_okD(1) [OF ok] by (auto simp: refs_ok_def)
  have r: "resp_of ch1 = resp_of ch" "done_of ch1 = done_of ch" by (auto simp: e resp_of_def done_of_def fun_eq_iff)
  have "refs_ok (resp_of ch) (insert a A) (dom (messages ch1))"
    using refs_in [OF calls_okD(1) [OF ok] fresh] by (simp add: e)
  then show "calls_ok id0 n (insert a A) ch1" using ok by (simp add: calls_ok_def r) (simp add: e)
qed

lemma DoneCallback_eq:
  assumes "messages ch a = Some v" "has_connection ch"
  shows "DoneCallback ser a k ch =
    Inr (ch\<lparr>sent := sent ch @ [no_message\<lparr>mtype := RESPONSE, mid := k, mresponse := Some (ser v)\<rparr>],
            messages := (messages ch)(a := None)\<rparr>)"
  using assms by (simp add: DoneCallback_def delete_message_def)

lemma deleted_ok:
  assumes ok: "calls_ok id0 n A ch" and a: "a \<in> A"
  shows "calls_ok id0 n (A - {a}) (ch\<lparr>messages := (messages ch)(a := None)\<rparr>)"
proof -
  let ?ch = "ch\<lparr>messages := (messages ch)(a := None)\<rparr>"
  have "resp_of ?ch = resp_of ch" "done_of ?ch = done_of ch" by (auto simp: resp_of_def done_of_def fun_eq_iff)
  then show ?thesis using ok refs_out [OF calls_okD(1) [OF ok] a] by (simp add: calls_ok_def)
qed

lemma OnRequest_ok:
  assumes ok: "channel_ok id0 n ch"
  obtains ch' where "OnRequest parse ser m ch = Inr ch'" "channel_ok id0 n ch'"
proof (cases "find_method parse (rpc_services ch) m")
  case (Inl e)
  have "channel_ok id0 n (ch\<lparr>sent := sent ch @ [error_reply (mid m) e]\<rparr>)"
    using ok calls_ok_cong [of "ch\<lparr>sent := sent ch @ [error_reply (mid m) e]\<rparr>" ch] by (simp add: channel_ok_def)
  then show thesis using that Inl by (simp add: OnRequest_def)
next
  case (Inr x)
  obtain meth req where x: "x = (meth, req)" by fastforce
  let ?A = "fst ` set (pending_done ch)"
  have c: "calls_ok id0 n ?A ch" "\<forall>a \<in> dom (messages ch). a < next_message ch" "has_connection ch"
    using ok by (simp_all add: channel_ok_def)
  obtain a ch1 where new: "new_message (response_prototype meth) ch = (a, ch1)" by fastforce
  note N = new_message_ok [OF c(1,2) new]
  show thesis
  proof (cases "serve meth req")
    case None
    let ?ch = "ch1\<lparr>pending_done := pending_done ch1 @ [(a, mid m)]\<rparr>"
    have "calls_ok id0 n (insert a ?A) ?ch" using N(1) calls_ok_cong [of ?ch ch1] by simp
    then have "channel_ok id0 n ?ch"
      using ok N(4) c(2) by (auto simp: channel_ok_def N(5) N(3) less_SucI)
    then show thesis using that None Inr x new by (simp add: OnRequest_def call_service_def)
  next
    case (Some v)
    let ?c1 = "ch1\<lparr>messages := (messages ch1)(a \<mapsto> v)\<rparr>"
    let ?c2 = "?c1\<lparr>messages := (messages ?c1)(a := None)\<rparr>"
    let ?ch = "?c2\<lparr>sent := sent ?c1 @ [no_message\<lparr>mtype := RESPONSE, mid := mid m, mresponse := Some (ser v)\<rparr>]\<rparr>"
    have "calls_ok id0 n (insert a ?A) ?c1" using N(1,2) calls_ok_cong [of ?c1 ch1] by auto
    then have "calls_ok id0 n ?A ?c2" using deleted_ok [of id0 n "insert a ?A" ?c1 a] N(4) by simp
    then have "calls_ok id0 n ?A ?ch" using calls_ok_cong [of ?ch ?c2] by simp
    then have "channel_ok id0 n ?ch" using ok c(2) by (auto simp: channel_ok_def N(5) N(3) less_SucI)
    moreover have "OnRequest parse ser m ch = Inr ?ch"
      using Inr x new Some DoneCallback_eq [of ?c1 a v ser "mid m"] c(3) by (simp add: OnRequest_def call_service_def N(5))
    ultimately show thesis using that by blast
  qed
qed

lemma OnRpcMessage_ok:
  assumes ok: "channel_ok id0 n ch"
  obtains ch' where "OnRpcMessage parse ser m ch = Inr ch'" "channel_ok id0 n ch'"
proof (cases "mtype m")
  case RESPONSE
  then show thesis using that OnResponse_ok [OF ok, of parse m] by (auto simp: OnRpcMessage_def)
next
  case REQUEST
  then show thesis using that OnRequest_ok [OF ok, of parse ser m] by (auto simp: OnRpcMessage_def)
qed (use that ok in \<open>simp_all add: OnRpcMessage_def\<close>)

lemma CallMethod_ok:
  assumes ok: "channel_ok id0 n ch" and n: "n + 1 < 2 ^ 64" and d: "d \<notin> closures ch" "d \<notin> fst ` set (done_runs ch)"
    and new: "new_message v ch = (a, ch1)"
  obtains ch' where "CallMethod ser service meth req (Some a) (Some d) (ch1\<lparr>closures := insert d (closures ch1)\<rparr>) = Inr ch'"
    "channel_ok id0 (n + 1) ch'"
proof -
  let ?A = "fst ` set (pending_done ch)"
  have c: "calls_ok id0 n ?A ch" "\<forall>a \<in> dom (messages ch). a < next_message ch" "has_connection ch"
    using ok by (simp_all add: channel_ok_def)
  note N = new_message_ok [OF c(1,2) new]
  obtain k ch2 where r: "register_call (Some a) (Some d) (ch1\<lparr>closures := insert d (closures ch1)\<rparr>) = (k, ch2)" by fastforce
  have "calls_ok id0 (n + 1) (insert a ?A - {a}) ch2"
    by (rule register_ok [OF N(1) n _ _ _ r]) (simp_all add: N(5) d)
  then have "calls_ok id0 (n + 1) ?A ch2" using N(4) by simp
  moreover have f: "pending_done ch2 = pending_done ch" "messages ch2 = (messages ch)(a \<mapsto> v)"
    "next_message ch2 = Suc (next_message ch)" "has_connection ch2" "a = next_message ch"
    using r c(3) N(3) by (auto simp: register_call_def Let_def N(5))
  let ?ch = "ch2\<lparr>sent := sent ch2 @ [request_message k service meth (ser req)]\<rparr>"
  have "calls_ok id0 (n + 1) ?A ?ch = calls_ok id0 (n + 1) ?A ch2" by (rule calls_ok_cong) simp_all
  ultimately have "channel_ok id0 (n + 1) ?ch" using ok c(2) f by (auto simp: channel_ok_def less_SucI)
  then show thesis using that r f(4) by (simp add: CallMethod_def)
qed

lemma remove1_keys:
  assumes "distinct (map fst xs)" "x \<in> set xs"
  shows "fst ` set (remove1 x xs) = fst ` set xs - {fst x}" "distinct (map fst (remove1 x xs))"
proof -
  have "fst ` set (remove1 x xs) = fst ` set xs - {fst x} \<and> distinct (map fst (remove1 x xs))"
    using assms by (induction xs) auto
  then show "fst ` set (remove1 x xs) = fst ` set xs - {fst x}" "distinct (map fst (remove1 x xs))" by simp_all
qed

text \<open>A service runs the closure that it kept, after it has filled the response.\<close>

lemma later_ok:
  assumes ok: "channel_ok id0 n ch" and p: "(a, k) \<in> set (pending_done ch)"
    and c1: "c1 = ch\<lparr>pending_done := remove1 (a, k) (pending_done ch), messages := (messages ch)(a \<mapsto> v)\<rparr>"
  obtains ch' where "DoneCallback ser a k c1 = Inr ch'" "channel_ok id0 n ch'"
proof -
  let ?A = "fst ` set (pending_done ch)"
  have c: "calls_ok id0 n ?A ch" and d: "distinct (map fst (pending_done ch))" using ok by (simp_all add: channel_ok_def)
  have a: "a \<in> ?A" using p by force
  then have dom: "a \<in> dom (messages ch)" using calls_okD(1) [OF c] by (auto simp: refs_ok_def)
  note rest = remove1_keys(1) [OF d p, simplified]
  have "calls_ok id0 n ?A c1" using c calls_ok_cong [of c1 ch] dom by (auto simp: c1 insert_absorb)
  then have "calls_ok id0 n (?A - {a}) (c1\<lparr>messages := (messages c1)(a := None)\<rparr>)" using deleted_ok a by blast
  moreover let ?ch = "c1\<lparr>sent := sent c1 @ [no_message\<lparr>mtype := RESPONSE, mid := k, mresponse := Some (ser v)\<rparr>],
      messages := (messages c1)(a := None)\<rparr>"
  have "calls_ok id0 n (?A - {a}) ?ch = calls_ok id0 n (?A - {a}) (c1\<lparr>messages := (messages c1)(a := None)\<rparr>)"
    by (rule calls_ok_cong) simp_all
  moreover have "distinct (map fst (remove1 (a, k) (pending_done ch)))" by (rule remove1_keys(2) [OF d p])
  ultimately have "channel_ok id0 n ?ch" using ok by (auto simp: channel_ok_def c1 rest)
  moreover have "DoneCallback ser a k c1 = Inr ?ch"
    using ok by (intro DoneCallback_eq) (simp_all add: c1 channel_ok_def)
  ultimately show thesis using that by blast
qed

inductive channel_reach ::
  "('v \<Rightarrow> byte list \<Rightarrow> bool \<times> 'v) \<Rightarrow> ('v \<Rightarrow> byte list) \<Rightarrow> 64 word \<Rightarrow> nat \<Rightarrow> 'v async_channel \<Rightarrow> bool" for parse ser id0 where
  start: "channel_reach parse ser id0 0 (RpcAsyncChannel id0 True)"
| services: "channel_reach parse ser id0 n ch \<Longrightarrow> channel_reach parse ser id0 n (SetServices ss ch)"
| call: "channel_reach parse ser id0 n ch \<Longrightarrow> n + 1 < 2 ^ 64 \<Longrightarrow> d \<notin> closures ch \<Longrightarrow> d \<notin> fst ` set (done_runs ch) \<Longrightarrow>
    new_message v ch = (a, ch1) \<Longrightarrow>
    CallMethod ser service meth req (Some a) (Some d) (ch1\<lparr>closures := insert d (closures ch1)\<rparr>) = Inr ch' \<Longrightarrow>
    channel_reach parse ser id0 (n + 1) ch'"
| message: "channel_reach parse ser id0 n ch \<Longrightarrow> OnRpcMessage parse ser m ch = Inr ch' \<Longrightarrow> channel_reach parse ser id0 n ch'"
| later: "channel_reach parse ser id0 n ch \<Longrightarrow> (a, k) \<in> set (pending_done ch) \<Longrightarrow>
    DoneCallback ser a k (ch\<lparr>pending_done := remove1 (a, k) (pending_done ch), messages := (messages ch)(a \<mapsto> v)\<rparr>) = Inr ch' \<Longrightarrow>
    channel_reach parse ser id0 n ch'"

lemma channel_start: "channel_ok id0 0 (RpcAsyncChannel id0 True)"
proof -
  have none: "resp_of ch = Map.empty" "done_of ch = Map.empty" if "outstanding_calls ch = Map.empty" for ch :: "'v async_channel"
    using that by (auto simp: resp_of_def done_of_def fun_eq_iff)
  show ?thesis by (simp add: channel_ok_def calls_ok_def none RpcAsyncChannel_def)
qed

lemma channel_reach_ok: "channel_reach parse ser id0 n ch \<Longrightarrow> channel_ok id0 n ch"
proof (induction rule: channel_reach.induct)
  case start
  show ?case by (rule channel_start)
next
  case (services n ch ss)
  then show ?case using calls_ok_cong [of "SetServices ss ch" ch] by (auto simp: channel_ok_def SetServices_def)
next
  case (call n ch d v a ch1 service meth req ch')
  from CallMethod_ok [OF call.IH call.hyps(2-5), of ser service meth req] call.hyps(6) show ?case by auto
next
  case (message n ch m ch')
  from OnRpcMessage_ok [OF message.IH, of parse ser m] message.hyps(2) show ?case by auto
next
  case (later n ch a k v ch')
  from later_ok [OF later.IH later.hyps(2) refl, of ser v] later.hyps(3) show ?case by auto
qed

text \<open>The destructor frees the responses and the closures of the calls that are left.\<close>

lemma refs_next:
  assumes "k \<notin> set ks"
  shows "(r |` set (k # ks))(k := None) = r |` set ks"
  using assms by (auto simp: restrict_map_def fun_eq_iff)

lemma refs_delete:
  assumes refs: "refs_ok (r |` set (k # ks)) A H" and k: "k \<notin> set ks"
  shows "refs_ok (r |` set ks) A (H - set_option (r k))" "set_option (r k) \<subseteq> H"
proof -
  show "set_option (r k) \<subseteq> H"
    using refs_alive [OF refs, of k] by (cases "r k") auto
  show "refs_ok (r |` set ks) A (H - set_option (r k))"
  proof (cases "r k")
    case None
    then have "(r |` set (k # ks)) k = None" by simp
    then have "r |` set (k # ks) = r |` set ks" using refs_next [OF k, of r] by (metis fun_upd_idem)
    then show ?thesis using refs None by simp
  next
    case (Some a)
    then have rk: "(r |` set (k # ks)) k = Some a" by simp
    then have "a \<in> ran (r |` set (k # ks))" by (rule ranI)
    then have "a \<notin> A" using refs by (auto simp: refs_ok_def)
    then show ?thesis
      using refs_out [OF refs_take [OF refs rk], of a] refs_next [OF k, of r] Some by simp
  qed
qed

lemma destroy_calls_frees:
  assumes "distinct ks" "\<forall>k \<in> set ks. t k \<noteq> None"
    and "refs_ok ((\<lambda>k. Option.bind (t k) response_message) |` set ks) A (dom (messages ch))"
    and "refs_ok ((\<lambda>k. Option.bind (t k) done_callback) |` set ks) {} (closures ch)"
  shows "\<exists>ch'. destroy_calls (map (the \<circ> t) ks) ch = Inr ch' \<and> dom (messages ch') = A \<and> closures ch' = {}"
  using assms
proof (induction ks arbitrary: ch)
  case Nil
  then show ?case by simp
next
  case (Cons k ks)
  obtain oc where oc: "t k = Some oc" using Cons.prems(2) by auto
  have k: "k \<notin> set ks" using Cons.prems(1) by simp
  note R = refs_delete [OF Cons.prems(3) k] and D = refs_delete [OF Cons.prems(4) k]
  let ?m = "case response_message oc of None \<Rightarrow> messages ch | Some a \<Rightarrow> (messages ch)(a := None)"
  let ?ch = "ch\<lparr>messages := ?m, closures := closures ch - set_option (done_callback oc)\<rparr>"
  have "dom ?m = dom (messages ch) - set_option (response_message oc)" by (auto split: option.splits)
  then have "\<exists>ch'. destroy_calls (map (the \<circ> t) ks) ?ch = Inr ch' \<and> dom (messages ch') = A \<and> closures ch' = {}"
    using Cons.IH [of ?ch] Cons.prems(1,2) R(1) D(1) oc by (simp add: comp_def)
  moreover have "destroy_calls (map (the \<circ> t) (k # ks)) ch = destroy_calls (map (the \<circ> t) ks) ?ch"
    using R(2) D(2) oc
    by (cases "response_message oc"; cases "done_callback oc") (auto simp: delete_message_def delete_closure_def)
  ultimately show ?case by metis
qed

section \<open>Theorems\<close>

text \<open>
  C19. A channel never uses or frees an object that is gone. Whatever message arrives, \<open>OnRpcMessage\<close> returns; a
  closure runs at most once; and the destructor frees every response and closure of an outstanding call once,
  in whatever order the table is traversed, and leaves nothing but the responses that services still hold.
\<close>

theorem rpc_channel_safe:
  assumes "channel_reach parse ser id0 n ch"
  shows "(\<exists>ch'. OnRpcMessage parse ser m ch = Inr ch') \<and> distinct (map fst (done_runs ch)) \<and>
    (\<forall>ks. distinct ks \<and> set ks = dom (outstanding_calls ch) \<longrightarrow>
       (\<exists>ch'. destroy_calls (map (the \<circ> outstanding_calls ch) ks) ch = Inr ch' \<and>
          dom (messages ch') = fst ` set (pending_done ch) \<and> closures ch' = {}))"
proof -
  have ok: "channel_ok id0 n ch" by (rule channel_reach_ok [OF assms])
  then have c: "calls_ok id0 n (fst ` set (pending_done ch)) ch" by (simp add: channel_ok_def)
  have "\<exists>ch'. destroy_calls (map (the \<circ> outstanding_calls ch) ks) ch = Inr ch' \<and>
      dom (messages ch') = fst ` set (pending_done ch) \<and> closures ch' = {}"
    if ks: "distinct ks" "set ks = dom (outstanding_calls ch)" for ks
  proof (rule destroy_calls_frees [OF ks(1)])
    have "((\<lambda>k. Option.bind (outstanding_calls ch k) f) |` set ks) x = Option.bind (outstanding_calls ch x) f"
      for f :: "OutstandingCall \<Rightarrow> nat option" and x
      by (cases "outstanding_calls ch x") (simp_all add: ks(2) restrict_map_def dom_def)
    then have "(\<lambda>k. Option.bind (outstanding_calls ch k) response_message) |` set ks = resp_of ch"
      "(\<lambda>k. Option.bind (outstanding_calls ch k) done_callback) |` set ks = done_of ch"
      by (simp_all add: resp_of_def done_of_def fun_eq_iff)
    then show "refs_ok ((\<lambda>k. Option.bind (outstanding_calls ch k) response_message) |` set ks)
        (fst ` set (pending_done ch)) (dom (messages ch))"
      "refs_ok ((\<lambda>k. Option.bind (outstanding_calls ch k) done_callback) |` set ks) {} (closures ch)"
      using calls_okD(1,2) [OF c] by simp_all
  qed (auto simp: ks(2))
  moreover obtain ch' where "OnRpcMessage parse ser m ch = Inr ch'" using OnRpcMessage_ok [OF ok] by blast
  ultimately show ?thesis using c by (simp add: calls_ok_def)
qed

text \<open>One call that is outstanding: object 0 and closure 5.\<close>

definition one_call :: "byte list async_channel" where
  "one_call = (case CallMethod (\<lambda>v. v) ''Time'' ''GetTime'' [1] (Some 0) (Some 5)
      ((snd (new_message [] (RpcAsyncChannel 0 True)))\<lparr>closures := {5}\<rparr>) of Inr ch \<Rightarrow> ch)"

lemma one_call_reach: "channel_reach (\<lambda>v bs. (True, bs)) (\<lambda>v. v) 0 1 one_call"
proof -
  have new: "new_message [] (RpcAsyncChannel 0 True) = (0, snd (new_message [] (RpcAsyncChannel 0 True)))"
    by (simp add: new_message_def RpcAsyncChannel_def)
  have "CallMethod (\<lambda>v. v) ''Time'' ''GetTime'' [1] (Some 0) (Some 5)
      ((snd (new_message [] (RpcAsyncChannel 0 True)))\<lparr>closures := insert 5 (closures (snd (new_message [] (RpcAsyncChannel 0 True))))\<rparr>)
      = Inr one_call"
    by (simp add: one_call_def new_message_def RpcAsyncChannel_def CallMethod_def register_call_def Let_def)
  then have "channel_reach (\<lambda>v bs. (True, bs)) (\<lambda>v. v) 0 (0 + 1) one_call"
    by (intro channel_reach.call [OF channel_reach.start _ _ _ new]) (simp_all add: RpcAsyncChannel_def)
  then show ?thesis by simp
qed

theorem rpc_channel_safe_witness:
  "dom (outstanding_calls one_call) = {1} \<and>
   (\<exists>ch'. destroy_calls [the (outstanding_calls one_call 1)] one_call = Inr ch' \<and> messages ch' = Map.empty \<and> closures ch' = {})"
proof -
  have o: "dom (outstanding_calls one_call) = {1}" "pending_done one_call = []"
    by (simp_all add: one_call_def new_message_def RpcAsyncChannel_def CallMethod_def register_call_def Let_def)
  have "\<forall>ks. distinct ks \<and> set ks = dom (outstanding_calls one_call) \<longrightarrow>
      (\<exists>ch'. destroy_calls (map (the \<circ> outstanding_calls one_call) ks) one_call = Inr ch' \<and>
         dom (messages ch') = fst ` set (pending_done one_call) \<and> closures ch' = {})"
    using rpc_channel_safe [OF one_call_reach] by blast
  from spec [OF this, of "[1]"] show ?thesis by (simp add: o del: destroy_calls.simps)
qed

end
