(* ===== verification/Rpc_Call.thy ===== *)
theory Rpc_Call
  imports Rpc_Channel
begin

text \<open>
  Remote calls from end to end: a client makes calls on its channel, the frames travel as bytes that are cut
  into deliveries in any way, the channel of the server answers, and the answers travel back. Both channels
  (\<^verbatim>\<open>src/src/rpc_channel.cc\<close>) work over the codec (\<^verbatim>\<open>src/src/rpc_codec.cc\<close>).
\<close>

section \<open>Calls and their messages\<close>

record 'v rpc_call =
  to_service :: string
  to_method :: string
  request_value :: 'v
  response_value :: 'v
  on_done :: nat

fun make_calls :: "('v \<Rightarrow> byte list) \<Rightarrow> 'v rpc_call list \<Rightarrow> 'v async_channel \<Rightarrow> 'v async_channel res" where
  "make_calls ser [] ch = Inr ch"
| "make_calls ser (c # cs) ch =
     (case new_message (response_value c) ch of (a, ch1) \<Rightarrow>
        res_bind (CallMethod ser (to_service c) (to_method c) (request_value c) (Some a) (Some (on_done c))
          (ch1\<lparr>closures := insert (on_done c) (closures ch1)\<rparr>)) (make_calls ser cs))"

definition request_of :: "('v \<Rightarrow> byte list) \<Rightarrow> 64 word \<Rightarrow> 'v rpc_call \<Rightarrow> RpcMessage" where
  "request_of ser k c = request_message k (to_service c) (to_method c) (ser (request_value c))"

text \<open>What the server answers, when every method runs its closure at once.\<close>

definition reply_to ::
  "('v \<Rightarrow> byte list \<Rightarrow> bool \<times> 'v) \<Rightarrow> ('v \<Rightarrow> byte list) \<Rightarrow> (string \<rightharpoonup> 'v service) \<Rightarrow> 64 word \<Rightarrow> 'v rpc_call \<Rightarrow> RpcMessage" where
  "reply_to parse ser ss k c =
     (case find_method parse (Some ss) (request_of ser k c) of
        Inl e \<Rightarrow> error_reply k e
      | Inr (meth, req) \<Rightarrow> no_message\<lparr>mtype := RESPONSE, mid := k, mresponse := Some (ser (the (serve meth req)))\<rparr>)"

definition at_once ::
  "('v \<Rightarrow> byte list \<Rightarrow> bool \<times> 'v) \<Rightarrow> ('v \<Rightarrow> byte list) \<Rightarrow> (string \<rightharpoonup> 'v service) \<Rightarrow> 'v rpc_call \<Rightarrow> bool" where
  "at_once parse ser ss c =
     (case find_method parse (Some ss) (request_of ser 0 c) of Inl e \<Rightarrow> True | Inr (meth, req) \<Rightarrow> serve meth req \<noteq> None)"

text \<open>The value that the closure of a call finds: the answer of the service, or, when the call was refused, the
  value that the response had before.\<close>

definition outcome ::
  "('v \<Rightarrow> byte list \<Rightarrow> bool \<times> 'v) \<Rightarrow> ('v \<Rightarrow> byte list) \<Rightarrow> (string \<rightharpoonup> 'v service) \<Rightarrow> 'v rpc_call \<Rightarrow> 'v" where
  "outcome parse ser ss c =
     (case find_method parse (Some ss) (request_of ser 0 c) of
        Inl e \<Rightarrow> response_value c
      | Inr (meth, req) \<Rightarrow> snd (parse (response_value c) (ser (the (serve meth req)))))"

fun numbered :: "(64 word \<Rightarrow> 'a \<Rightarrow> 'b) \<Rightarrow> 64 word \<Rightarrow> 'a list \<Rightarrow> 'b list" where
  "numbered f k [] = []"
| "numbered f k (x # xs) = f (k + 1) x # numbered f (k + 1) xs"

lemma request_fields:
  "mtype (request_of ser k c) = REQUEST" "mid (request_of ser k c) = k"
  "mservice (request_of ser k c) = Some (to_service c)" "mmethod (request_of ser k c) = Some (to_method c)"
  "mrequest (request_of ser k c) = Some (ser (request_value c))"
  by (simp_all add: request_of_def request_message_def)

lemma find_method_id: "find_method parse ss (request_of ser k c) = find_method parse ss (request_of ser 0 c)"
  unfolding find_method_def request_fields ..

lemma answer_reply: "answer parse (reply_to parse ser ss k c) (response_value c) = outcome parse ser ss c"
  by (simp add: answer_def reply_to_def outcome_def find_method_id [of _ _ _ k] error_reply_def no_message_def split: sum.split prod.split)

lemma reply_fields: "mtype (reply_to parse ser ss k c) = RESPONSE" "mid (reply_to parse ser ss k c) = k"
  by (simp_all add: reply_to_def error_reply_def no_message_def split: sum.split prod.split)

section \<open>The server\<close>

lemma on_events_append:
  "on_events parse ser (es @ fs) ch = res_bind (on_events parse ser es ch) (on_events parse ser fs)"
proof (induction es arbitrary: ch)
  case (Cons e es)
  then have "on_events parse ser (es @ fs) = (\<lambda>x. res_bind (on_events parse ser es x) (on_events parse ser fs))"
    by (rule ext)
  then show ?case by (cases e) (simp_all add: res_bind_assoc)
qed simp

lemma OnRequest_served:
  assumes "has_connection ch" "rpc_services ch = Some ss" "at_once parse ser ss c"
  shows "\<exists>ch'. OnRpcMessage parse ser (request_of ser k c) ch = Inr ch' \<and> has_connection ch' \<and> rpc_services ch' = Some ss \<and>
    sent ch' = sent ch @ [reply_to parse ser ss k c]"
proof -
  note t = request_fields(1,2) [of ser k c]
  show ?thesis
  proof (cases "find_method parse (Some ss) (request_of ser k c)")
    case (Inl e)
    then show ?thesis using assms t by (simp add: OnRpcMessage_def OnRequest_def reply_to_def)
  next
    case (Inr x)
    obtain meth req where x: "x = (meth, req)" by fastforce
    then obtain v where "serve meth req = Some v" using assms(3) Inr by (auto simp: at_once_def find_method_id [of _ _ _ k])
    then show ?thesis
      using assms t Inr x
      by (simp add: OnRpcMessage_def OnRequest_def reply_to_def call_service_def new_message_def DoneCallback_def delete_message_def)
  qed
qed

lemma server_answers:
  assumes "has_connection ch" "rpc_services ch = Some ss" "list_all (at_once parse ser ss) cs"
  shows "\<exists>ch'. on_events parse ser (map MessageCall (numbered (request_of ser) k cs)) ch = Inr ch' \<and>
    sent ch' = sent ch @ numbered (reply_to parse ser ss) k cs"
  using assms
proof (induction cs arbitrary: k ch)
  case Nil
  then show ?case by simp
next
  case (Cons c cs)
  obtain ch1 where ch1: "OnRpcMessage parse ser (request_of ser (k + 1) c) ch = Inr ch1" "has_connection ch1"
    "rpc_services ch1 = Some ss" "sent ch1 = sent ch @ [reply_to parse ser ss (k + 1) c]"
    using OnRequest_served [of ch ss parse ser c "k + 1"] Cons.prems by auto
  show ?case using Cons.IH [OF ch1(2,3), of "k + 1"] Cons.prems(3) ch1(1,4) by simp
qed

section \<open>The client\<close>

lemma numbered_map: "numbered f k xs = map (\<lambda>(i, x). f i x) (numbered Pair k xs)"
  by (induction xs arbitrary: k) simp_all

definition call_waits :: "'v async_channel \<Rightarrow> 64 word \<Rightarrow> 'v rpc_call \<Rightarrow> bool" where
  "call_waits ch i c \<longleftrightarrow>
     (\<exists>a. outstanding_calls ch i = Some \<lparr>response_message = Some a, done_callback = Some (on_done c)\<rparr> \<and>
        messages ch a = Some (response_value c))"

text \<open>The calls \<open>ps\<close>, with their identifiers, are those that are outstanding.\<close>

definition waits :: "'v async_channel \<Rightarrow> (64 word \<times> 'v rpc_call) list \<Rightarrow> bool" where
  "waits ch ps \<longleftrightarrow>
     distinct (map fst ps) \<and> dom (outstanding_calls ch) = fst ` set ps \<and>
     (\<forall>(i, c) \<in> set ps. call_waits ch i c)"

text \<open>The channel after one more call.\<close>

definition called :: "('v \<Rightarrow> byte list) \<Rightarrow> 'v rpc_call \<Rightarrow> 'v async_channel \<Rightarrow> 'v async_channel" where
  "called ser c ch =
     (let a = next_message ch; k = id_counter ch + 1 in
      ch\<lparr>messages := (messages ch)(a \<mapsto> response_value c), next_message := Suc a,
         closures := insert (on_done c) (closures ch), id_counter := k,
         outstanding_calls := (outstanding_calls ch)(k \<mapsto> \<lparr>response_message = Some a, done_callback = Some (on_done c)\<rparr>),
         sent := sent ch @ [request_of ser k c]\<rparr>)"

lemma call_called:
  assumes "has_connection ch" and new: "new_message (response_value c) ch = (a, ch1)"
  shows "CallMethod ser (to_service c) (to_method c) (request_value c) (Some a) (Some (on_done c))
    (ch1\<lparr>closures := insert (on_done c) (closures ch1)\<rparr>) = Inr (called ser c ch)"
proof -
  have "ch1 = ch\<lparr>messages := (messages ch)(a \<mapsto> response_value c), next_message := Suc (next_message ch)\<rparr>" "a = next_message ch"
    using new by (auto simp: new_message_def)
  then show ?thesis
    using assms(1) by (simp add: CallMethod_def register_call_def called_def request_of_def Let_def)
qed

lemma make_calls_Cons: "has_connection ch \<Longrightarrow> make_calls ser (c # cs) ch = make_calls ser cs (called ser c ch)"
  using call_called [of ch c] by (simp add: case_prod_beta)

lemma called_ok:
  assumes ok: "channel_ok id0 n ch" and n: "n + 1 < 2 ^ 64"
    and d: "on_done c \<notin> closures ch" "on_done c \<notin> fst ` set (done_runs ch)"
  shows "channel_ok id0 (n + 1) (called ser c ch)"
proof -
  obtain a ch1 where new: "new_message (response_value c) ch = (a, ch1)" by fastforce
  have "has_connection ch" using ok by (simp add: channel_ok_def)
  from CallMethod_ok [OF ok n d new, of ser "to_service c" "to_method c" "request_value c"]
    call_called [OF this new, of ser] show ?thesis by auto
qed

lemma called_waits:
  assumes ok: "channel_ok id0 n ch" and n: "n + 1 < 2 ^ 64" and w: "waits ch ps"
  shows "waits (called ser c ch) (ps @ [(id_counter ch + 1, c)])"
proof -
  let ?k = "id_counter ch + 1" and ?ch = "called ser c ch"
  have c: "calls_ok id0 n (fst ` set (pending_done ch)) ch" "\<forall>a \<in> dom (messages ch). a < next_message ch"
    using ok by (simp_all add: channel_ok_def)
  have "outstanding_calls ch ?k = None" by (rule calls_fresh [OF c(1) n])
  then have k: "?k \<notin> fst ` set ps" using w by (auto simp: waits_def domIff)
  have f: "outstanding_calls ?ch = (outstanding_calls ch)(?k \<mapsto>
      \<lparr>response_message = Some (next_message ch), done_callback = Some (on_done c)\<rparr>)"
    "messages ?ch = (messages ch)(next_message ch \<mapsto> response_value c)" by (simp_all add: called_def Let_def)
  have "call_waits ?ch i x" if i: "(i, x) \<in> set ps" for i x
  proof -
    obtain a where a: "outstanding_calls ch i = Some \<lparr>response_message = Some a, done_callback = Some (on_done x)\<rparr>"
      "messages ch a = Some (response_value x)" using w i by (auto simp: waits_def call_waits_def)
    have "i \<noteq> ?k" using i k by force
    moreover have "a \<noteq> next_message ch" using c(2) a(2) by (auto simp: dom_def)
    ultimately show ?thesis using a by (simp add: f call_waits_def)
  qed
  moreover have "call_waits ?ch ?k c" by (simp add: f call_waits_def)
  moreover have "dom (outstanding_calls ?ch) = fst ` set (ps @ [(?k, c)])" using w by (simp add: f waits_def)
  moreover have "distinct (map fst (ps @ [(?k, c)]))" using w k by (simp add: waits_def)
  ultimately show ?thesis by (auto simp: waits_def)
qed

lemma make_calls_ok:
  assumes "channel_ok id0 n ch" "n + length cs < 2 ^ 64" "waits ch ps" "distinct (map on_done cs)"
    "on_done ` set cs \<inter> (closures ch \<union> fst ` set (done_runs ch)) = {}"
  shows "\<exists>ch'. make_calls ser cs ch = Inr ch' \<and> channel_ok id0 (n + length cs) ch' \<and>
    waits ch' (ps @ numbered Pair (id_counter ch) cs) \<and> sent ch' = sent ch @ numbered (request_of ser) (id_counter ch) cs \<and>
    done_runs ch' = done_runs ch \<and> pending_done ch' = pending_done ch"
  using assms
proof (induction cs arbitrary: n ch ps)
  case Nil
  then show ?case by simp
next
  case (Cons c cs)
  let ?ch = "called ser c ch"
  have n: "n + 1 < 2 ^ 64" "n + 1 + length cs < 2 ^ 64" using Cons.prems(2) by simp_all
  have d: "on_done c \<notin> closures ch" "on_done c \<notin> fst ` set (done_runs ch)" using Cons.prems(5) by auto
  have f: "closures ?ch = insert (on_done c) (closures ch)" "done_runs ?ch = done_runs ch" "id_counter ?ch = id_counter ch + 1"
    "sent ?ch = sent ch @ [request_of ser (id_counter ch + 1) c]" "pending_done ?ch = pending_done ch"
    by (simp_all add: called_def Let_def)
  have fresh: "on_done ` set cs \<inter> (closures ?ch \<union> fst ` set (done_runs ?ch)) = {}" "distinct (map on_done cs)"
    using Cons.prems(4,5) by (auto simp: f)
  have "has_connection ch" using Cons.prems(1) by (simp add: channel_ok_def)
  then show ?case
    using Cons.IH [OF called_ok [OF Cons.prems(1) n(1) d] n(2) called_waits [OF Cons.prems(1) n(1) Cons.prems(3)] fresh(2,1)]
    by (simp add: make_calls_Cons f del: make_calls.simps(2))
qed

lemma reply_step:
  assumes ok: "channel_ok id0 n ch" and w: "waits ch ((i, c) # ps)"
  shows "\<exists>ch'. OnRpcMessage parse ser (reply_to parse ser ss i c) ch = Inr ch' \<and> channel_ok id0 n ch' \<and> waits ch' ps \<and>
    done_runs ch' = done_runs ch @ [(on_done c, Some (outcome parse ser ss c))] \<and> pending_done ch' = pending_done ch"
proof -
  let ?m = "reply_to parse ser ss i c"
  obtain a where a: "outstanding_calls ch i = Some \<lparr>response_message = Some a, done_callback = Some (on_done c)\<rparr>"
    "messages ch a = Some (response_value c)" using w by (auto simp: waits_def call_waits_def)
  have calls: "calls_ok id0 n (fst ` set (pending_done ch)) ch" using ok by (simp add: channel_ok_def)
  have r: "resp_of ch i = Some a" "done_of ch i = Some (on_done c)" using a(1) by (simp_all add: resp_of_def done_of_def)
  have d: "on_done c \<in> closures ch" by (rule refs_alive [OF calls_okD(2) [OF calls] r(2)])
  let ?ch = "answered i a (Some (on_done c)) (outcome parse ser ss c) ch"
  have eq: "OnResponse parse ?m ch = Inr ?ch"
    using OnResponse_eq [of ch ?m _ a "response_value c" parse] a d by (simp add: reply_fields answer_reply)
  have "channel_ok id0 n ?ch" using OnResponse_ok [OF ok, of parse ?m] eq by auto
  moreover have f: "outstanding_calls ?ch = (outstanding_calls ch)(i := None)" "messages ?ch = (messages ch)(a := None)"
    "done_runs ?ch = done_runs ch @ [(on_done c, Some (outcome parse ser ss c))]" "pending_done ?ch = pending_done ch"
    by (simp_all add: answered_def)
  have "waits ?ch ps"
  proof -
    have "call_waits ?ch j x" if j: "(j, x) \<in> set ps" for j x
    proof -
      obtain b where b: "outstanding_calls ch j = Some \<lparr>response_message = Some b, done_callback = Some (on_done x)\<rparr>"
        "messages ch b = Some (response_value x)" using w j by (auto simp: waits_def call_waits_def)
      have ne: "j \<noteq> i" using w j by (force simp: waits_def)
      have "resp_of ch j = Some b" using b(1) by (simp add: resp_of_def)
      then have "b \<noteq> a"
        using calls_okD(1) [OF calls] r(1) ne by (metis (no_types) domI inj_onD refs_ok_def)
      then show ?thesis using b ne by (simp add: call_waits_def f)
    qed
    moreover have "dom (outstanding_calls ?ch) = fst ` set ps" using w by (force simp: waits_def f)
    ultimately show ?thesis using w by (auto simp: waits_def)
  qed
  ultimately show ?thesis using eq f(3,4) by (simp add: OnRpcMessage_def reply_fields)
qed

lemma client_gets:
  assumes "channel_ok id0 n ch" "waits ch ps"
  shows "\<exists>ch'. on_events parse ser (map MessageCall (map (\<lambda>(i, c). reply_to parse ser ss i c) ps)) ch = Inr ch' \<and>
    channel_ok id0 n ch' \<and> waits ch' [] \<and> pending_done ch' = pending_done ch \<and>
    done_runs ch' = done_runs ch @ map (\<lambda>(i, c). (on_done c, Some (outcome parse ser ss c))) ps"
  using assms
proof (induction ps arbitrary: ch)
  case Nil
  then show ?case by simp
next
  case (Cons p ps)
  obtain i c where p: "p = (i, c)" by fastforce
  obtain ch1 where ch1: "OnRpcMessage parse ser (reply_to parse ser ss i c) ch = Inr ch1" "channel_ok id0 n ch1" "waits ch1 ps"
    "done_runs ch1 = done_runs ch @ [(on_done c, Some (outcome parse ser ss c))]" "pending_done ch1 = pending_done ch"
    using reply_step [OF Cons.prems(1), of i c ps parse ser ss] Cons.prems(2) p by blast
  show ?case using Cons.IH [OF ch1(2,3)] by (simp add: p ch1)
qed

section \<open>Over the wire\<close>

text \<open>A connection whose input goes to a channel: each delivery is appended to the input buffer, then the message
  callback runs.\<close>

fun channel_receive ::
  "adler \<Rightarrow> (byte list \<Rightarrow> RpcMessage option) \<Rightarrow> bool \<Rightarrow> ('v \<Rightarrow> byte list \<Rightarrow> bool \<times> 'v) \<Rightarrow> ('v \<Rightarrow> byte list) \<Rightarrow> byte list list \<Rightarrow>
   io_buffer \<Rightarrow> 'v async_channel \<Rightarrow> (io_buffer \<times> 'v async_channel) res" where
  "channel_receive adler32 ParseFromArray le parse ser [] b ch = Inr (b, ch)"
| "channel_receive adler32 ParseFromArray le parse ser (d # ds) b ch =
     res_bind (Append d b) (\<lambda>b1.
       res_bind (Channel_OnMessage adler32 ParseFromArray le parse ser b1 ch) (\<lambda>(b2, ch2).
         channel_receive adler32 ParseFromArray le parse ser ds b2 ch2))"

lemma channel_receive_events:
  assumes "receive adler32 pfa le (RpcCodec_async kRpcTag None) ds b = Inr (evs, b')"
    and "on_events parse ser evs ch = Inr ch'"
  shows "channel_receive adler32 pfa le parse ser ds b ch = Inr (b', ch')"
  using assms
proof (induction ds arbitrary: b evs ch)
  case Nil
  then show ?case by simp
next
  case (Cons d ds)
  obtain b1 es b2 fs where r: "Append d b = Inr b1" "OnMessage adler32 pfa le (RpcCodec_async kRpcTag None) b1 = Inr (es, b2)"
    "receive adler32 pfa le (RpcCodec_async kRpcTag None) ds b2 = Inr (fs, b')" "evs = es @ fs"
    using Cons.prems(1) by (auto simp: res_bind_Inr_iff)
  obtain ch2 where ch2: "on_events parse ser es ch = Inr ch2" "on_events parse ser fs ch2 = Inr ch'"
    using Cons.prems(2) by (auto simp: r(4) on_events_append res_bind_Inr_iff)
  show ?case using Cons.IH [OF r(3) ch2(2)] by (simp add: r(1,2) ch2(1) Channel_OnMessage_def)
qed

text \<open>A buffer that has room for the deliveries.\<close>

definition has_room :: "byte list list \<Rightarrow> io_buffer \<Rightarrow> bool" where
  "has_room ds b \<longleftrightarrow> io_buffer_ok b \<and> contents b = [] \<and> kReservedCapacity \<le> writing_index b \<and>
     length (concat ds) \<le> GetWritableBytes b"

lemma wire:
  assumes "\<And>m. ByteSizeLong m = length (serm m)" "list_all (rpc_sendable adler32 pfa serm (RpcCodec_async kRpcTag None)) ms"
  shows "\<exists>ss. map (Send adler32 ByteSizeLong serm le (RpcCodec_async kRpcTag None)) ms = map Inr ss \<and>
    (\<forall>ds b parse ser ch ch'. concat ds = concat (map contents ss) \<longrightarrow> has_room ds b \<longrightarrow>
       on_events parse ser (map MessageCall ms) ch = Inr ch' \<longrightarrow>
       (\<exists>b'. channel_receive adler32 pfa le' parse ser ds b ch = Inr (b', ch') \<and> contents b' = []))"
proof -
  let ?c = "RpcCodec_async kRpcTag None"
  have "AsyncRawCallback ?c = None" by (simp add: RpcCodec_async_def)
  from rpc_stream [of ByteSizeLong serm, OF assms refl this, of le le'] obtain ss where
    ss: "map (Send adler32 ByteSizeLong serm le ?c) ms = map Inr ss"
      "\<forall>ds b. concat ds = concat (map contents ss) \<and> io_buffer_ok b \<and> contents b = [] \<and>
         kReservedCapacity \<le> writing_index b \<and> length (concat ds) \<le> GetWritableBytes b \<longrightarrow>
         (\<exists>b'. receive adler32 pfa le' ?c ds b = Inr (map MessageCall ms, b') \<and> contents b' = [])" by blast
  show ?thesis
  proof (intro exI [of _ ss] conjI allI impI)
    fix ds b ch ch' and parse :: "'v \<Rightarrow> byte list \<Rightarrow> bool \<times> 'v" and ser
    assume "concat ds = concat (map contents ss)" "has_room ds b" "on_events parse ser (map MessageCall ms) ch = Inr ch'"
    then show "\<exists>b'. channel_receive adler32 pfa le' parse ser ds b ch = Inr (b', ch') \<and> contents b' = []"
      using ss(2) channel_receive_events unfolding has_room_def by meson
  qed (rule ss(1))
qed

section \<open>Theorem\<close>

lemma waits_start: "waits (RpcAsyncChannel id0 True) []"
  by (simp add: waits_def RpcAsyncChannel_def)

lemma client_done:
  assumes ok: "channel_ok id0 n ch" and "waits ch []" "pending_done ch = []"
  shows "outstanding_calls ch = Map.empty \<and> messages ch = Map.empty"
proof -
  have o: "outstanding_calls ch = Map.empty" using assms(2) by (simp add: waits_def)
  then have "resp_of ch = Map.empty" by (simp add: resp_of_def fun_eq_iff)
  moreover have "refs_ok (resp_of ch) (fst ` set (pending_done ch)) (dom (messages ch))"
    using ok by (simp add: channel_ok_def calls_ok_def)
  ultimately show ?thesis using o assms(3) by simp
qed

text \<open>The exchange at the level of messages.\<close>

lemma rpc_exchange:
  fixes parse :: "'v \<Rightarrow> byte list \<Rightarrow> bool \<times> 'v"
  assumes once: "list_all (at_once parse ser ss) cs" and n: "length cs < 2 ^ 64" "distinct (map on_done cs)"
  obtains client server client' where "make_calls ser cs (RpcAsyncChannel id0 True) = Inr client"
    "sent client = numbered (request_of ser) id0 cs"
    "on_events parse ser (map MessageCall (sent client)) (SetServices ss (RpcAsyncChannel id1 True)) = Inr server"
    "sent server = numbered (reply_to parse ser ss) id0 cs"
    "on_events parse ser (map MessageCall (sent server)) client = Inr client'"
    "done_runs client' = map (\<lambda>c. (on_done c, Some (outcome parse ser ss c))) cs"
    "outstanding_calls client' = Map.empty" "messages client' = Map.empty"
proof -
  let ?c0 = "RpcAsyncChannel id0 True :: 'v async_channel" and ?s0 = "SetServices ss (RpcAsyncChannel id1 True)"
  have c0: "closures ?c0 = {}" "done_runs ?c0 = []" "id_counter ?c0 = id0" "sent ?c0 = []" "pending_done ?c0 = []"
    by (simp_all add: RpcAsyncChannel_def)
  have fresh: "on_done ` set cs \<inter> (closures ?c0 \<union> fst ` set (done_runs ?c0)) = {}" by (simp add: c0)
  obtain client where client: "make_calls ser cs ?c0 = Inr client" "channel_ok id0 (length cs) client"
    "waits client (numbered Pair id0 cs)" "sent client = numbered (request_of ser) id0 cs"
    "done_runs client = []" "pending_done client = []"
    using make_calls_ok [OF channel_start _ waits_start n(2) fresh, of ser] n(1) by (auto simp: c0)
  have s0: "has_connection ?s0" "rpc_services ?s0 = Some ss" "sent ?s0 = []"
    by (simp_all add: SetServices_def RpcAsyncChannel_def)
  obtain server where server: "on_events parse ser (map MessageCall (sent client)) ?s0 = Inr server"
    "sent server = numbered (reply_to parse ser ss) id0 cs"
    using server_answers [OF s0(1,2) once, of id0] by (auto simp: s0(3) client(4))
  obtain client' where client': "on_events parse ser (map MessageCall (sent server)) client = Inr client'"
    "channel_ok id0 (length cs) client'" "waits client' []" "pending_done client' = []"
    "done_runs client' = map (\<lambda>(i, c). (on_done c, Some (outcome parse ser ss c))) (numbered Pair id0 cs)"
    using client_gets [OF client(2,3), of parse ser ss] by (auto simp: server(2) numbered_map [of "reply_to parse ser ss"] client(5,6))
  have "map (\<lambda>(i, c). (on_done c, Some (outcome parse ser ss c))) (numbered Pair k xs) =
      map (\<lambda>c. (on_done c, Some (outcome parse ser ss c))) xs" for k and xs :: "'v rpc_call list"
    by (induction xs arbitrary: k) simp_all
  then show thesis using that client(1,4) server client'(1,5) client_done [OF client'(2-4)] by simp
qed


text \<open>A service with one method, which appends a byte to its request, and two calls: one of the method, one of a
  method that does not exist. The toy serialisation knows the four messages.\<close>

definition toy_method :: "byte list rpc_method" where
  "toy_method = \<lparr>request_prototype = [], response_prototype = [], serve = (\<lambda>r. Some (r @ [7]))\<rparr>"

definition toy_services :: "string \<rightharpoonup> byte list service" where
  "toy_services = [''Toy'' \<mapsto> [''put'' \<mapsto> toy_method]]"

definition toy_calls :: "byte list rpc_call list" where
  "toy_calls =
     [\<lparr>to_service = ''Toy'', to_method = ''put'', request_value = [1], response_value = [], on_done = 5\<rparr>,
      \<lparr>to_service = ''Toy'', to_method = ''get'', request_value = [2], response_value = [9], on_done = 6\<rparr>]"

definition toy_messages :: "RpcMessage list" where
  "toy_messages = numbered (request_of (\<lambda>v. v)) 0 toy_calls @
     numbered (reply_to (\<lambda>v bs. (True, bs)) (\<lambda>v. v) toy_services) 0 toy_calls"

definition toy_ser :: "RpcMessage \<Rightarrow> byte list" where
  "toy_ser m = (if m = toy_messages ! 0 then [0] else if m = toy_messages ! 1 then [1]
     else if m = toy_messages ! 2 then [2] else [3])"

definition toy_parse :: "byte list \<Rightarrow> RpcMessage option" where
  "toy_parse bs = (case bs of [x] \<Rightarrow> if unat x < 4 then Some (toy_messages ! unat x) else None | _ \<Rightarrow> None)"

lemma toy_messages_eq:
  "toy_messages =
     [request_message 1 ''Toy'' ''put'' [1], request_message 2 ''Toy'' ''get'' [2],
      no_message\<lparr>mtype := RESPONSE, mid := 1, mresponse := Some [1, 7]\<rparr>, error_reply 2 NO_METHOD]"
  by (simp add: toy_messages_def toy_calls_def reply_to_def request_of_def find_method_def request_message_def
      no_message_def get_string_def get_bytes_def toy_services_def toy_method_def)

lemma toy_sendable:
  assumes "m \<in> set toy_messages"
  shows "rpc_sendable (\<lambda>a bs. a) toy_parse toy_ser (RpcCodec_async kRpcTag None) m"
proof -
  have "toy_parse (toy_ser m) = Some m"
    using assms by (auto simp: toy_messages_eq toy_ser_def toy_parse_def request_message_def error_reply_def no_message_def)
  moreover have "length (toy_ser m) = 1" by (simp add: toy_ser_def)
  ultimately show ?thesis
    by (simp add: rpc_sendable_def rpc_body_def RpcCodec_async_def kRpcTag_def kMaxMessageLength_def)
qed

lemma toy_outcomes:
  "map (\<lambda>c. (on_done c, Some (outcome (\<lambda>v bs. (True, bs)) (\<lambda>v. v) toy_services c))) toy_calls = [(5, Some [1, 7]), (6, Some [9])]"
  by (simp add: toy_calls_def outcome_def find_method_def request_fields get_string_def get_bytes_def toy_services_def toy_method_def)


end
