(* ===== verification/Rpc_Sync.thy ===== *)
theory Rpc_Sync
  imports Rpc_Call
begin

text \<open>
  The blocking RPC channel (\<^verbatim>\<open>RpcSyncChannel\<close> of \<^verbatim>\<open>src/src/rpc_channel.cc\<close>), which sends a request and reads
  one message, and the RPC server (\<^verbatim>\<open>src/src/rpc_server.cc\<close>), which gives every connection an asynchronous
  channel with the services.

  The results of the system calls are arguments; \<open>None\<close> inside a result is a call that has not returned after
  the results it was given.
\<close>

section \<open>The blocking channel\<close>

record 'v sync_channel = "'v rpc_calls" +
  sync_fd :: int
  sync_buffer :: io_buffer
  written :: "byte list"
  sync_closed :: "int list"

text \<open>The constructor: \<open>fd\<close> is the result of \<open>socket\<close>, \<open>connected\<close> says whether \<open>connect\<close> succeeded. \<open>None\<close> is
  \<open>exit(-1)\<close>.\<close>

definition RpcSyncChannel :: "64 word \<Rightarrow> int \<Rightarrow> bool \<Rightarrow> 'v sync_channel res option" where
  "RpcSyncChannel id0 fd connected =
     (if fd < 0 then None
      else Some (res_bind (IoBuffer kInitialCapacity) (\<lambda>b.
        Inr \<lparr>id_counter = id0, outstanding_calls = Map.empty, messages = Map.empty, closures = {}, done_runs = [],
             sync_fd = (if connected then fd else - 100), sync_buffer = b, written = [],
             sync_closed = (if connected then [] else [fd])\<rparr>)))"

definition destroy_sync_channel :: "'v sync_channel \<Rightarrow> 'v sync_channel" where
  "destroy_sync_channel ch = (if 0 \<le> sync_fd ch then ch\<lparr>sync_closed := sync_closed ch @ [sync_fd ch]\<rparr> else ch)"

definition OnRpcMessage_sync ::
  "('v \<Rightarrow> byte list \<Rightarrow> bool \<times> 'v) \<Rightarrow> RpcMessage \<Rightarrow> 'v sync_channel \<Rightarrow> 'v sync_channel res" where
  "OnRpcMessage_sync parse m ch =
     (if mtype m = RESPONSE
      then (case take_call (mid m) ch of (oc, ch1) \<Rightarrow>
              case response_message oc of
                None \<Rightarrow> Inr ch1
              | Some a \<Rightarrow> finish_call parse m a (done_callback oc) ch1)
      else Inr ch)"

text \<open>The default error callback only logs.\<close>

fun on_events_sync ::
  "('v \<Rightarrow> byte list \<Rightarrow> bool \<times> 'v) \<Rightarrow> RpcMessage rpc_event list \<Rightarrow> 'v sync_channel \<Rightarrow> 'v sync_channel res" where
  "on_events_sync parse [] ch = Inr ch"
| "on_events_sync parse (MessageCall m # evs) ch = res_bind (OnRpcMessage_sync parse m ch) (on_events_sync parse evs)"
| "on_events_sync parse (ErrCall e # evs) ch = on_events_sync parse evs ch"
| "on_events_sync parse (RawCall raw # evs) ch = on_events_sync parse evs ch"

definition SyncChannel_OnMessage ::
  "adler \<Rightarrow> (byte list \<Rightarrow> RpcMessage option) \<Rightarrow> bool \<Rightarrow> ('v \<Rightarrow> byte list \<Rightarrow> bool \<times> 'v) \<Rightarrow> int option \<Rightarrow> recv_result list \<Rightarrow>
   'v sync_channel \<Rightarrow> 'v sync_channel option res" where
  "SyncChannel_OnMessage adler32 pfa le parse so rs ch =
     res_bind (OnMessage_sync adler32 pfa le (RpcCodec_sync kRpcTag None) so (sync_fd ch) rs (sync_buffer ch)) (\<lambda>r.
       case r of
         None \<Rightarrow> Inr None
       | Some (evs, rest, b) \<Rightarrow> res_bind (on_events_sync parse evs (ch\<lparr>sync_buffer := b\<rparr>)) (\<lambda>ch'. Inr (Some ch')))"

text \<open>\<open>so1\<close> and \<open>ws\<close> are the results of \<open>getsockopt\<close> and \<open>send\<close> while the request goes out, \<open>so2\<close> and \<open>rs\<close>
  those of \<open>getsockopt\<close> and \<open>recv\<close> while the answer comes in.\<close>

definition CallMethod_sync ::
  "adler \<Rightarrow> (RpcMessage \<Rightarrow> nat) \<Rightarrow> (RpcMessage \<Rightarrow> byte list) \<Rightarrow> (byte list \<Rightarrow> RpcMessage option) \<Rightarrow> bool \<Rightarrow>
   ('v \<Rightarrow> byte list \<Rightarrow> bool \<times> 'v) \<Rightarrow> ('v \<Rightarrow> byte list) \<Rightarrow> int option \<Rightarrow> (int + nat) list \<Rightarrow> int option \<Rightarrow> recv_result list \<Rightarrow>
   string \<Rightarrow> string \<Rightarrow> 'v \<Rightarrow> nat option \<Rightarrow> nat option \<Rightarrow> 'v sync_channel \<Rightarrow> 'v sync_channel option res" where
  "CallMethod_sync adler32 ByteSizeLong serm pfa le parse ser so1 ws so2 rs service meth request response done_cb ch =
     (case register_call response done_cb ch of (cid, ch1) \<Rightarrow>
        if sync_fd ch1 < 0 then Inr (Some ch1)
        else
          res_bind (Send_sync adler32 ByteSizeLong serm le (RpcCodec_sync kRpcTag None) so1 (sync_fd ch1) ws
              (request_message cid service meth (ser request))) (\<lambda>s.
            case s of
              None \<Rightarrow> Inr None
            | Some out \<Rightarrow> SyncChannel_OnMessage adler32 pfa le parse so2 rs (ch1\<lparr>written := written ch1 @ out\<rparr>)))"

section \<open>What a blocking call returns\<close>

text \<open>
  C32. A blocking call on a connected channel with nothing outstanding writes the frame of its request, reads the
  frame of one message, and returns. When the message is the response to the call, the closure has run and found the answer, the
  response object stays with the caller, and nothing is outstanding. When it is any other message, for
  instance one with another identifier, the call returns too: the closure has not run, the response is as it was, and
  the call stays in the table. A channel that could not connect returns at once in the same way.
\<close>

theorem sync_call_outcomes:
  assumes ch: "outstanding_calls ch = Map.empty" "0 \<le> sync_fd ch" "messages ch a = Some v" "d \<in> closures ch"
    and buffer: "io_buffer_ok (sync_buffer ch)" "reading_index (sync_buffer ch) = kReservedCapacity" "contents (sync_buffer ch) = []"
    and request: "req = request_message (id_counter ch + 1) service meth (ser request)" "ByteSizeLong req = length (serm req)"
      "length (rpc_body adler32 serm (RpcCodec_sync kRpcTag None) req) < 2 ^ 32"
      "CheckSocketStatusValid so1 (sync_fd ch)"
      "send_ok ws (length (rpc_encode adler32 serm (RpcCodec_sync kRpcTag None) req))"
    and reply: "rpc_sendable adler32 pfa serm (RpcCodec_sync kRpcTag None) m" "CheckSocketStatusValid so2 (sync_fd ch)"
      "received_bytes rs1 @ received_bytes rs2 = rpc_encode adler32 serm (RpcCodec_sync kRpcTag None) m"
      "recv_ok rs1 12" "length (received_bytes rs1) = 12" "recv_ok rs2 (length (received_bytes rs2))"
  shows "\<exists>ch'. CallMethod_sync adler32 ByteSizeLong serm pfa le parse ser so1 ws so2 (rs1 @ rs2) service meth request (Some a) (Some d) ch =
      Inr (Some ch') \<and>
    written ch' = written ch @ rpc_encode adler32 serm (RpcCodec_sync kRpcTag None) req \<and>
    (if mtype m = RESPONSE \<and> mid m = id_counter ch + 1
     then done_runs ch' = done_runs ch @ [(d, Some (answer parse m v))] \<and> messages ch' = (messages ch)(a \<mapsto> answer parse m v) \<and>
       outstanding_calls ch' = Map.empty
     else done_runs ch' = done_runs ch \<and> messages ch' = messages ch \<and> outstanding_calls ch' (id_counter ch + 1) \<noteq> None) \<and>
    (\<exists>ch2. CallMethod_sync adler32 ByteSizeLong serm pfa le parse ser so1 ws so2 (rs1 @ rs2) service meth request (Some a) (Some d)
       (ch\<lparr>sync_fd := - 100\<rparr>) = Inr (Some ch2) \<and> done_runs ch2 = done_runs ch \<and> outstanding_calls ch2 (id_counter ch + 1) \<noteq> None)"
proof -
  let ?c = "RpcCodec_sync kRpcTag None"
  let ?k = "id_counter ch + 1"
  let ?oc = "\<lparr>response_message = Some a, done_callback = Some d\<rparr>"
  let ?ch1 = "ch\<lparr>id_counter := ?k, outstanding_calls := [?k \<mapsto> ?oc], written := written ch @ rpc_encode adler32 serm ?c req\<rparr>"
  have tag: "tag ?c = kRpcTag" "AsyncRawCallback ?c = None" "length kRpcTag + 8 = 12"
    by (simp_all add: RpcCodec_sync_def kRpcTag_def)
  obtain b where b: "OnMessage_sync adler32 pfa le ?c so2 (sync_fd ch) (rs1 @ rs2 @ []) (sync_buffer ch) =
      Inr (Some ([MessageCall m], [], b))"
    using OnMessage_sync_ok [OF reply(1) tag(2) reply(2) buffer reply(3), where le = le and rs' = "[]"] reply(4-6) tag(1,3) by auto
  have "CallMethod_sync adler32 ByteSizeLong serm pfa le parse ser so1 ws so2 (rs1 @ rs2) service meth request (Some a) (Some d) ch =
      SyncChannel_OnMessage adler32 pfa le parse so2 (rs1 @ rs2) ?ch1"
    using Send_sync_ok [of ByteSizeLong req serm, OF request(2-5)] ch(1,2) request(1) by (simp add: CallMethod_sync_def register_call_def Let_def)
  also have "\<dots> = res_bind (OnRpcMessage_sync parse m (?ch1\<lparr>sync_buffer := b\<rparr>)) (\<lambda>ch'. Inr (Some ch'))"
    using b by (simp add: SyncChannel_OnMessage_def res_bind_assoc)
  finally have call: "CallMethod_sync adler32 ByteSizeLong serm pfa le parse ser so1 ws so2 (rs1 @ rs2) service meth request (Some a) (Some d) ch =
      res_bind (OnRpcMessage_sync parse m (?ch1\<lparr>sync_buffer := b\<rparr>)) (\<lambda>ch'. Inr (Some ch'))" .
  have failed: "\<exists>ch2. CallMethod_sync adler32 ByteSizeLong serm pfa le parse ser so1 ws so2 (rs1 @ rs2) service meth request (Some a) (Some d)
       (ch\<lparr>sync_fd := - 100\<rparr>) = Inr (Some ch2) \<and> done_runs ch2 = done_runs ch \<and> outstanding_calls ch2 ?k \<noteq> None"
    by (simp add: CallMethod_sync_def register_call_def Let_def)
  show ?thesis
  proof (cases "mtype m = RESPONSE \<and> mid m = ?k")
    case True
    then show ?thesis
      using ch(3,4) failed
      by (cases "mresponse m")
        (simp_all add: call OnRpcMessage_sync_def take_call_def finish_call_def ParseFromString_def Run_closure_def answer_def fun_upd_idem)
  next
    case False
    then show ?thesis using failed by (auto simp: call OnRpcMessage_sync_def take_call_def)
  qed
qed

text \<open>A call of the method that appends 7, and its answer.\<close>

definition toy_sync :: "byte list sync_channel" where
  "toy_sync = \<lparr>id_counter = 0, outstanding_calls = Map.empty, messages = [4 \<mapsto> []], closures = {5}, done_runs = [],
     sync_fd = 3, sync_buffer = \<lparr>buffer = replicate 1032 0, reading_index = 8, writing_index = 8\<rparr>, written = [], sync_closed = []\<rparr>"

theorem sync_call_outcomes_witness:
  "\<exists>ch'. CallMethod_sync (\<lambda>a bs. a) (\<lambda>m. length (toy_ser m)) toy_ser toy_parse True (\<lambda>v bs. (True, bs)) (\<lambda>v. v)
     (Some 0) [Inr 13] (Some 0) ([Inr [0, 0, 0, 9, 82, 80, 67, 48, 2, 0, 0, 0]] @ [Inr [1]])
     ''Toy'' ''put'' [1] (Some 4) (Some 5) toy_sync = Inr (Some ch') \<and> done_runs ch' = [(5, Some [1, 7])]"
proof -
  let ?c = "RpcCodec_sync kRpcTag None" and ?m = "toy_messages ! 2"
  have t: "tag ?c = [82, 80, 67, 48]" "tag (RpcCodec_async kRpcTag None) = [82, 80, 67, 48]"
    by (simp_all add: RpcCodec_sync_def RpcCodec_async_def kRpcTag_def)
  have m: "mtype ?m = RESPONSE" "mid ?m = 1" "mresponse ?m = Some [1, 7]"
    "request_message 1 ''Toy'' ''put'' [1] = toy_messages ! 0" by (simp_all add: toy_messages_eq)
  have "rpc_sendable (\<lambda>a bs. a) toy_parse toy_ser (RpcCodec_async kRpcTag None) ?m"
    by (rule toy_sendable) (simp add: toy_messages_eq)
  then have s: "rpc_sendable (\<lambda>a bs. a) toy_parse toy_ser ?c ?m" by (simp add: rpc_sendable_def rpc_body_def t)
  have ser: "toy_ser ?m = [2]" "toy_ser (toy_messages ! 0) = [0]"
    by (simp_all add: toy_ser_def toy_messages_eq request_message_def no_message_def)
  have bytes: "be_bytes 4 (9 :: 32 word) = [0, 0, 0, 9]" "be_bytes 4 (1 :: 32 word) = [0, 0, 0, 1]" by code_simp+
  have enc: "rpc_encode (\<lambda>a bs. a) toy_ser ?c x = [0, 0, 0, 9, 82, 80, 67, 48] @ toy_ser x @ [0, 0, 0, 1]"
    if "length (toy_ser x) = 1" for x
    using that bytes by (simp add: rpc_encode_def rpc_body_def t Checksum_def)
  let ?rs = "[Inr [0, 0, 0, 9, 82, 80, 67, 48, 2, 0, 0, 0]]" and ?rs' = "[Inr [1]]"
  have ch: "outstanding_calls toy_sync = Map.empty" "0 \<le> sync_fd toy_sync" "messages toy_sync 4 = Some []" "5 \<in> closures toy_sync"
    "io_buffer_ok (sync_buffer toy_sync)" "reading_index (sync_buffer toy_sync) = kReservedCapacity" "contents (sync_buffer toy_sync) = []"
    by (simp_all add: toy_sync_def small_buffer_ok contents_def kReservedCapacity_def)
  have req: "toy_messages ! 0 = request_message (id_counter toy_sync + 1) ''Toy'' ''put'' ((\<lambda>v. v) [1])"
    using m(4) by (simp add: toy_sync_def)
  have out: "length (rpc_body (\<lambda>a bs. a) toy_ser ?c (toy_messages ! 0)) < 2 ^ 32" "CheckSocketStatusValid (Some 0) (sync_fd toy_sync)"
    "send_ok [Inr 13] (length (rpc_encode (\<lambda>a bs. a) toy_ser ?c (toy_messages ! 0)))"
    by (simp_all add: rpc_body_def ser t enc toy_sync_def CheckSocketStatusValid_def)
  have ins: "received_bytes ?rs @ received_bytes ?rs' = rpc_encode (\<lambda>a bs. a) toy_ser ?c ?m" "recv_ok ?rs 12"
    "length (received_bytes ?rs) = 12" "recv_ok ?rs' (length (received_bytes ?rs'))"
    by (simp_all add: ser enc)
  obtain ch' where "CallMethod_sync (\<lambda>a bs. a) (\<lambda>m. length (toy_ser m)) toy_ser toy_parse True (\<lambda>v bs. (True, bs)) (\<lambda>v. v)
      (Some 0) [Inr 13] (Some 0) (?rs @ ?rs') ''Toy'' ''put'' [1] (Some 4) (Some 5) toy_sync = Inr (Some ch')"
    "mtype ?m = RESPONSE \<and> mid ?m = id_counter toy_sync + 1 \<Longrightarrow>
     done_runs ch' = done_runs toy_sync @ [(5, Some (answer (\<lambda>v bs. (True, bs)) ?m []))]"
    using sync_call_outcomes [of toy_sync 4 "[]" 5 _ _ _ "\<lambda>v. v" _ "\<lambda>m. length (toy_ser m)" toy_ser "\<lambda>a bs. a",
        OF ch req refl out s out(2) ins, where le = True and parse = "\<lambda>v bs. (True, bs)"]
    by metis
  then show ?thesis using m by (intro exI [of _ ch']) (simp add: answer_def toy_sync_def)
qed

section \<open>The RPC server\<close>

text \<open>The services, and the channels of the connections by descriptor: a channel belongs to the message callback of
  its connection, and to the context of the connection until it goes down. A channel keeps a pointer to the table of
  services, so that it sees the services that are registered later.\<close>

record 'v rpc_server =
  registered_services :: "string \<rightharpoonup> 'v service"
  channels :: "int \<rightharpoonup> 'v async_channel"
  contexts :: "int set"

definition RpcServer :: "'v rpc_server" where
  "RpcServer = \<lparr>registered_services = Map.empty, channels = Map.empty, contexts = {}\<rparr>"

definition RegisterService :: "string \<Rightarrow> 'v service \<Rightarrow> 'v rpc_server \<Rightarrow> 'v rpc_server" where
  "RegisterService name service s = s\<lparr>registered_services := (registered_services s)(name \<mapsto> service)\<rparr>"

definition RpcServer_OnConnection :: "64 word \<Rightarrow> int \<Rightarrow> bool \<Rightarrow> 'v rpc_server \<Rightarrow> 'v rpc_server" where
  "RpcServer_OnConnection id0 fd connected s =
     (if connected
      then s\<lparr>channels := (channels s)(fd \<mapsto> SetServices (registered_services s) (RpcAsyncChannel id0 True)),
             contexts := insert fd (contexts s)\<rparr>
      else s\<lparr>contexts := contexts s - {fd}\<rparr>)"

text \<open>The message callback of a connection; \<open>evs\<close> is what the codec of its channel calls.\<close>

definition RpcServer_OnMessage ::
  "('v \<Rightarrow> byte list \<Rightarrow> bool \<times> 'v) \<Rightarrow> ('v \<Rightarrow> byte list) \<Rightarrow> int \<Rightarrow> RpcMessage rpc_event list \<Rightarrow> 'v rpc_server \<Rightarrow> 'v rpc_server res" where
  "RpcServer_OnMessage parse ser fd evs s =
     (case channels s fd of
        None \<Rightarrow> Inr s
      | Some ch \<Rightarrow>
          res_bind (on_events parse ser evs (SetServices (registered_services s) ch)) (\<lambda>ch'.
            Inr (s\<lparr>channels := (channels s)(fd \<mapsto> ch')\<rparr>)))"

text \<open>A new connection answers the calls of a client with the services that are registered.\<close>

lemma RpcServer_answers:
  assumes "list_all (at_once parse ser (registered_services s)) cs"
  shows "\<exists>s' ch. RpcServer_OnMessage parse ser fd (map MessageCall (numbered (request_of ser) k cs))
      (RpcServer_OnConnection id0 fd True s) = Inr s' \<and>
    channels s' fd = Some ch \<and> sent ch = numbered (reply_to parse ser (registered_services s)) k cs \<and>
    (\<forall>fd'. fd' \<noteq> fd \<longrightarrow> channels s' fd' = channels s fd')"
  using server_answers [of "SetServices (registered_services s) (RpcAsyncChannel id0 True)" "registered_services s" parse ser cs k] assms
  by (auto simp: RpcServer_OnMessage_def RpcServer_OnConnection_def SetServices_def RpcAsyncChannel_def)

end
