(* ===== verification/Server_Reactor.thy ===== *)
theory Server_Reactor
  imports Loop_Safety Load_Balancer Tcp_Acceptor
begin

text \<open>
  The engine of a server (\<open>ServerReactorManager\<close> of \<^verbatim>\<open>src/src/reactor_manager.cc\<close>): an acceptor in the main
  thread, a balancer, and the event managers. A connection that is accepted becomes a task of the event manager
  that the balancer picks; the task inserts and establishes the connection in the thread of that event manager.

  The callbacks of the server are an argument, as a connection gets the user \<open>u\<close> made from them; \<open>evt_of\<close> is the
  eventer in the connection for a descriptor, \<open>p\<close> the poller a new connection finds, \<open>mark\<close> its high-water mark.
  What \<open>getsockname\<close> writes is \<open>names\<close>, \<open>None\<close> when it fails. A connection keeps its
  addresses for its accessors only, so that they end in the task. Connections are values; the object pool that
  their memory comes from is the subject of \<open>Memory_Pool\<close>.
\<close>

section \<open>State\<close>

datatype reactor_task = Establish int net_address net_address

type_synonym 'c manager = "('c, reactor_task) event_manager"

record 'c server_reactor =
  event_managers :: "'c manager list"
  reactor_acceptor :: acceptor
  reactor_balancer :: balancer
  started :: "nat list"

definition GetLocalAddress :: "(int \<Rightarrow> byte list option) \<Rightarrow> int \<Rightarrow> net_address" where
  "GetLocalAddress names fd =
     (case names fd of None \<Rightarrow> replicate sizeof_in6 0 | Some bs \<Rightarrow> put bs (replicate sizeof_in6 0))"

text \<open>The constructor, for \<open>ems\<close>; \<open>None\<close> is \<open>exit(-1)\<close>.\<close>

definition ServerReactorManager ::
  "uring_env \<Rightarrow> bool \<Rightarrow> (nat, accept_fn) poller \<Rightarrow> evt \<Rightarrow> int \<Rightarrow> int \<Rightarrow> net_address \<Rightarrow> bool \<Rightarrow> 'c manager list \<Rightarrow>
   'c server_reactor option" where
  "ServerReactorManager env le p a fd null_fd listen_address should_reuse_port ems =
     (case Acceptor env le p a fd null_fd listen_address should_reuse_port of
        None \<Rightarrow> None
      | Some w \<Rightarrow>
          if 0 \<le> socket_fd (accept_socketer w) \<and> \<not> is_listening w
          then Some \<lparr>event_managers = ems,
                 reactor_acceptor = RegisterNewConnectionCallback True (Acceptor_Listen env w),
                 reactor_balancer = Balancer 0, started = []\<rparr>
          else None)"

text \<open>\<open>EventManager::Loop\<close> and \<open>EventManager::Work\<close> start a loop once.\<close>

definition start_once :: "nat \<Rightarrow> nat list \<Rightarrow> nat list" where
  "start_once i ys = (if i \<in> set ys then ys else ys @ [i])"

definition ServerReactor_Loop :: "'c server_reactor \<Rightarrow> 'c server_reactor res" where
  "ServerReactor_Loop r =
     (let io_thread_amount = length (event_managers r)
      in if io_thread_amount = 0 then Inl OutOfBounds
         else Inr (r\<lparr>started := start_once 0 (fold start_once [1..<io_thread_amount] (started r))\<rparr>))"

text \<open>\<open>Server::Start\<close>: the flag says that the server has started.\<close>

definition Server_Start :: "bool \<Rightarrow> 'c server_reactor \<Rightarrow> (bool \<times> 'c server_reactor) res" where
  "Server_Start is_started r =
     (if \<not> is_started then res_bind (ServerReactor_Loop r) (\<lambda>r'. Inr (True, r')) else Inr (is_started, r))"

lemma fold_start_once: "distinct xs \<Longrightarrow> set xs \<inter> set ys = {} \<Longrightarrow> fold start_once xs ys = ys @ xs"
  by (induction xs arbitrary: ys) (auto simp: start_once_def)

text \<open>Starting a new server starts every event manager, the one of the calling thread last, and starting it again
  does nothing.\<close>

lemma Server_Start_all:
  assumes "event_managers r = em # ems" and "started r = []"
  shows "\<exists>r'. Server_Start False r = Inr (True, r') \<and> started r' = [1..<Suc (length ems)] @ [0] \<and>
    Server_Start True r' = Inr (True, r')"
  using assms fold_start_once [of "[1..<Suc (length ems)]" "[]"]
  by (simp add: Server_Start_def ServerReactor_Loop_def start_once_def Let_def del: upt_Suc)

section \<open>New connections\<close>

definition AcceptNewConnectionCallback ::
  "clock \<Rightarrow> (int \<Rightarrow> byte list option) \<Rightarrow> int \<Rightarrow> net_address \<Rightarrow> 'c server_reactor \<Rightarrow> 'c server_reactor res" where
  "AcceptNewConnectionCallback clock names fd peer_address r =
     res_bind (PickOneEventManager (map GetEventerAmount (event_managers r)) (reactor_balancer r)) (\<lambda>(i, b).
       Inr (r\<lparr>reactor_balancer := b,
              event_managers := (event_managers r)
                [i := RunSoon clock (Establish fd (GetLocalAddress names fd) peer_address) (event_managers r ! i)]\<rparr>))"

text \<open>The task, in the thread of its event manager.\<close>

fun establish ::
  "uring_env \<Rightarrow> conn_user \<Rightarrow> (nat, io_fn) poller \<Rightarrow> (int \<Rightarrow> evt) \<Rightarrow> nat \<Rightarrow> reactor_task \<Rightarrow> 'c manager \<Rightarrow> 'c manager" where
  "establish env u p evt_of mark (Establish fd local_address peer_address) em =
     (case Connecting env p (evt_of fd) mark of
        Inl e \<Rightarrow> em\<lparr>task_error := Some e\<rparr>
      | Inr w \<Rightarrow>
          let em1 = InsertNewConnection fd w em
          in case on_connection (fd, OnEstablishing env u) em1 of
               Inl e \<Rightarrow> em1\<lparr>task_error := Some e\<rparr>
             | Inr em2 \<Rightarrow> em2)"

text \<open>A completion for the acceptor, with what it passes on.\<close>

fun pass_on ::
  "clock \<Rightarrow> (int \<Rightarrow> byte list option) \<Rightarrow> (int \<times> net_address option) list \<Rightarrow> 'c server_reactor \<Rightarrow> 'c server_reactor res" where
  "pass_on clock names [] r = Inr r"
| "pass_on clock names ((fd, Some peer) # xs) r =
     res_bind (AcceptNewConnectionCallback clock names fd peer r) (pass_on clock names xs)"
| "pass_on clock names ((fd, None) # xs) r = pass_on clock names xs r"

definition reactor_accept ::
  "uring_env \<Rightarrow> accept_env \<Rightarrow> clock \<Rightarrow> (int \<Rightarrow> byte list option) \<Rightarrow> cqe \<Rightarrow> 'c server_reactor \<Rightarrow> 'c server_reactor res" where
  "reactor_accept env k clock names c r =
     res_bind (accept_cqe env k c (reactor_acceptor r)) (\<lambda>w.
       pass_on clock names (drop (length (handled (reactor_acceptor r))) (handled w)) (r\<lparr>reactor_acceptor := w\<rparr>))"

section \<open>The share of an event manager\<close>

text \<open>The descriptors of the list \<open>ps\<close> that go to event manager \<open>i\<close>, with \<open>n\<close> of them besides the main one.\<close>

definition share :: "nat \<Rightarrow> int list \<Rightarrow> nat \<Rightarrow> int list" where
  "share n ps i = map ((!) ps) (filter (\<lambda>j. 1 + j mod n = i) [0..<length ps])"

lemma share_Nil [simp]: "share n [] i = []"
  by (simp add: share_def)

lemma share_snoc: "share n (ps @ [fd]) i = share n ps i @ (if 1 + length ps mod n = i then [fd] else [])"
  by (simp add: share_def nth_append)

lemma share_main [simp]: "share n ps 0 = []"
  by (simp add: share_def)

text \<open>The descriptors that wait in a task, and those whose connection is there or was destroyed.\<close>

definition waiting_fds :: "'c manager \<Rightarrow> int list" where
  "waiting_fds em = map (\<lambda>x. case snd x of Establish fd la pa \<Rightarrow> fd) (em_timer em)"

definition served_fds :: "'c manager \<Rightarrow> int multiset" where
  "served_fds em = mset_set (dom (conns em)) + mset (map ev_fd (destroyed em))"

definition manager_ok :: "'c manager \<Rightarrow> int list \<Rightarrow> bool" where
  "manager_ok em fds \<longleftrightarrow> tracked em \<and> timer_ok (em_timer em) \<and> (\<forall>x \<in> set (em_timer em). tp_context (fst x) = 0) \<and>
     mset (waiting_fds em) + served_fds em = mset fds"

definition reactor_inv :: "nat \<Rightarrow> int list \<Rightarrow> 'c server_reactor \<Rightarrow> bool" where
  "reactor_inv n ps r \<longleftrightarrow> 0 < n \<and> n < vector_max_size \<and> length (event_managers r) = Suc n \<and>
     strategy (reactor_balancer r) = kRoundRobin \<and>
     cursor (reactor_balancer r) = (if ps = [] then 0 else 1 + (length ps - 1) mod n) \<and>
     (\<forall>i \<le> n. manager_ok (event_managers r ! i) (share n ps i))"

lemma reactor_next:
  assumes "reactor_inv n ps r"
  shows "\<exists>b. PickOneEventManager (map GetEventerAmount (event_managers r)) (reactor_balancer r) =
      Inr (1 + length ps mod n, b) \<and> strategy b = kRoundRobin \<and> cursor b = 1 + length ps mod n"
proof -
  let ?b = "reactor_balancer r" and ?ms = "map GetEventerAmount (event_managers r)"
  have n: "0 < n" "n < vector_max_size" and len: "length ?ms = Suc n" and s: "strategy ?b = kRoundRobin"
    and c: "cursor ?b = (if ps = [] then 0 else 1 + (length ps - 1) mod n)"
    using assms by (simp_all add: reactor_inv_def)
  have "(length ps - 1) mod n < n" using n(1) by simp
  then have cn: "cursor ?b < Suc n" by (simp add: c)
  have "cursor ?b mod n = length ps mod n"
    by (cases ps) (simp_all add: c mod_Suc_eq)
  then have "(if Suc n \<le> cursor ?b + 1 then 1 else cursor ?b + 1) = 1 + length ps mod n"
    using round_robin_next [of "Suc n" "cursor ?b"] n(1) cn by simp
  then show ?thesis
    using PickOneEventManager_round_robin [of ?b ?ms] s len cn n by (simp add: Let_def)
qed

lemma RunSoon_ok:
  assumes "manager_ok em fds"
  shows "manager_ok (RunSoon clock (Establish fd la pa) em) (fds @ [fd])"
proof -
  let ?x = "(TimePoint_now (clock (clock_reads em)) :: 'a TimePoint, Establish fd la pa)"
  have e: "RunSoon clock (Establish fd la pa) em = WakeUp (em\<lparr>clock_reads := clock_reads em + 1, em_timer := multimap_insert ?x (em_timer em)\<rparr>)"
    by (simp add: RunSoon_def read_clock_def AddTimeTask_def)
  let ?f = "\<lambda>x :: 'a TimePoint \<times> reactor_task. case snd x of Establish fd la pa \<Rightarrow> fd"
  have "mset (map ?f (multimap_insert ?x (em_timer em))) = add_mset fd (mset (map ?f (em_timer em)))"
    unfolding mset_map mset_multimap_insert by simp
  moreover have "timer_ok (multimap_insert ?x (em_timer em))"
    using assms timer_ok_add [of "em_timer em"] by (simp add: manager_ok_def AddTimeTask_def)
  ultimately show ?thesis
    using assms
    by (auto simp: manager_ok_def e waiting_fds_def served_fds_def set_multimap_insert WakeUp_def TimePoint_now_def
        tracked_def)
qed

lemma Accept_ok:
  assumes inv: "reactor_inv n ps r"
  shows "\<exists>r'. AcceptNewConnectionCallback clock names fd peer r = Inr r' \<and> reactor_inv n (ps @ [fd]) r' \<and>
    reactor_acceptor r' = reactor_acceptor r"
proof -
  let ?i = "1 + length ps mod n"
  obtain b where b: "PickOneEventManager (map GetEventerAmount (event_managers r)) (reactor_balancer r) = Inr (?i, b)"
    "strategy b = kRoundRobin" "cursor b = ?i"
    using reactor_next [OF inv] by blast
  have n: "0 < n" "length (event_managers r) = Suc n" using inv by (simp_all add: reactor_inv_def)
  have "length ps mod n < n" using n(1) by simp
  then have i: "?i \<le> n" by simp
  let ?ems = "(event_managers r)[?i := RunSoon clock (Establish fd (GetLocalAddress names fd) peer) (event_managers r ! ?i)]"
  have "manager_ok (?ems ! j) (share n (ps @ [fd]) j)" if "j \<le> n" for j
    using inv that i n(2) RunSoon_ok [of "event_managers r ! ?i" "share n ps ?i"]
    by (cases "j = ?i") (auto simp: reactor_inv_def share_snoc)
  then have "reactor_inv n (ps @ [fd]) (r\<lparr>reactor_balancer := b, event_managers := ?ems\<rparr>)"
    using inv b(2,3) by (simp add: reactor_inv_def)
  then show ?thesis by (simp add: AcceptNewConnectionCallback_def b(1))
qed

definition passed :: "(int \<times> net_address option) list \<Rightarrow> int list" where
  "passed xs = map fst (filter (\<lambda>x. snd x \<noteq> None) xs)"

lemma pass_on_ok:
  assumes "reactor_inv n ps r"
  shows "\<exists>r'. pass_on clock names xs r = Inr r' \<and> reactor_inv n (ps @ passed xs) r' \<and>
    reactor_acceptor r' = reactor_acceptor r"
  using assms
proof (induction clock names xs r arbitrary: ps rule: pass_on.induct)
  case (2 clock names fd peer xs r)
  obtain r1 where r1: "AcceptNewConnectionCallback clock names fd peer r = Inr r1" "reactor_inv n (ps @ [fd]) r1"
    "reactor_acceptor r1 = reactor_acceptor r"
    using Accept_ok [OF 2(2)] by blast
  from 2(1) [OF r1(1,2)] show ?case by (simp add: r1(1,3) passed_def)
qed (simp_all add: passed_def)

section \<open>Establishing a connection\<close>

lemma Insert_served:
  assumes t: "tracked em"
  shows "served_fds (InsertNewConnection fd w em) = add_mset fd (served_fds em)"
proof (cases "conns em fd")
  case None
  then have "fd \<notin> dom (conns em)" by auto
  then show ?thesis
    using None by (simp add: served_fds_def InsertNewConnection_def map_of_simps finite_dom_map_of)
next
  case (Some old)
  then have "insert fd (dom (conns em)) = dom (conns em)" "ev_fd old = fd" using t by (auto simp: tracked_def)
  then show ?thesis using Some by (simp add: served_fds_def InsertNewConnection_def map_of_simps)
qed

lemma establish_ok:
  assumes u: "OnConnectionCallback u = Some f" "handler_ok f" and fd: "Fd env (evt_of fd) = fd" and t: "tracked em"
  shows "tracked (establish env u p evt_of mark (Establish fd la pa) em)"
    "served_fds (establish env u p evt_of mark (Establish fd la pa) em) = add_mset fd (served_fds em)"
    "em_timer (establish env u p evt_of mark (Establish fd la pa) em) = em_timer em"
proof -
  obtain w where w: "Connecting env p (evt_of fd) mark = Inr w" "ev_fd w = fd" "closed_fds w = {}"
    "pending_io_retries w = 0" "conn_state w = kConnecting"
    using new_connection [OF fd] by blast
  note i = Insert_tracked [OF t w(2-5)] and served = Insert_served [OF t, of fd w]
  let ?em1 = "InsertNewConnection fd w em"
  have "tracked (establish env u p evt_of mark (Establish fd la pa) em) \<and>
    served_fds (establish env u p evt_of mark (Establish fd la pa) em) = add_mset fd (served_fds em) \<and>
    em_timer (establish env u p evt_of mark (Establish fd la pa) em) = em_timer em"
  proof (cases "on_connection (fd, OnEstablishing env u) ?em1")
    case (Inl e)
    then show ?thesis using i served by (simp add: w(1) served_fds_def)
  next
    case (Inr em2)
    have "handler_ok (snd (fd, OnEstablishing env u))" using OnEstablishing_handler [of u env] u by simp
    note o = on_connection_tracked(1-3) [OF i(1) this Inr]
    have "em_timer em2 = em_timer ?em1"
      using Inr i(3) by (auto simp: on_connection_def res_bind_Inr_iff)
    then show ?thesis using i o served by (simp add: w(1) Inr served_fds_def)
  qed
  then show "tracked (establish env u p evt_of mark (Establish fd la pa) em)"
    "served_fds (establish env u p evt_of mark (Establish fd la pa) em) = add_mset fd (served_fds em)"
    "em_timer (establish env u p evt_of mark (Establish fd la pa) em) = em_timer em" by simp_all
qed

text \<open>The tasks that are due run, in order; none of them is periodic.\<close>

lemma fold_establish:
  assumes u: "OnConnectionCallback u = Some f" "handler_ok f" and "tracked em"
    and "\<forall>x \<in> set xs. tp_context (fst x) = 0 \<and> (case snd x of Establish fd la pa \<Rightarrow> Fd env (evt_of fd) = fd)"
    and run: "run = fold (run_expired clock (establish env u p evt_of mark) cont rt)"
  shows "tracked (run xs em) \<and> em_timer (run xs em) = em_timer em \<and>
    served_fds (run xs em) = mset (map (\<lambda>x. case snd x of Establish fd la pa \<Rightarrow> fd) xs) + served_fds em"
  using assms(3,4)
proof (induction xs arbitrary: em)
  case (Cons x xs)
  obtain fd la pa where x: "snd x = Establish fd la pa" by (cases "snd x")
  have fd: "Fd env (evt_of fd) = fd" "tp_context (fst x) = 0" using Cons.prems(2) x by auto
  let ?em1 = "establish env u p evt_of mark (Establish fd la pa) em"
  have e: "run (x # xs) em = run xs ?em1"
    unfolding run fold_simps by (simp only: run_expired_def x fd(2) Let_def) simp
  note o = establish_ok [OF u, where em = em and evt_of = evt_of and fd = fd, OF fd(1) Cons.prems(1)]
  show ?case using Cons.IH [of ?em1] Cons.prems(2) o unfolding e by (simp del: establish.simps add: x)
qed (simp add: run)

lemma mset_map_split: "mset (map g (filter P xs)) + mset (map g (filter (\<lambda>x. \<not> P x) xs)) = mset (map g xs)"
  by (induction xs) simp_all

lemma DoExpired_ok:
  assumes u: "OnConnectionCallback u = Some f" "handler_ok f" and ok: "manager_ok em fds"
    and evts: "\<forall>fd \<in> set (waiting_fds em). Fd env (evt_of fd) = fd"
  shows "manager_ok (DoExpiredTimeTasks clock (establish env u p evt_of mark) cont rt em) fds"
    "em_timer (DoExpiredTimeTasks clock (establish env u p evt_of mark) cont rt em) =
       filter (\<lambda>x. clock (clock_reads em) < due x) (em_timer em)"
proof -
  let ?now = "clock (clock_reads em)" and ?tps = "em_timer em"
  let ?xs = "filter (\<lambda>x. due x \<le> ?now) ?tps" and ?ys = "filter (\<lambda>x. ?now < due x) ?tps"
  let ?em1 = "em\<lparr>clock_reads := clock_reads em + 1, em_timer := ?ys\<rparr>"
  let ?em2 = "DoExpiredTimeTasks clock (establish env u p evt_of mark) cont rt em"
  let ?f = "\<lambda>x :: 'a TimePoint \<times> reactor_task. case snd x of Establish fd la pa \<Rightarrow> fd"
  have t: "timer_ok ?tps" "tracked em" "\<forall>x \<in> set ?tps. tp_context (fst x) = 0" using ok by (simp_all add: manager_ok_def)
  have e: "?em2 = fold (run_expired clock (establish env u p evt_of mark) cont rt) ?xs ?em1"
    by (simp add: DoExpiredTimeTasks_def read_clock_def GetExpiredTimeTasks_eq [OF t(1)])
  have "case snd x of Establish fd la pa \<Rightarrow> Fd env (evt_of fd) = fd" if "x \<in> set ?tps" for x
    using evts that by (force simp: waiting_fds_def split: reactor_task.splits)
  then have xs: "\<forall>x \<in> set ?xs. tp_context (fst x) = 0 \<and> (case snd x of Establish fd la pa \<Rightarrow> Fd env (evt_of fd) = fd)"
    using t(3) by simp
  have "tracked ?em1" using t(2) by (simp add: tracked_def)
  note o = fold_establish [OF u this xs refl, of clock p mark cont rt, folded e]
  then have o: "tracked ?em2" "em_timer ?em2 = ?ys" "served_fds ?em2 = mset (map ?f ?xs) + served_fds em"
    by (simp_all add: served_fds_def)
  show "em_timer ?em2 = ?ys" by (rule o(2))
  have "mset (map ?f ?xs) + mset (map ?f ?ys) = mset (map ?f ?tps)"
    using mset_map_split [of ?f "\<lambda>x. due x \<le> ?now" ?tps] by (simp only: not_le)
  then have "mset (waiting_fds ?em2) + served_fds ?em2 = mset fds"
    using ok unfolding manager_ok_def waiting_fds_def o(2,3) by (simp only: ac_simps)
  then show "manager_ok ?em2 fds"
    using o(1,2) t(1,3) timer_ok_filter by (auto simp: manager_ok_def)
qed

lemma Active_ok:
  assumes ok: "manager_ok em fds" and h: "\<forall>x \<in> set xs. handler_ok (snd x)" and r: "DoWithActiveTasks xs em = Inr em'"
  shows "manager_ok em' fds"
proof -
  have "em_timer em' = em_timer em" using r
  proof (induction xs arbitrary: em)
    case (Cons x xs)
    then obtain em1 where em1: "on_connection x em = Inr em1" "DoWithActiveTasks xs em1 = Inr em'"
      by (auto simp: res_bind_Inr_iff)
    from em1(1) have "em_timer em1 = em_timer em"
      by (auto simp: on_connection_def res_bind_Inr_iff split: option.splits)
    then show ?case using Cons.IH [OF em1(2)] by simp
  qed simp
  then show ?thesis using active_tracked [OF _ h r] ok by (simp add: manager_ok_def waiting_fds_def served_fds_def)
qed

lemma Destroy_ok:
  assumes ok: "manager_ok em fds"
  shows "manager_ok (DestroyClosedConnections em) fds"
proof -
  have t: "tracked em" and d: "distinct (em_closed_fds em)" using ok by (simp_all add: manager_ok_def tracked_def)
  note e = DestroyClosed_eq [OF d]
  let ?ds = "filter (doomed em) (em_closed_fds em)"
  have dom: "dom (conns (DestroyClosedConnections em)) = dom (conns em) - set ?ds"
    by (auto simp: e(1) doomed_def bind_eq_Some_conv split: if_splits)
  have fds: "map (ev_fd \<circ> (\<lambda>fd. the (conns em fd))) ?ds = ?ds"
    using t by (intro map_idI) (auto simp: doomed_def tracked_def)
  have sub: "set ?ds \<subseteq> dom (conns em)" by (auto simp: doomed_def)
  have "mset ?ds = mset_set (set ?ds)" using mset_set_set [OF distinct_filter [OF d]] by (rule sym)
  then have "mset_set (dom (conns em)) = mset_set (dom (conns em) - set ?ds) + mset ?ds"
    using mset_set_Union [of "dom (conns em) - set ?ds" "set ?ds"] sub by (simp add: finite_dom_map_of Un_absorb2 Int_commute Diff_disjoint)
  then have "served_fds (DestroyClosedConnections em) = served_fds em"
    by (simp only: served_fds_def dom e(4) map_append map_map fds mset_append) (simp add: ac_simps)
  then show ?thesis using ok tracked_Destroy [OF t] by (simp add: manager_ok_def waiting_fds_def e(5))
qed

section \<open>Runs\<close>

text \<open>
  The threads of a server with \<open>n\<close> event managers besides the main one, in any interleaving: completions for the
  acceptor, the due tasks of an event manager, its active handlers, the destruction of its closed connections.
\<close>

abbreviation set_manager :: "nat \<Rightarrow> 'c manager \<Rightarrow> 'c server_reactor \<Rightarrow> 'c server_reactor" where
  "set_manager i em r \<equiv> r\<lparr>event_managers := (event_managers r)[i := em]\<rparr>"

inductive reactor_reach :: "uring_env \<Rightarrow> server \<Rightarrow> nat \<Rightarrow> 'c server_reactor \<Rightarrow> bool" for env s n where
  init: "Poller env var queue_init supported waited = Some p \<Longrightarrow> Fd env a = fd \<Longrightarrow> 0 < n \<Longrightarrow> n < vector_max_size \<Longrightarrow>
    ServerReactorManager env le p a fd null_fd addr reuse (replicate (Suc n) EventManager) = Some r \<Longrightarrow> reactor_reach env s n r"
| loop: "reactor_reach env s n r \<Longrightarrow> ServerReactor_Loop r = Inr r' \<Longrightarrow> reactor_reach env s n r'"
| accept: "reactor_reach env s n r \<Longrightarrow> reactor_accept env k clock names c r = Inr r' \<Longrightarrow> reactor_reach env s n r'"
| tasks: "reactor_reach env s n r \<Longrightarrow> i \<le> n \<Longrightarrow>
    \<forall>fd \<in> set (waiting_fds (event_managers r ! i)). Fd env (evt_of fd) = fd \<Longrightarrow>
    reactor_reach env s n (set_manager i
      (DoExpiredTimeTasks clock (establish env (register_callbacks env s) p evt_of mark) cont rt (event_managers r ! i)) r)"
| active: "reactor_reach env s n r \<Longrightarrow> i \<le> n \<Longrightarrow> \<forall>x \<in> set events. handler_ok (snd x) \<Longrightarrow>
    DoWithActiveTasks events (event_managers r ! i) = Inr em \<Longrightarrow> reactor_reach env s n (set_manager i em r)"
| destroy: "reactor_reach env s n r \<Longrightarrow> i \<le> n \<Longrightarrow>
    reactor_reach env s n (set_manager i (DestroyClosedConnections (event_managers r ! i)) r)"

lemma new_manager_ok: "manager_ok EventManager []"
  by (simp add: manager_ok_def EventManager_def tracked_def timer_ok_def waiting_fds_def served_fds_def)

lemma reactor_init:
  assumes p: "Poller env var queue_init supported waited = Some p" "Fd env a = fd" and n: "0 < n" "n < vector_max_size"
    and r: "ServerReactorManager env le p a fd null_fd addr reuse (replicate (Suc n) EventManager) = Some r"
  shows "accept_reach env (reactor_acceptor r)" "reactor_inv n (passed (handled (reactor_acceptor r))) r"
proof -
  obtain w where w: "Acceptor env le p a fd null_fd addr reuse = Some w"
    "r = \<lparr>event_managers = replicate (Suc n) EventManager,
          reactor_acceptor = RegisterNewConnectionCallback True (Acceptor_Listen env w),
          reactor_balancer = Balancer 0, started = []\<rparr>"
    using r by (auto simp: ServerReactorManager_def split: option.splits if_splits)
  show "accept_reach env (reactor_acceptor r)"
    unfolding w(2) by (simp add: accept_reach.callback accept_reach.listen accept_reach.start [OF p w(1)])
  have "handled w = []" using w(1) by (auto simp: Acceptor_def Let_def split: if_splits)
  then show "reactor_inv n (passed (handled (reactor_acceptor r))) r"
    using n by (simp add: reactor_inv_def w(2) new_manager_ok RegisterNewConnectionCallback_def Acceptor_Listen_def SubmitAcceptOnce_frame(3)
        passed_def Balancer_def kRoundRobin_def less_Suc_eq_le nth_replicate del: replicate.simps)
qed

lemma reactor_inv_set:
  assumes "reactor_inv n ps r" and "i \<le> n"
    and "\<And>fds. manager_ok (event_managers r ! i) fds \<Longrightarrow> manager_ok em fds"
  shows "reactor_inv n ps (set_manager i em r)"
  using assms by (auto simp: reactor_inv_def nth_list_update)

lemma reactor_accept_ok:
  assumes a: "accept_reach env (reactor_acceptor r)" "few_calls (ev_poller (reactor_acceptor r))"
    and inv: "reactor_inv n (passed (handled (reactor_acceptor r))) r"
  shows "\<exists>r'. reactor_accept env k clock names c r = Inr r' \<and> reactor_inv n (passed (handled (reactor_acceptor r'))) r'"
proof -
  let ?w = "reactor_acceptor r"
  have ok: "acceptor_ok {} ?w" "next_key (ev_poller ?w) < key_bound"
    using accept_reach_inv [OF a(1)] a(2) few_bound(1) by (auto simp: accept_inv_def)
  obtain w where step: "accept_cqe env k c ?w = Inr w" "accept_step env c ?w w" by (rule accept_cqe_sound [OF ok])
  then obtain xs where w: "accept_cqe env k c ?w = Inr w" "handled w = handled ?w @ xs" by (auto simp: accept_step_def)
  have "reactor_inv n (passed (handled ?w)) (r\<lparr>reactor_acceptor := w\<rparr>)" using inv by (simp add: reactor_inv_def)
  then obtain r' where r': "pass_on clock names xs (r\<lparr>reactor_acceptor := w\<rparr>) = Inr r'"
    "reactor_inv n (passed (handled ?w) @ passed xs) r'" "reactor_acceptor r' = w"
    using pass_on_ok by fastforce
  have "passed (handled ?w) @ passed xs = passed (handled w)" by (simp add: w(2) passed_def)
  then show ?thesis using r' by (simp add: reactor_accept_def w)
qed

lemma pass_on_acceptor:
  "pass_on clock names xs r = Inr r' \<Longrightarrow> reactor_acceptor r' = reactor_acceptor r"
  by (induction clock names xs r rule: pass_on.induct) (auto simp: res_bind_Inr_iff AcceptNewConnectionCallback_def)

lemma register_connection [simp]: "OnConnectionCallback (register_callbacks env s) = Some (ConnectionCallback s)"
  by (simp add: register_callbacks_def Let_def)

lemma reactor_reach_inv:
  assumes "reactor_reach env s n r" and s: "handler_ok (ConnectionCallback s)"
  shows "accept_reach env (reactor_acceptor r) \<and>
    (few_calls (ev_poller (reactor_acceptor r)) \<longrightarrow> reactor_inv n (passed (handled (reactor_acceptor r))) r)"
  using assms(1)
proof (induction rule: reactor_reach.induct)
  case (init var queue_init supported waited p a fd le null_fd addr reuse r)
  then show ?case using reactor_init [OF init] by blast
next
  case (loop r r')
  then show ?case by (auto simp: ServerReactor_Loop_def reactor_inv_def Let_def split: if_splits)
next
  case (accept r k clock names c r')
  obtain w where w: "accept_cqe env k c (reactor_acceptor r) = Inr w" "reactor_acceptor r' = w"
    using accept.hyps(2) pass_on_acceptor by (fastforce simp: reactor_accept_def res_bind_Inr_iff)
  have "few_calls (ev_poller (reactor_acceptor r))" if "few_calls (ev_poller (reactor_acceptor r'))"
    using counts_few [OF accept_cqe_counts [OF w(1)]] that w(2) by simp
  then show ?case
    using accept.IH accept.hyps(2) w accept_reach.completion [OF _ w(1)] reactor_accept_ok [of env r n k clock names c] by auto
next
  case (tasks r i evt_of clock p mark cont rt)
  then show ?case
    using DoExpired_ok(1) [OF register_connection s, of "event_managers r ! i", where env = env and evt_of = evt_of]
    by (auto intro!: reactor_inv_set)
next
  case (active r i events em)
  then show ?case using Active_ok by (auto intro!: reactor_inv_set)
next
  case (destroy r i)
  then show ?case using Destroy_ok by (auto intro!: reactor_inv_set)
qed

section \<open>Theorems\<close>

text \<open>
  C9. Every accepted connection is served once, by the event manager whose turn it is. In every run, with the
  threads interleaved in any way: a completion for the acceptor never fails; the descriptors that the acceptor
  has passed on go to the event managers 1 to \<open>n\<close> in turn, none to the main one; each of them waits in
  exactly one task of its event manager, or its connection is in the map there, or was destroyed there. When an
  event manager runs its tasks at a moment at which all are due, none waits any more.
\<close>

theorem accepted_connections_served:
  assumes "reactor_reach env s n r" and "handler_ok (ConnectionCallback s)" and "few_calls (ev_poller (reactor_acceptor r))"
  shows "(\<exists>r'. reactor_accept env k clock names c r = Inr r') \<and>
    (\<forall>i \<le> n. let em = event_managers r ! i; fds = mset (share n (passed (handled (reactor_acceptor r))) i);
                 em' = DoExpiredTimeTasks clock (establish env (register_callbacks env s) p evt_of mark) cont rt em
       in mset (waiting_fds em) + served_fds em = fds \<and>
          ((\<forall>x \<in> set (em_timer em). due x \<le> clock (clock_reads em)) \<longrightarrow>
           (\<forall>fd \<in> set (waiting_fds em). Fd env (evt_of fd) = fd) \<longrightarrow> waiting_fds em' = [] \<and> served_fds em' = fds))"
proof -
  let ?ps = "passed (handled (reactor_acceptor r))"
  have a: "accept_reach env (reactor_acceptor r)" and inv: "reactor_inv n ?ps r"
    using reactor_reach_inv [OF assms(1,2)] assms(3) by blast+
  have ok: "manager_ok (event_managers r ! i) (share n ?ps i)" if "i \<le> n" for i using inv that by (simp add: reactor_inv_def)
  have "waiting_fds em' = [] \<and> served_fds em' = mset (share n ?ps i)"
    if "i \<le> n" "em = event_managers r ! i" "\<forall>x \<in> set (em_timer em). due x \<le> clock (clock_reads em)"
      "\<forall>fd \<in> set (waiting_fds em). Fd env (evt_of fd) = fd"
      "em' = DoExpiredTimeTasks clock (establish env (register_callbacks env s) p evt_of mark) cont rt em" for i em em'
  proof -
    have "manager_ok em (share n ?ps i)" using ok that by simp
    note e = DoExpired_ok [OF register_connection [of env s] assms(2) this that(4), where clock = clock and p = p and mark = mark
        and cont = cont and rt = rt]
    have "em_timer em' = []" using that(3) by (auto simp: that(5) e(2) filter_empty_conv not_less)
    then show ?thesis using e(1) by (simp add: that(5) manager_ok_def waiting_fds_def)
  qed
  moreover have "\<exists>r'. reactor_accept env k clock names c r = Inr r'" using reactor_accept_ok [OF a assms(3) inv] by blast
  ultimately show ?thesis using ok by (simp add: Let_def manager_ok_def)
qed

text \<open>The default server with two event managers besides the main one, and a connection that arrives.\<close>

definition sample_reactor :: "unit server_reactor" where
  "sample_reactor = \<lparr>event_managers = replicate 3 EventManager, reactor_acceptor = sample_acceptor,
     reactor_balancer = Balancer 0, started = []\<rparr>"

lemma sample_reactor_reach: "reactor_reach sample_env Server 2 sample_reactor"
proof -
  obtain w where w: "Acceptor sample_env True sample_poller 1 7 8 (replicate sizeof_in6 0) False = Some w"
    by (simp add: Acceptor_def Let_def)
  have s: "socket_fd (accept_socketer w) = 7" "\<not> is_listening w"
    using w by (auto simp: Acceptor_def Let_def BindAddress_def SetReusePort_def SetReuseAddress_def Socketer_def sys_def)
  have "sample_acceptor = RegisterNewConnectionCallback True (Acceptor_Listen sample_env w)"
    unfolding sample_acceptor_def w option.case
    by (simp add: RegisterNewConnectionCallback_def Acceptor_Listen_def SubmitAcceptOnce_def Let_def case_prod_beta)
  then have r: "ServerReactorManager sample_env True sample_poller 1 7 8 (replicate sizeof_in6 0) False
      (replicate (Suc 2) EventManager) = Some sample_reactor"
    unfolding ServerReactorManager_def w option.case using s by (simp add: sample_reactor_def numeral_3_eq_3 numeral_2_eq_2)
  show ?thesis
    by (rule reactor_reach.init [OF sample_poller_eq _ _ _ r]) (simp_all add: sample_env_def vector_max_size_def)
qed

theorem accepted_connections_served_witness:
  "\<exists>r. reactor_accept sample_env sample_kernel (\<lambda>n. 5) (\<lambda>fd. None) sample_connection sample_reactor = Inr r \<and>
     mset (waiting_fds (event_managers r ! 1)) + served_fds (event_managers r ! 1) = {#9#}"
proof -
  have h: "handler_ok (ConnectionCallback Server)" by (auto simp: handler_ok_def Server_def DefaultOnConnectionCallback_def)
  have "few_calls (ev_poller (reactor_acceptor sample_reactor))" by (simp add: sample_reactor_def sample_acceptor_facts(2))
  then obtain r where r: "reactor_accept sample_env sample_kernel (\<lambda>n. 5) (\<lambda>fd. None) sample_connection sample_reactor = Inr r"
    using reactor_reach_inv [OF sample_reactor_reach h] reactor_accept_ok by blast
  have w: "accept_cqe sample_env sample_kernel sample_connection sample_acceptor = Inr (reactor_acceptor r)"
    using r pass_on_acceptor by (fastforce simp: reactor_accept_def res_bind_Inr_iff sample_reactor_def)
  have n: "few_calls (ev_poller (reactor_acceptor r))" "passed (handled (reactor_acceptor r)) = [9]"
  proof -
    obtain op where op: "ops (ev_poller sample_acceptor) 1 = Some op" "op_context op = Some 0" "op_type op = kAccept"
      "op_completion op = Some AcceptDoneFn" using sample_acceptor_facts(4) by blast
    have a: "acceptor_alive sample_acceptor" "has_new_connection_callback sample_acceptor" "handled sample_acceptor = []"
      by (simp_all add: sample_acceptor_defs)
    have "reactor_acceptor r = sample_acceptor\<lparr>given := given sample_acceptor @ [9],
        handled := [(9, Some (GetPeerAddress sample_kernel 9))], acceptor_crashed := None,
        ev_poller := ev_poller sample_acceptor\<lparr>ops := (ops (ev_poller sample_acceptor))(1 \<mapsto> op)\<rparr>\<rparr>"
      using w op a sample_acceptor_facts(6)
      by (auto simp: accept_cqe_def HandleCqe_accept sample_connection_def accept_complete_def OnAcceptComplete_def
          accept_outcome_def accept_connection_def cqe_more_def ReleaseBufferFromCqe_def cqe_has_buffer_def F_MORE_def
          F_BUFFER_def kMaxEventAmount_def taken_def Let_def)
    then show "few_calls (ev_poller (reactor_acceptor r))" "passed (handled (reactor_acceptor r)) = [9]"
      using sample_acceptor_facts(2) by (simp_all add: few_calls_def passed_def)
  qed
  have "mset (waiting_fds (event_managers r ! 1)) + served_fds (event_managers r ! 1) =
      mset (share 2 (passed (handled (reactor_acceptor r))) 1)"
    using accepted_connections_served [OF reactor_reach.accept [OF sample_reactor_reach r] h n(1),
        THEN conjunct2, rule_format, of 1, unfolded Let_def, THEN conjunct1]
    by simp
  then show ?thesis using r by (simp add: n(2) share_def)
qed

end
