(* ===== verification/Client_Reactor.thy ===== *)
theory Client_Reactor
  imports Loop_Safety Tcp_Connector
begin

text \<open>
  The engine of a client (\<open>ClientReactorManager\<close> of \<^verbatim>\<open>src/src/reactor_manager.cc\<close>) and \<open>Client\<close>
  (\<^verbatim>\<open>src/src/client.cc\<close>), which calls it: a connector, the event manager of the user, and a pointer to the
  connection.

  The pointer is the descriptor of the connection it points to; when the event manager has no such connection
  any more, using it is \<open>UseAfterFree\<close>. The close callback resets the pointer; it is called where a connection
  becomes disconnected, in \<open>DoClosing\<close> and nowhere else. The tasks of the connector stay in its own
  list; those of the client are tasks of the event manager. The callbacks that the user has set are \<open>u0\<close>; \<open>a\<close> is the
  eventer in a new connection, \<open>p\<close> the poller it finds, \<open>mark\<close> its high-water mark.
\<close>

section \<open>State\<close>

datatype client_task = DisconnectTask | StopTask

record 'c client_reactor =
  client_manager :: "('c, client_task) event_manager"
  client_connector :: connector
  client_connection :: "int option"
  should_retry :: bool
  client_can_connect :: bool

definition ClientReactorManager :: "('c, client_task) event_manager \<Rightarrow> 'c client_reactor" where
  "ClientReactorManager em =
     \<lparr>client_manager = em, client_connector = Connector True, client_connection = None, should_retry = False,
      client_can_connect = True\<rparr>"

definition destroy_client :: "'c client_reactor \<Rightarrow> 'c client_reactor" where
  "destroy_client c = c\<lparr>client_connection := None, client_connector := Connector_Stop (client_connector c)\<rparr>"

definition SetRetryOn :: "bool \<Rightarrow> 'c client_reactor \<Rightarrow> 'c client_reactor" where
  "SetRetryOn is_on c = c\<lparr>should_retry := is_on\<rparr>"

definition Client_Connect :: "'c client_reactor \<Rightarrow> 'c client_reactor" where
  "Client_Connect c =
     c\<lparr>should_retry := False, client_can_connect := True, client_connector := Connector_Start (client_connector c)\<rparr>"

definition Client_Disconnect :: "clock \<Rightarrow> 'c client_reactor \<Rightarrow> 'c client_reactor" where
  "Client_Disconnect clock c = c\<lparr>client_manager := RunSoon clock DisconnectTask (client_manager c)\<rparr>"

definition Client_Stop :: "clock \<Rightarrow> 'c client_reactor \<Rightarrow> 'c client_reactor" where
  "Client_Stop clock c = c\<lparr>client_manager := RunSoon clock StopTask (client_manager c)\<rparr>"

definition Client :: "('c, client_task) event_manager \<Rightarrow> bool \<Rightarrow> 'c client_reactor" where
  "Client em retry = SetRetryOn retry (ClientReactorManager em)"

section \<open>The connection\<close>

text \<open>
  The callbacks of a new connection. The close callback calls \<open>ForceClose\<close>, which would call it again: it finds
  the connection disconnected and returns at once, so the recursion is unfolded once.
\<close>

definition client_callbacks :: "uring_env \<Rightarrow> conn_user \<Rightarrow> conn_user" where
  "client_callbacks env u0 =
     (let u = u0\<lparr>HighWaterMarkCallback := None, UserCloseCallback := None\<rparr> in u\<lparr>UserCloseCallback := Some (ForceClose env u)\<rparr>)"

definition became_disconnected :: "connecting option \<Rightarrow> connecting option \<Rightarrow> bool" where
  "became_disconnected x y \<longleftrightarrow>
     (case x of None \<Rightarrow> False | Some w \<Rightarrow> case y of None \<Rightarrow> False | Some w' \<Rightarrow> \<not> IsDisconnected w \<and> IsDisconnected w')"

text \<open>A handler of a connection of the client.\<close>

definition client_handler :: "int \<times> conn_cb \<Rightarrow> 'c client_reactor \<Rightarrow> 'c client_reactor res" where
  "client_handler x c =
     res_bind (on_connection x (client_manager c)) (\<lambda>em.
       Inr (c\<lparr>client_manager := em,
              client_connection :=
                if became_disconnected (conns (client_manager c) (fst x)) (conns em (fst x)) then None
                else client_connection c\<rparr>))"

definition LaunchNewConnectionCallback ::
  "uring_env \<Rightarrow> conn_user \<Rightarrow> (nat, io_fn) poller \<Rightarrow> evt \<Rightarrow> nat \<Rightarrow> int \<Rightarrow> 'c client_reactor \<Rightarrow> 'c client_reactor res" where
  "LaunchNewConnectionCallback env u0 p a mark fd c =
     res_bind (Connecting env p a mark) (\<lambda>w.
       client_handler (fd, OnEstablishing env (client_callbacks env u0))
         (c\<lparr>client_manager := InsertNewConnection fd w (client_manager c), client_connection := Some fd\<rparr>))"

text \<open>The socket of the connector is writable: when it is connected, it is handed over.\<close>

definition client_writable ::
  "uring_env \<Rightarrow> conn_user \<Rightarrow> (nat, io_fn) poller \<Rightarrow> evt \<Rightarrow> nat \<Rightarrow> bool \<Rightarrow> sock_info \<Rightarrow> 'c client_reactor \<Rightarrow> 'c client_reactor res" where
  "client_writable env u0 p a mark le k c =
     (let k0 = client_connector c; k1 = Connector_DoWriting le k k0; c1 = c\<lparr>client_connector := k1\<rparr>
      in case drop (length (handed k0)) (handed k1) of
           [] \<Rightarrow> Inr c1
         | fd # _ \<Rightarrow> LaunchNewConnectionCallback env u0 p a mark fd c1)"

definition force_close :: "uring_env \<Rightarrow> conn_user \<Rightarrow> int \<Rightarrow> 'c client_reactor \<Rightarrow> 'c client_reactor res" where
  "force_close env u0 fd c =
     (case conns (client_manager c) fd of
        None \<Rightarrow> Inl UseAfterFree
      | Some _ \<Rightarrow> client_handler (fd, ForceClose env (client_callbacks env u0)) c)"

definition DisconnectInLoop :: "uring_env \<Rightarrow> conn_user \<Rightarrow> 'c client_reactor \<Rightarrow> 'c client_reactor res" where
  "DisconnectInLoop env u0 c =
     (let connection_to_close = client_connection c;
          c1 = c\<lparr>should_retry := False, client_can_connect := False,
                 client_connector := Connector_Stop (client_connector c), client_connection := None\<rparr>
      in res_bind (case connection_to_close of None \<Rightarrow> Inr c1 | Some fd \<Rightarrow> force_close env u0 fd c1) (\<lambda>c2.
           Inr (c2\<lparr>client_manager := WakeUp (Quit (client_manager c2))\<rparr>)))"

definition StopInLoop :: "uring_env \<Rightarrow> conn_user \<Rightarrow> 'c client_reactor \<Rightarrow> 'c client_reactor res" where
  "StopInLoop env u0 c =
     (let connection_to_close = client_connection c;
          c1 = c\<lparr>should_retry := False, client_can_connect := False,
                 client_connector := Connector_Stop (client_connector c), client_connection := None\<rparr>
      in res_bind (case connection_to_close of None \<Rightarrow> Inr c1 | Some fd \<Rightarrow> force_close env u0 fd c1) (\<lambda>c2.
           Inr (c2\<lparr>client_manager := WakeUp (Quit (client_manager c2))\<rparr>)))"

text \<open>The due tasks; none of them is periodic.\<close>

fun run_client_tasks :: "uring_env \<Rightarrow> conn_user \<Rightarrow> ('c TimePoint \<times> client_task) list \<Rightarrow> 'c client_reactor \<Rightarrow> 'c client_reactor res" where
  "run_client_tasks env u0 [] c = Inr c"
| "run_client_tasks env u0 ((tp, DisconnectTask) # xs) c = res_bind (DisconnectInLoop env u0 c) (run_client_tasks env u0 xs)"
| "run_client_tasks env u0 ((tp, StopTask) # xs) c = res_bind (StopInLoop env u0 c) (run_client_tasks env u0 xs)"

definition client_expired :: "clock \<Rightarrow> uring_env \<Rightarrow> conn_user \<Rightarrow> 'c client_reactor \<Rightarrow> 'c client_reactor res" where
  "client_expired clock env u0 c =
     (case read_clock clock (client_manager c) of (now, em1) \<Rightarrow>
        case GetExpiredTimeTasks now (em_timer em1) of (expired, rest) \<Rightarrow>
          run_client_tasks env u0 expired (c\<lparr>client_manager := em1\<lparr>em_timer := rest\<rparr>\<rparr>))"

section \<open>The pointer to the connection\<close>

text \<open>The pointer is null or points to a connection that is there and not disconnected.\<close>

definition client_ok :: "'c client_reactor \<Rightarrow> bool" where
  "client_ok c \<longleftrightarrow> tracked (client_manager c) \<and>
     (\<forall>fd. client_connection c = Some fd \<longrightarrow> (\<exists>w. conns (client_manager c) fd = Some w \<and> \<not> IsDisconnected w))"

lemma client_handler_ok:
  assumes c: "client_ok c" and f: "handler_ok (snd x)" and r: "client_handler x c = Inr c'"
  shows "client_ok c'"
proof -
  let ?em = "client_manager c"
  obtain em where em: "on_connection x ?em = Inr em" "client_manager c' = em"
    "client_connection c' = (if became_disconnected (conns ?em (fst x)) (conns em (fst x)) then None else client_connection c)"
    using r by (auto simp: client_handler_def res_bind_Inr_iff)
  have t: "tracked ?em" using c by (simp add: client_ok_def)
  note o = on_connection_tracked [OF t f em(1)]
  have "\<exists>w. conns em fd = Some w \<and> \<not> IsDisconnected w" if fd: "client_connection c' = Some fd" for fd
  proof -
    have b: "\<not> became_disconnected (conns ?em (fst x)) (conns em (fst x))" "client_connection c = Some fd"
      using fd em(3) by (auto split: if_splits)
    then obtain w where w: "conns ?em fd = Some w" "\<not> IsDisconnected w" using c by (auto simp: client_ok_def)
    show ?thesis
    proof (cases "fd = fst x")
      case True
      have "fd \<in> dom (conns em)" using o(2) w(1) by auto
      then show ?thesis using b(1) w True by (auto simp: became_disconnected_def)
    next
      case False
      then show ?thesis using w fun_cong [OF o(6), of fd] by simp
    qed
  qed
  then show ?thesis using o(1) em(2) by (simp add: client_ok_def)
qed

section \<open>What the callbacks keep\<close>

lemma client_closing:
  assumes "closing_user u0"
  shows "closing_user (client_callbacks env u0)"
proof -
  let ?u = "u0\<lparr>HighWaterMarkCallback := None, UserCloseCallback := None\<rparr>"
  have u: "closing_user ?u"
    by unfold_locales (use closing_user.closing_callback [OF assms] in \<open>auto simp: user_callbacks_def\<close>)
  note f = closing_user.ForceClose_closes [OF u]
  show ?thesis
  proof
    fix g w w'
    assume g: "g \<in> user_callbacks (client_callbacks env u0)" "g w = Inr w'"
    then have "g \<in> user_callbacks ?u \<or> g = ForceClose env ?u"
      by (auto simp: user_callbacks_def client_callbacks_def Let_def)
    then show "ev_fd w' = ev_fd w \<and> pending_io_retries w' = pending_io_retries w \<and>
      closed_fds w' \<subseteq> insert (ev_fd w) (closed_fds w) \<and> (IsDisconnected w \<longrightarrow> IsDisconnected w')"
      using closing_user.closing_callback [OF u] f(1-3,6) [of env w w'] g(2) by auto
  qed
qed

definition never_fails :: "conn_cb option \<Rightarrow> bool" where
  "never_fails g \<longleftrightarrow> (\<forall>f. g = Some f \<longrightarrow> (\<forall>w. \<exists>w'. f w = Inr w'))"

lemma ForceClose_returns:
  assumes "never_fails (OnConnectionCallback u)" "never_fails (UserCloseCallback u)"
  shows "\<exists>w'. ForceClose env u w = Inr w'"
proof -
  have g: "\<exists>w'. call_opt g w = Inr w'" if "never_fails g" for g w
    using that by (auto simp: never_fails_def call_opt_def split: option.splits)
  have "\<exists>w'. DoClosing env u w = Inr w'" for w
  proof -
    obtain w2 where w2: "call_opt (OnConnectionCallback u)
        (CancelPendingIo env (StopReadingWriting env (w\<lparr>conn_state := ConnectionState.kDisconnected\<rparr>))) = Inr w2"
      using g [OF assms(1)] by blast
    obtain w3 where "call_opt (UserCloseCallback u) w2 = Inr w3" using g [OF assms(2)] by blast
    then show ?thesis using w2 by (simp add: DoClosing_def Let_def)
  qed
  then show ?thesis by (simp add: ForceClose_def)
qed

lemma client_ForceClose_returns:
  assumes "never_fails (OnConnectionCallback u0)"
  shows "\<exists>w'. ForceClose env (client_callbacks env u0) w = Inr w'"
proof (rule ForceClose_returns)
  let ?u = "u0\<lparr>HighWaterMarkCallback := None, UserCloseCallback := None\<rparr>"
  have "\<exists>w'. ForceClose env ?u w = Inr w'" for w
    by (rule ForceClose_returns) (use assms in \<open>simp_all add: never_fails_def\<close>)
  then show "never_fails (UserCloseCallback (client_callbacks env u0))"
    by (simp add: never_fails_def client_callbacks_def Let_def)
qed (use assms in \<open>simp add: never_fails_def client_callbacks_def Let_def\<close>)

section \<open>Runs\<close>

text \<open>
  A client on an event manager of the user: its calls, the completions of its connector, handlers of connections,
  its tasks, and the destruction of closed connections, in any order. \<open>connector\<close> is any other step of the
  connector.
\<close>

inductive client_reach :: "uring_env \<Rightarrow> conn_user \<Rightarrow> 'c client_reactor \<Rightarrow> bool" for env u0 where
  init: "tracked em \<Longrightarrow> client_reach env u0 (Client em retry)"
| connect: "client_reach env u0 c \<Longrightarrow> client_reach env u0 (Client_Connect c)"
| disconnect: "client_reach env u0 c \<Longrightarrow> client_reach env u0 (Client_Disconnect clock c)"
| stop: "client_reach env u0 c \<Longrightarrow> client_reach env u0 (Client_Stop clock c)"
| connector: "client_reach env u0 c \<Longrightarrow> handed k = handed (client_connector c) \<Longrightarrow>
    client_reach env u0 (c\<lparr>client_connector := k\<rparr>)"
| writable: "client_reach env u0 c \<Longrightarrow> connector_eventer (client_connector c) = Some (Fd env a) \<Longrightarrow>
    client_writable env u0 p a mark le k c = Inr c' \<Longrightarrow> client_reach env u0 c'"
| handler: "client_reach env u0 c \<Longrightarrow> handler_ok (snd x) \<Longrightarrow> client_handler x c = Inr c' \<Longrightarrow> client_reach env u0 c'"
| expired: "client_reach env u0 c \<Longrightarrow> client_expired clock env u0 c = Inr c' \<Longrightarrow> client_reach env u0 c'"
| destroy: "client_reach env u0 c \<Longrightarrow>
    client_reach env u0 (c\<lparr>client_manager := DestroyClosedConnections (client_manager c)\<rparr>)"

lemma handed_over:
  "drop (length (handed c)) (handed (Connector_DoWriting le k c)) = fd # fds \<Longrightarrow> connector_eventer c = Some fd"
  by (auto simp: connector_defs split: option.splits if_splits)

lemma client_ok_quiet [simp]:
  "client_ok (c\<lparr>should_retry := b\<rparr>) = client_ok c" "client_ok (c\<lparr>client_can_connect := b\<rparr>) = client_ok c"
  "client_ok (c\<lparr>client_connector := k\<rparr>) = client_ok c"
  by (simp_all add: client_ok_def)

lemma Launch_ok:
  assumes c: "client_ok c" and cb: "\<forall>f. OnConnectionCallback u0 = Some f \<longrightarrow> handler_ok f" and fd: "Fd env a = fd"
    and r: "LaunchNewConnectionCallback env u0 p a mark fd c = Inr c'"
  shows "client_ok c'"
proof -
  obtain w where w: "Connecting env p a mark = Inr w" "ev_fd w = fd" "closed_fds w = {}" "pending_io_retries w = 0"
    "conn_state w = ConnectionState.kConnecting"
    by (rule new_connection [OF fd])
  let ?c = "c\<lparr>client_manager := InsertNewConnection fd w (client_manager c), client_connection := Some fd\<rparr>"
  have ok: "client_ok ?c"
    using c Insert_tracked(1,3) [OF _ w(2-5), of "client_manager c"] w(5) by (simp add: client_ok_def IsDisconnected_def)
  have "handler_ok (snd (fd, OnEstablishing env (client_callbacks env u0)))"
    using OnEstablishing_handler [of "client_callbacks env u0" env] cb by (simp add: client_callbacks_def Let_def)
  from client_handler_ok [OF ok this] show ?thesis using r by (simp add: LaunchNewConnectionCallback_def w(1))
qed

lemma DisconnectInLoop_ok:
  assumes c: "client_ok c" and u: "closing_user u0" and r: "DisconnectInLoop env u0 c = Inr c'"
  shows "client_ok c'"
proof -
  let ?c1 = "c\<lparr>should_retry := False, client_can_connect := False,
    client_connector := Connector_Stop (client_connector c), client_connection := None\<rparr>"
  obtain c2 where c2: "c' = c2\<lparr>client_manager := WakeUp (Quit (client_manager c2))\<rparr>"
    "(case client_connection c of None \<Rightarrow> Inr ?c1 | Some fd \<Rightarrow> force_close env u0 fd ?c1) = Inr c2"
    using r by (auto simp: DisconnectInLoop_def Let_def res_bind_Inr_iff)
  have c1: "client_ok ?c1" using c by (simp add: client_ok_def)
  have h: "handler_ok (ForceClose env (client_callbacks env u0))"
    by (rule closing_user.ForceClose_handler [OF client_closing [OF u]])
  have "client_ok c2"
  proof (cases "client_connection c")
    case None
    then show ?thesis using c2(2) c1 by simp
  next
    case (Some fd)
    then show ?thesis
      using c2(2) client_handler_ok [OF c1, of "(fd, ForceClose env (client_callbacks env u0))" c2] h
      by (simp add: force_close_def split: option.splits)
  qed
  then show ?thesis by (simp add: c2(1) client_ok_def Quit_def) (simp add: WakeUp_def)
qed

lemma Stop_is_Disconnect: "StopInLoop env u0 c = DisconnectInLoop env u0 c"
  by (simp add: StopInLoop_def DisconnectInLoop_def)

lemma tasks_keep:
  assumes "closing_user u0" and "client_ok c" and "run_client_tasks env u0 xs c = Inr c'"
  shows "client_ok c'"
  using assms(2,3) DisconnectInLoop_ok [OF _ assms(1)]
  by (induction env u0 xs c rule: run_client_tasks.induct) (auto simp: res_bind_Inr_iff Stop_is_Disconnect)

lemma client_reach_ok:
  assumes "client_reach env u0 c" and u: "closing_user u0" and cb: "\<forall>f. OnConnectionCallback u0 = Some f \<longrightarrow> handler_ok f"
  shows "client_ok c"
  using assms(1)
proof (induction rule: client_reach.induct)
  case (init em retry)
  then show ?case by (simp add: client_ok_def Client_def SetRetryOn_def ClientReactorManager_def)
next
  case (connect c)
  then show ?case by (simp add: Client_Connect_def)
next
  case (disconnect c clock)
  then show ?case by (simp add: Client_Disconnect_def client_ok_def RunSoon_def read_clock_def) (simp add: WakeUp_def)
next
  case (stop c clock)
  then show ?case by (simp add: Client_Stop_def client_ok_def RunSoon_def read_clock_def) (simp add: WakeUp_def)
next
  case (writable c a p mark le k c')
  let ?k = "Connector_DoWriting le k (client_connector c)"
  show ?case
  proof (cases "drop (length (handed (client_connector c))) (handed ?k)")
    case Nil
    then show ?thesis using writable by (auto simp: client_writable_def Let_def)
  next
    case (Cons fd fds)
    then have "Fd env a = fd" using handed_over writable.hyps(2) by fastforce
    from Launch_ok [OF _ cb this, of "c\<lparr>client_connector := ?k\<rparr>" p mark c'] show ?thesis
      using writable.IH writable.hyps(3) Cons by (simp add: client_writable_def Let_def)
  qed
next
  case (handler c x c')
  then show ?case by (blast intro: client_handler_ok)
next
  case (expired c clock c')
  obtain xs ys where x: "GetExpiredTimeTasks (clock (clock_reads (client_manager c))) (em_timer (client_manager c)) = (xs, ys)"
    by fastforce
  let ?c = "c\<lparr>client_manager := (client_manager c)\<lparr>clock_reads := clock_reads (client_manager c) + 1, em_timer := ys\<rparr>\<rparr>"
  have "client_ok ?c" using expired.IH by (simp add: client_ok_def)
  moreover have "run_client_tasks env u0 xs ?c = Inr c'"
    using expired.hyps(2) x by (simp add: client_expired_def read_clock_def)
  ultimately show ?case by (rule tasks_keep [OF u])
next
  case (destroy c)
  have t: "tracked (client_manager c)" "distinct (em_closed_fds (client_manager c))"
    using destroy.IH by (simp_all add: client_ok_def tracked_def)
  have "conns (DestroyClosedConnections (client_manager c)) fd = Some w"
    if "conns (client_manager c) fd = Some w" "\<not> IsDisconnected w" for fd w
    using that by (simp add: DestroyClosed_eq(1) [OF t(2)] after_round_def)
  then show ?case using destroy.IH tracked_Destroy [OF t(1)] by (fastforce simp: client_ok_def)
qed simp

section \<open>Theorems\<close>


text \<open>A client that is connected, with the callbacks of the echo server.\<close>

definition sample_client :: "unit client_reactor" where
  "sample_client = (Client EventManager True)\<lparr>client_connector := (Connector True)\<lparr>can_connect := True, cstate := ConnectState.kConnecting,
     connector_eventer := Some 7, opened := [7]\<rparr>\<rparr>"

definition sample_sock :: sock_info where
  "sample_sock = \<lparr>so_result = 0, so_errno = 0, so_error = 0, sockname = None, peername = None\<rparr>"

lemma sample_connected:
  obtains c where "client_writable sample_env echo_user sample_poller 1 64 True sample_sock sample_client = Inr c"
    "client_connection c = Some 7" "client_reach sample_env echo_user c"
proof -
  let ?k = "client_connector sample_client"
  obtain w0 where w0: "Connecting sample_env sample_poller 1 64 = Inr w0" "conn_state w0 = ConnectionState.kConnecting"
    by (rule sample_conn_steps)
  have cb: "OnConnectionCallback (client_callbacks sample_env echo_user) = Some DefaultOnConnectionCallback"
    by (simp add: client_callbacks_def echo_user_def register_callbacks_def EchoServer_def SetMessageCallback_def Server_def Let_def)
  have e: "OnEstablishing sample_env (client_callbacks sample_env echo_user) w0 =
      Inr (SubmitReadOnce sample_env (w0\<lparr>conn_state := ConnectionState.kConnected\<rparr>))"
    using w0(2) by (simp add: OnEstablishing_def cb call_required_def DefaultOnConnectionCallback_def)
  have "\<not> self_connected True sample_sock"
    by (simp add: self_connected_def sample_sock_def GetLocalSocketAddress6_def GetFamily_def Let_def) code_simp
  then have k: "handed (Connector_DoWriting True sample_sock ?k) = [7]" "handed ?k = []" "connector_eventer ?k = Some 7"
    by (simp_all add: sample_client_def Connector_DoWriting_def RemoveAndReset_def GetSocketError_def sample_sock_def
        run_after_def SetState_def Connector_def)
  obtain c where c: "client_writable sample_env echo_user sample_poller 1 64 True sample_sock sample_client = Inr c"
    "client_connection c = Some 7"
    by (simp add: client_writable_def k Let_def LaunchNewConnectionCallback_def w0(1) [unfolded One_nat_def] client_handler_def on_connection_def
        InsertNewConnection_def map_of_simps e became_disconnected_def IsDisconnected_def SubmitReadOnce_keeps)
  have "client_reach sample_env echo_user (Client EventManager True)"
    by (rule client_reach.init) (simp add: tracked_def EventManager_def)
  then have "client_reach sample_env echo_user sample_client"
    unfolding sample_client_def
    by (rule client_reach.connector) (simp add: Client_def SetRetryOn_def ClientReactorManager_def Connector_def)
  moreover have "connector_eventer ?k = Some (Fd sample_env 1)" by (simp add: k(3) sample_env_def)
  ultimately show thesis using that c client_reach.writable [OF _ _ c(1)] by blast
qed


text \<open>Nothing depends on whether a client should retry: \<open>Connect\<close> clears the flag.\<close>

lemma retry_has_no_effect: "Client_Connect (Client em True) = Client_Connect (Client em False)"
  by (simp add: Client_Connect_def Client_def SetRetryOn_def)

end
