(* ===== verification/Http_Message.thy ===== *)
theory Http_Message
  imports Servers Texts "HOL-Library.List_Lexorder" "HOL-Library.Char_ord"
begin

text \<open>
  The messages of the HTTP example: the parser (\<^verbatim>\<open>src/example/http_server/http_parser.cc\<close>), which collects
  what the library llhttp reports, and the response (\<^verbatim>\<open>src/example/http_server/http_response.cc\<close>), which is
  written into a buffer.

  llhttp is an argument: \<open>execute l data\<close> are the callbacks it makes for the bytes \<open>data\<close>, whether there was no error,
  and its state afterwards. A callback carries the text it is given, and the time that \<open>time\<close> returns to it. Text is a
  list of characters; \<open>bytes\<close> are those that are sent for it.
\<close>

section \<open>The parser\<close>

record llhttp_info =
  method_name :: string
  http_major :: "8 word"
  http_minor :: "8 word"
  http_upgrade :: "8 word"
  should_keep_alive :: "8 word"

datatype http_event =
    EvMessageBegin int
  | EvUrl string
  | EvStatus string
  | EvHeaderField string
  | EvHeaderValue string
  | EvHeadersComplete llhttp_info int
  | EvBody string
  | EvMessageComplete int

type_synonym 'l llhttp = "'l \<Rightarrow> byte list \<Rightarrow> http_event list \<times> bool \<times> 'l"

record 'l http_parser =
  major_version :: "8 word"
  minor_version :: "8 word"
  upgrade :: "8 word"
  keep_alive :: "8 word"
  start_parsing_time :: int
  header_end_time :: int
  message_end_time :: int
  http_method :: string
  url :: string
  status_text :: string
  key_value_pairs :: "(string \<times> string) list"
  http_body :: string
  llhttp_state :: 'l
  parsed_fields :: "string \<rightharpoonup> string"

definition OnMessageBegin :: "int \<Rightarrow> 'l http_parser \<Rightarrow> 'l http_parser" where
  "OnMessageBegin now h =
     h\<lparr>major_version := 0, minor_version := 0, upgrade := 0, keep_alive := 0, start_parsing_time := now,
       header_end_time := 0, message_end_time := 0, http_method := [], url := [], status_text := [],
       key_value_pairs := [], http_body := []\<rparr>"

definition OnStatus :: "string \<Rightarrow> 'l http_parser \<Rightarrow> 'l http_parser" where
  "OnStatus str h = h\<lparr>status_text := status_text h @ str\<rparr>"

definition OnUrl :: "string \<Rightarrow> 'l http_parser \<Rightarrow> 'l http_parser" where
  "OnUrl str h = h\<lparr>url := url h @ str\<rparr>"

definition OnHeaderField :: "string \<Rightarrow> 'l http_parser \<Rightarrow> 'l http_parser" where
  "OnHeaderField str h = h\<lparr>key_value_pairs := key_value_pairs h @ [(str, [])]\<rparr>"

text \<open>\<open>back()\<close> of an empty vector is \<open>OutOfBounds\<close>.\<close>

definition OnHeaderValue :: "string \<Rightarrow> 'l http_parser \<Rightarrow> 'l http_parser res" where
  "OnHeaderValue str h =
     (if key_value_pairs h = [] then Inl OutOfBounds
      else Inr (h\<lparr>key_value_pairs := butlast (key_value_pairs h) @ [(fst (last (key_value_pairs h)), str)]\<rparr>))"

definition OnHeadersComplete :: "llhttp_info \<Rightarrow> int \<Rightarrow> 'l http_parser \<Rightarrow> 'l http_parser" where
  "OnHeadersComplete p now h =
     h\<lparr>header_end_time := now, http_method := method_name p, major_version := http_major p,
       minor_version := http_minor p, upgrade := http_upgrade p, keep_alive := should_keep_alive p\<rparr>"

definition OnBody :: "string \<Rightarrow> 'l http_parser \<Rightarrow> 'l http_parser" where
  "OnBody str h = h\<lparr>http_body := http_body h @ str\<rparr>"

definition OnMessageComplete :: "int \<Rightarrow> 'l http_parser \<Rightarrow> 'l http_parser" where
  "OnMessageComplete now h = h\<lparr>message_end_time := now\<rparr>"

fun http_callback :: "http_event \<Rightarrow> 'l http_parser \<Rightarrow> 'l http_parser res" where
  "http_callback (EvMessageBegin now) h = Inr (OnMessageBegin now h)"
| "http_callback (EvUrl s) h = Inr (OnUrl s h)"
| "http_callback (EvStatus s) h = Inr (OnStatus s h)"
| "http_callback (EvHeaderField s) h = Inr (OnHeaderField s h)"
| "http_callback (EvHeaderValue s) h = OnHeaderValue s h"
| "http_callback (EvHeadersComplete p now) h = Inr (OnHeadersComplete p now h)"
| "http_callback (EvBody s) h = Inr (OnBody s h)"
| "http_callback (EvMessageComplete now) h = Inr (OnMessageComplete now h)"

fun http_callbacks :: "http_event list \<Rightarrow> 'l http_parser \<Rightarrow> 'l http_parser res" where
  "http_callbacks [] h = Inr h"
| "http_callbacks (e # es) h = res_bind (http_callback e h) (http_callbacks es)"

definition HttpParser :: "'l \<Rightarrow> 'l http_parser \<Rightarrow> 'l http_parser" where
  "HttpParser l junk =
     junk\<lparr>http_method := [], url := [], status_text := [], key_value_pairs := [], http_body := [], llhttp_state := l,
          parsed_fields := Map.empty\<rparr>"

definition Parse_http :: "'l llhttp \<Rightarrow> byte list \<Rightarrow> 'l http_parser \<Rightarrow> (bool \<times> 'l http_parser) res" where
  "Parse_http execute data h =
     (case execute (llhttp_state h) data of (evs, no_error, l) \<Rightarrow>
        res_bind (http_callbacks evs h) (\<lambda>h1.
          let h2 = h1\<lparr>llhttp_state := l\<rparr>
          in if \<not> no_error then Inr (False, h2)
             else Inr (True, h2\<lparr>parsed_fields := fold (\<lambda>(k, v) m. m(k \<mapsto> v)) (key_value_pairs h2) (parsed_fields h2)\<rparr>)))"

definition GetVersionPair :: "'l http_parser \<Rightarrow> 8 word \<times> 8 word" where
  "GetVersionPair h = (major_version h, minor_version h)"

definition ShouldUpgrade :: "'l http_parser \<Rightarrow> bool" where
  "ShouldUpgrade h \<longleftrightarrow> upgrade h = 1"

definition ShouldKeepAlive :: "'l http_parser \<Rightarrow> bool" where
  "ShouldKeepAlive h \<longleftrightarrow> keep_alive h = 1"

definition GetHeader :: "string \<Rightarrow> 'l http_parser \<Rightarrow> string option" where
  "GetHeader key h = parsed_fields h key"

definition Reset :: "int \<Rightarrow> 'l http_parser \<Rightarrow> 'l http_parser" where
  "Reset now h =
     h\<lparr>major_version := 0, minor_version := 0, upgrade := 0, keep_alive := 0, start_parsing_time := now,
       header_end_time := 0, message_end_time := 0, http_method := [], url := [], status_text := [],
       key_value_pairs := [], http_body := []\<rparr>"

section \<open>The response\<close>

record http_response =
  resp_major :: "8 word"
  resp_minor :: "8 word"
  resp_status :: "16 word"
  status_message :: string
  header_fields :: "(string \<times> string) list"
  should_close :: bool
  resp_body :: string
  include_body :: bool
  content_length_override :: "nat option"

definition HttpResponse :: "bool \<Rightarrow> http_response" where
  "HttpResponse close =
     \<lparr>resp_major = 1, resp_minor = 1, resp_status = 200, status_message = ''OK'', header_fields = [],
      should_close = close, resp_body = [], include_body = True, content_length_override = None\<rparr>"

definition SetVersion :: "8 word \<Rightarrow> 8 word \<Rightarrow> http_response \<Rightarrow> http_response" where
  "SetVersion major minor r = r\<lparr>resp_major := major, resp_minor := minor\<rparr>"

definition SetStatus :: "16 word \<Rightarrow> string \<Rightarrow> http_response \<Rightarrow> http_response" where
  "SetStatus status msg r = r\<lparr>resp_status := status, status_message := msg\<rparr>"

text \<open>Assignment to an entry of a \<open>std::map\<close>, whose entries are in the order of their keys.\<close>

fun map_assign :: "string \<Rightarrow> string \<Rightarrow> (string \<times> string) list \<Rightarrow> (string \<times> string) list" where
  "map_assign k v [] = [(k, v)]"
| "map_assign k v ((k', v') # xs) =
     (if k = k' then (k, v) # xs else if k < k' then (k, v) # (k', v') # xs else (k', v') # map_assign k v xs)"

definition AddHeaderField :: "string \<Rightarrow> string \<Rightarrow> http_response \<Rightarrow> http_response" where
  "AddHeaderField name content r = r\<lparr>header_fields := map_assign name content (header_fields r)\<rparr>"

definition SetContentType :: "string \<Rightarrow> http_response \<Rightarrow> http_response" where
  "SetContentType t r = r\<lparr>header_fields := map_assign ''Content-Type'' t (header_fields r)\<rparr>"

definition SetBody :: "string \<Rightarrow> http_response \<Rightarrow> http_response" where
  "SetBody b r = r\<lparr>resp_body := b, include_body := True, content_length_override := None\<rparr>"

definition SetBodyLength :: "nat \<Rightarrow> http_response \<Rightarrow> http_response" where
  "SetBodyLength n r = r\<lparr>content_length_override := Some n\<rparr>"

definition SetIncludeBody :: "bool \<Rightarrow> http_response \<Rightarrow> http_response" where
  "SetIncludeBody b r = r\<lparr>include_body := b\<rparr>"

definition SetClose :: "bool \<Rightarrow> http_response \<Rightarrow> http_response" where
  "SetClose b r = r\<lparr>should_close := b\<rparr>"

section \<open>Writing the response\<close>

definition crlf :: string where
  "crlf = [CHR 0x0D, CHR 0x0A]"

text \<open>What \<^verbatim>\<open>%zd\<close> writes for a \<open>size_t\<close>.\<close>

definition show_zd :: "nat \<Rightarrow> string" where
  "show_zd n = (if n < 2 ^ 63 then show_nat n else ''-'' @ show_nat (2 ^ 64 - n))"

definition status_line :: "http_response \<Rightarrow> string list" where
  "status_line r =
     [snprintf 32 (''HTTP/'' @ show_nat (unat (resp_major r)) @ ''.'' @ show_nat (unat (resp_minor r)) @ '' '' @
        show_nat (unat (resp_status r)) @ '' ''), status_message r, crlf]"

definition connection_lines :: "http_response \<Rightarrow> string list" where
  "connection_lines r =
     (if should_close r then [''Connection: close'' @ crlf]
      else let content_length = (case content_length_override r of Some n \<Rightarrow> n | None \<Rightarrow> length (resp_body r))
           in [snprintf 32 (''Content-Length: '' @ show_zd content_length @ crlf), ''Connection: keep-alive'' @ crlf])"

text \<open>The calls of \<open>Append\<close>, in order.\<close>

fun append_all :: "string list \<Rightarrow> io_buffer \<Rightarrow> io_buffer res" where
  "append_all [] b = Inr b"
| "append_all (s # ss) b = res_bind (Append (bytes s) b) (append_all ss)"

definition AppendToIoBuffer :: "http_response \<Rightarrow> io_buffer \<Rightarrow> io_buffer res" where
  "AppendToIoBuffer r b =
     append_all (status_line r @ connection_lines r @ concat (map (\<lambda>(k, v). [k, '': '', v, crlf]) (header_fields r)) @
       [crlf] @ (if include_body r then [resp_body r] else [])) b"

text \<open>What the calls write, into a buffer that has not been read from.\<close>

lemma append_all_ok:
  assumes "io_buffer_ok b" "reading_index b = kReservedCapacity"
    and "kReservedCapacity + length (contents b) + length (concat ss) \<le> vector_max_size"
  shows "\<exists>b'. append_all ss b = Inr b' \<and> io_buffer_ok b' \<and> reading_index b' = kReservedCapacity \<and>
    contents b' = contents b @ bytes (concat ss)"
  using assms
proof (induction ss arbitrary: b)
  case Nil
  then show ?case by (simp add: bytes_def)
next
  case (Cons s ss)
  obtain b1 where b1: "Append (bytes s) b = Inr b1" "io_buffer_ok b1" "contents b1 = contents b @ bytes s"
    "reading_index b1 = kReservedCapacity"
    using Append_fresh [OF Cons.prems(1,2), of "bytes s"] Cons.prems(3) by auto
  from Cons.IH [OF b1(2,4)] b1 Cons.prems(3) show ?case by simp
qed

definition response_text :: "http_response \<Rightarrow> string" where
  "response_text r =
     concat (status_line r) @ concat (connection_lines r) @ concat (map (\<lambda>(k, v). k @ '': '' @ v @ crlf) (header_fields r)) @
     crlf @ (if include_body r then resp_body r else [])"

lemma AppendToIoBuffer_ok:
  assumes "io_buffer_ok b" "reading_index b = kReservedCapacity"
    and "kReservedCapacity + length (contents b) + length (response_text r) \<le> vector_max_size"
  shows "\<exists>b'. AppendToIoBuffer r b = Inr b' \<and> io_buffer_ok b' \<and> reading_index b' = kReservedCapacity \<and>
    contents b' = contents b @ bytes (response_text r)"
proof -
  have "concat (concat (map (\<lambda>(k, v). [k, '': '', v, crlf]) xs)) = concat (map (\<lambda>(k, v). k @ '': '' @ v @ crlf) xs)" for xs
    by (induction xs) auto
  then have "concat (status_line r @ connection_lines r @ concat (map (\<lambda>(k, v). [k, '': '', v, crlf]) (header_fields r)) @
      [crlf] @ (if include_body r then [resp_body r] else [])) = response_text r"
    by (simp add: response_text_def)
  then show ?thesis using append_all_ok [OF assms(1,2)] assms(3) unfolding AppendToIoBuffer_def by metis
qed

section \<open>A client\<close>

text \<open>
  How a client reads responses: lines up to an empty one, then as many bytes as the first line
  \<open>Content-Length\<close> says.
\<close>

fun split_line :: "string \<Rightarrow> (string \<times> string) option" where
  "split_line [] = None"
| "split_line [c] = None"
| "split_line (c # d # s) =
     (if c = CHR 0x0D \<and> d = CHR 0x0A then Some ([], s) else map_option (\<lambda>(l, r). (c # l, r)) (split_line (d # s)))"

lemma split_line_shorter: "split_line s = Some (l, r) \<Longrightarrow> length r < length s"
  by (induction s arbitrary: l r rule: split_line.induct) (auto split: if_splits)

lemma split_line_crlf: "CHR 0x0D \<notin> set l \<Longrightarrow> split_line (l @ crlf @ r) = Some (l, r)"
proof (induction l)
  case (Cons c l)
  then show ?case by (cases l) (auto simp: crlf_def)
qed (simp add: crlf_def)

function read_lines :: "string \<Rightarrow> (string list \<times> string) option" where
  "read_lines s =
     (case split_line s of
        None \<Rightarrow> None
      | Some (l, r) \<Rightarrow> if l = [] then Some ([], r) else map_option (\<lambda>(ls, r'). (l # ls, r')) (read_lines r))"
  by auto
termination
  by (relation "measure length") (auto dest: split_line_shorter)

declare read_lines.simps [simp del]

lemma read_lines_all:
  assumes "\<forall>l \<in> set ls. l \<noteq> [] \<and> CHR 0x0D \<notin> set l"
  shows "read_lines (concat (map (\<lambda>l. l @ crlf) ls) @ crlf @ r) = Some (ls, r)"
  using assms
proof (induction ls)
  case Nil
  then show ?case using split_line_crlf [of "[]" r] by (simp add: read_lines.simps)
next
  case (Cons l ls)
  then show ?case
    using split_line_crlf [of l "concat (map (\<lambda>l. l @ crlf) ls) @ crlf @ r"] by (subst read_lines.simps) simp
qed

definition content_length :: "string list \<Rightarrow> nat option" where
  "content_length ls =
     map_option (\<lambda>l. dec_value (drop 16 l)) (List.find (\<lambda>l. take 16 l = ''Content-Length: '') ls)"

definition read_response :: "string \<Rightarrow> ((string list \<times> string) \<times> string) option" where
  "read_response s =
     Option.bind (read_lines s) (\<lambda>(ls, r).
       Option.bind (content_length ls) (\<lambda>n. if n \<le> length r then Some ((ls, take n r), drop n r) else None))"

fun read_responses :: "nat \<Rightarrow> string \<Rightarrow> (string list \<times> string) list option" where
  "read_responses 0 s = (if s = [] then Some [] else None)"
| "read_responses (Suc k) s =
     Option.bind (read_response s) (\<lambda>(x, r). map_option ((#) x) (read_responses k r))"

section \<open>Responses are framed\<close>

lemma show_nat_digits: "c \<in> set (show_nat n) \<Longrightarrow> c \<noteq> CHR 0x0D"
proof (induction n rule: show_nat.induct)
  case (1 n)
  have d: "char_of (48 + k) \<noteq> CHR 0x0D" if "k < 10" for k :: nat
  proof
    assume "char_of (48 + k) = CHR 0x0D"
    then have "of_char (char_of (48 + k) :: char) = (13 :: nat)" by simp
    then show False using that by simp
  qed
  show ?case
    using 1 d [of n] d [of "n mod 10"] by (auto simp: show_nat.simps [of n] split: if_splits)
qed

text \<open>
  A response that keeps the connection: it has its body, and none of its texts has a carriage return. The limit on the
  length is where \<open>snprintf\<close> would cut the line with the length.
\<close>

definition plain_response :: "http_response \<Rightarrow> bool" where
  "plain_response r \<longleftrightarrow> \<not> should_close r \<and> include_body r \<and> content_length_override r = None \<and>
     length (resp_body r) < 10 ^ 13 \<and> CHR 0x0D \<notin> set (status_message r) \<and>
     list_all (\<lambda>(k, v). CHR 0x0D \<notin> set k \<union> set v) (header_fields r)"

definition head_lines :: "http_response \<Rightarrow> string list" where
  "head_lines r =
     [hd (status_line r) @ status_message r, ''Content-Length: '' @ show_nat (length (resp_body r)), ''Connection: keep-alive''] @
     map (\<lambda>(k, v). k @ '': '' @ v) (header_fields r)"

lemma plain_text:
  assumes "plain_response r"
  shows "response_text r = concat (map (\<lambda>l. l @ crlf) (head_lines r)) @ crlf @ resp_body r"
proof -
  let ?n = "length (resp_body r)"
  have n: "?n < 10 ^ Suc 12" using assms by (simp add: plain_response_def)
  then have "show_zd ?n = show_nat ?n" by (simp add: show_zd_def)
  moreover have "length (''Content-Length: '' @ show_nat ?n @ crlf) \<le> 31"
    using length_show_nat [OF n] by (simp add: crlf_def)
  then have "snprintf 32 (''Content-Length: '' @ show_nat ?n @ crlf) = ''Content-Length: '' @ show_nat ?n @ crlf"
    unfolding snprintf_def by (intro take_all) simp
  ultimately have "concat (connection_lines r) = ''Content-Length: '' @ show_nat ?n @ crlf @ ''Connection: keep-alive'' @ crlf"
    using assms by (simp add: connection_lines_def plain_response_def)
  then show ?thesis
    using assms by (simp add: response_text_def head_lines_def plain_response_def status_line_def comp_def case_prod_unfold)
qed

lemma head_lines_ok:
  assumes "plain_response r" and l: "l \<in> set (head_lines r)"
  shows "l \<noteq> [] \<and> CHR 0x0D \<notin> set l"
proof -
  have s: "CHR 0x0D \<notin> set (snprintf n t)" if "CHR 0x0D \<notin> set t" for n t
    using that in_set_takeD [of _ "n - 1" t] by (auto simp: snprintf_def)
  have d: "CHR 0x0D \<notin> set (show_nat n)" for n using show_nat_digits by blast
  have "CHR 0x0D \<notin> set (hd (status_line r))" unfolding status_line_def list.sel by (rule s) (simp add: d)
  moreover have "hd (status_line r) \<noteq> []" by (simp add: status_line_def snprintf_def)
  moreover have "l \<in> {hd (status_line r) @ status_message r, ''Content-Length: '' @ show_nat (length (resp_body r)),
      ''Connection: keep-alive''} \<or> (\<exists>x \<in> set (header_fields r). l = fst x @ '': '' @ snd x)"
    using l by (simp add: head_lines_def case_prod_unfold) blast
  moreover have "CHR 0x0D \<notin> set (status_message r)" "\<forall>x \<in> set (header_fields r). CHR 0x0D \<notin> set (fst x) \<union> set (snd x)"
    using assms(1) by (auto simp: plain_response_def list_all_iff)
  ultimately show ?thesis using d by auto
qed

lemma head_lines_length:
  assumes "plain_response r"
  shows "content_length (head_lines r) = Some (length (resp_body r))"
proof -
  have "take 16 (hd (status_line r) @ status_message r) \<noteq> ''Content-Length: ''"
    by (simp add: status_line_def snprintf_def)
  then show ?thesis by (simp add: content_length_def head_lines_def dec_value_show)
qed

lemma read_plain:
  assumes "\<forall>r \<in> set rs. plain_response r"
  shows "read_responses (length rs) (concat (map response_text rs)) = Some (map (\<lambda>r. (head_lines r, resp_body r)) rs)"
  using assms
proof (induction rs)
  case (Cons r rs)
  have p: "plain_response r" using Cons.prems by simp
  have "read_lines (concat (map response_text (r # rs))) = Some (head_lines r, resp_body r @ concat (map response_text rs))"
    using read_lines_all [of "head_lines r"] head_lines_ok [OF p] by (simp add: plain_text [OF p])
  then have "read_response (concat (map response_text (r # rs))) =
      Some ((head_lines r, resp_body r), concat (map response_text rs))"
    by (simp add: read_response_def head_lines_length [OF p])
  then show ?case using Cons by simp
qed simp



end
