(* ===== verification/Http_Server.thy ===== *)
theory Http_Server
  imports Http_Message Connection_Theorems
begin

text \<open>
  The HTTP server of the examples (\<^verbatim>\<open>src/example/http_server/http_server.cc\<close>) and the callback of its main
  program (\<^verbatim>\<open>src/example/http_server/main.cc\<close>).

  The context of a connection is its parser, \<open>None\<close> until it is set. The callback of the user is a function from the
  parser and the response to the response. llhttp and the clock are arguments.
\<close>

section \<open>The server\<close>

definition HttpServer_OnConnection :: "'l \<Rightarrow> 'l http_parser \<Rightarrow> connecting \<times> 'l http_parser option \<Rightarrow> connecting \<times> 'l http_parser option" where
  "HttpServer_OnConnection l junk s = (if IsConnected (fst s) then (fst s, Some (HttpParser l junk)) else s)"

definition closes_connection :: "'l http_parser \<Rightarrow> bool" where
  "closes_connection h \<longleftrightarrow>
     (let connection_info = (case GetHeader ''Connection'' h of Some v \<Rightarrow> v | None \<Rightarrow> []); version_pair = GetVersionPair h
      in ''close'' = connection_info \<or>
         (fst version_pair = 1 \<and> snd version_pair = 0 \<and> connection_info \<noteq> ''keep-alive''))"

definition HttpServer_OnRequest ::
  "uring_env \<Rightarrow> ('l http_parser \<Rightarrow> http_response \<Rightarrow> http_response) option \<Rightarrow> 'l http_parser \<Rightarrow> conn_cb" where
  "HttpServer_OnRequest env HttpCallback h w =
     (case HttpCallback of
        None \<Rightarrow> Inl BadFunctionCall
      | Some f \<Rightarrow>
          let r = f h (HttpResponse (closes_connection h))
          in res_bind (IoBuffer kInitialCapacity) (\<lambda>b.
             res_bind (AppendToIoBuffer r b) (\<lambda>b1.
             res_bind (Send_buffer env no_user b1 w) (\<lambda>(b2, w1).
               Inr (if should_close r then ShutDownWrite w1 else w1)))))"

definition bad_request :: string where
  "bad_request = ''HTTP/1.1 400 Bad Request'' @ crlf @ crlf"

definition HttpServer_OnMessage ::
  "uring_env \<Rightarrow> 'l llhttp \<Rightarrow> int \<Rightarrow> ('l http_parser \<Rightarrow> http_response \<Rightarrow> http_response) option \<Rightarrow>
   connecting \<times> 'l http_parser option \<Rightarrow> (connecting \<times> 'l http_parser option) res" where
  "HttpServer_OnMessage env execute now HttpCallback s =
     (case snd s of
        None \<Rightarrow> Inl BadAnyCast
      | Some parser \<Rightarrow>
          res_bind (RetrieveAllAsString (input_buffer (fst s))) (\<lambda>(message, b).
          let w = (fst s)\<lparr>input_buffer := b\<rparr>
          in res_bind (Parse_http execute message parser) (\<lambda>(ok, parser1).
             res_bind (if \<not> ok then res_bind (Send env no_user (bytes bad_request) w) (\<lambda>w1. Inr (ShutDownWrite w1)) else Inr w) (\<lambda>w1.
             res_bind (HttpServer_OnRequest env HttpCallback parser1 w1) (\<lambda>w2.
               Inr (w2, Some (Reset now parser1)))))))"

section \<open>The callback of the main program\<close>

definition http_page :: "string \<Rightarrow> string \<Rightarrow> string" where
  "http_page title rest = ''<!DOCTYPE html><html><head><title>'' @ title @ ''</title></head><body><h1>'' @ rest @ ''</body></html>''"

text \<open>\<open>date\<close> is what \<open>strftime\<close> writes.\<close>

definition demo_OnRequest :: "string \<Rightarrow> 'l http_parser \<Rightarrow> http_response \<Rightarrow> http_response" where
  "demo_OnRequest date h r =
     (let r1 = AddHeaderField ''Server'' ''taotu-http-server'' (AddHeaderField ''Date'' date (SetVersion 1 1 r));
          meth = http_method h; is_head = (meth = ''HEAD'')
      in if meth = ''GET'' \<or> is_head
         then
           let (r2, page) =
                 (if url h = ''/''
                  then (SetContentType ''text/html;charset=UTF-8'' (SetStatus 200 ''OK'' r1),
                        http_page ''taotu'' ''Hello</h1>Welcome to taotu!'')
                  else if url h = ''/hello''
                  then (SetContentType ''text/html;charset=UTF-8'' (SetStatus 200 ''OK'' r1),
                        http_page ''taotu'' ''Hello</h1>Hello, taotu!'')
                  else (SetContentType ''text/html;charset=UTF-8'' (SetStatus 404 ''Not Found'' r1),
                        http_page ''404'' ''Not Found</h1>''))
           in if is_head then SetIncludeBody False (SetBodyLength (length page) r2) else SetBody page r2
         else SetBody (http_page ''405'' ''Method Not Allowed</h1>'')
                (SetContentType ''text/html;charset=UTF-8'' (SetStatus 405 ''Method Not Allowed'' r1)))"

section \<open>What the parser collects\<close>

lemma callbacks_append: "http_callbacks (xs @ ys) h = res_bind (http_callbacks xs h) (http_callbacks ys)"
proof (induction xs arbitrary: h)
  case (Cons x xs)
  then have "http_callbacks (xs @ ys) = (\<lambda>h :: 'a http_parser. res_bind (http_callbacks xs h) (http_callbacks ys))" by (simp add: fun_eq_iff)
  then show ?case by (simp add: res_bind_assoc)
qed simp

lemma callbacks_url: "http_callbacks (map EvUrl us) h = Inr (h\<lparr>url := url h @ concat us\<rparr>)"
  by (induction us arbitrary: h) (simp_all add: OnUrl_def)

lemma callbacks_body: "http_callbacks (map EvBody us) h = Inr (h\<lparr>http_body := http_body h @ concat us\<rparr>)"
  by (induction us arbitrary: h) (simp_all add: OnBody_def)

lemma callbacks_headers:
  "http_callbacks (concat (map (\<lambda>(k, v). [EvHeaderField k, EvHeaderValue v]) hs)) h =
     Inr (h\<lparr>key_value_pairs := key_value_pairs h @ hs\<rparr>)"
  by (induction hs arbitrary: h) (auto simp: OnHeaderField_def OnHeaderValue_def)

lemma fold_assign: "fold (\<lambda>(k, v) m. m(k \<mapsto> v)) hs m = m ++ map_of (rev hs)"
  by (induction hs arbitrary: m) (auto simp: map_add_def fun_eq_iff split: option.splits)

text \<open>What llhttp reports for one whole request: the texts of the URL and of the body in pieces.\<close>

definition request_events ::
  "string list \<Rightarrow> (string \<times> string) list \<Rightarrow> llhttp_info \<Rightarrow> string list \<Rightarrow> int \<Rightarrow> http_event list" where
  "request_events us hs p bs now =
     EvMessageBegin now # map EvUrl us @ concat (map (\<lambda>(k, v). [EvHeaderField k, EvHeaderValue v]) hs) @
     [EvHeadersComplete p now] @ map EvBody bs @ [EvMessageComplete now]"

lemma http_request_parsed_all:
  assumes "execute (llhttp_state h) data = (request_events us hs p bs now, True, l)"
  shows "\<exists>h'. Parse_http execute data h = Inr (True, h') \<and> url h' = concat us \<and> http_body h' = concat bs \<and>
    http_method h' = method_name p \<and> GetVersionPair h' = (http_major p, http_minor p) \<and>
    (\<forall>k. GetHeader k h' = (case map_of (rev hs) k of Some v \<Rightarrow> Some v | None \<Rightarrow> GetHeader k (Reset t h)))"
proof -
  let ?h = "OnMessageComplete now (OnHeadersComplete p now ((OnMessageBegin now h)\<lparr>url := concat us, key_value_pairs := hs\<rparr>)\<lparr>http_body := concat bs\<rparr>)"
  have "http_callbacks (request_events us hs p bs now) h = Inr ?h"
    by (simp add: request_events_def callbacks_append callbacks_url callbacks_body callbacks_headers OnMessageBegin_def
        OnHeadersComplete_def OnMessageComplete_def)
  then show ?thesis
    by (simp add: Parse_http_def assms Let_def GetHeader_def GetVersionPair_def fold_assign map_add_def Reset_def
        OnMessageBegin_def OnHeadersComplete_def OnMessageComplete_def split: option.split)
qed

text \<open>
  C33. What a parser knows after a whole request, whatever it has parsed before: the URL and the body put together from
  their pieces, the method and the version, and every header of the request with its last value. A header that the request
  does not have keeps the value of an earlier request on the connection: it is never forgotten.
\<close>

theorem http_request_parsed:
  assumes "execute (llhttp_state h) data = (request_events us hs p bs now, True, l)"
  shows "\<exists>h'. Parse_http execute data h = Inr (True, h') \<and> url h' = concat us \<and> http_body h' = concat bs \<and>
    http_method h' = method_name p \<and> GetVersionPair h' = (http_major p, http_minor p) \<and>
    (\<forall>k. GetHeader k h' = (case map_of (rev hs) k of Some v \<Rightarrow> Some v | None \<Rightarrow> GetHeader k (Reset t h)))"
  using http_request_parsed_all [of execute h data us hs p bs now l t] assms by blast

text \<open>The second request on a connection has no header, the first one had asked to close it.\<close>

definition sample_parser :: "unit http_parser" where
  "sample_parser =
     \<lparr>major_version = 0, minor_version = 0, upgrade = 0, keep_alive = 0, start_parsing_time = 0, header_end_time = 0,
      message_end_time = 0, http_method = [], url = [], status_text = [], key_value_pairs = [], http_body = [],
      llhttp_state = (), parsed_fields = [''Connection'' \<mapsto> ''close'']\<rparr>"

definition sample_info :: llhttp_info where
  "sample_info = \<lparr>method_name = ''GET'', http_major = 1, http_minor = 1, http_upgrade = 0, should_keep_alive = 1\<rparr>"

theorem http_request_parsed_witness:
  "\<exists>h'. Parse_http (\<lambda>l data. (request_events [''/'', ''hello''] [] sample_info [] 5, True, l)) [] sample_parser = Inr (True, h') \<and>
     url h' = ''/hello'' \<and> GetHeader ''Connection'' h' = Some ''close''"
  using http_request_parsed [of "\<lambda>l data. (request_events [''/'', ''hello''] [] sample_info [] 5, True, l)" sample_parser "[]"
      "[''/'', ''hello'']" "[]" sample_info "[]" 5 "()" 6]
  by (auto simp: sample_parser_def GetHeader_def Reset_def)

section \<open>What the server answers\<close>

lemma OnRequest_send:
  assumes fits: "kReservedCapacity + length (response_text r) \<le> vector_max_size" and r: "r = f h (HttpResponse (closes_connection h))"
  shows "HttpServer_OnRequest env (Some f) h w =
    res_bind (Send env no_user (bytes (response_text r)) w) (\<lambda>w1. Inr (if should_close r then ShutDownWrite w1 else w1))"
proof -
  obtain b where b: "IoBuffer kInitialCapacity = Inr b" "io_buffer_ok b" "contents b = []" "reading_index b = kReservedCapacity"
    using IoBuffer_initial by blast
  obtain b1 where b1: "AppendToIoBuffer r b = Inr b1" "io_buffer_ok b1" "contents b1 = bytes (response_text r)"
    using AppendToIoBuffer_ok [OF b(2,4), of r] fits b(3) by auto
  have "mem_read (reading_index b1) (GetReadableBytes b1) (buffer b1) = Inr (contents b1)"
    using b1(2) by (simp add: mem_read_contents GetReadableBytes_contents)
  then show ?thesis
    by (simp add: HttpServer_OnRequest_def b(1) b1(1,3) Send_buffer_def res_bind_assoc Let_def r [symmetric])
qed

lemma OnRequest_sends:
  assumes fits: "kReservedCapacity + length (response_text r) \<le> vector_max_size" and r: "r = f h (HttpResponse (closes_connection h))"
    and w': "HttpServer_OnRequest env (Some f) h w = Inr w'"
  shows "\<exists>w1. Send env no_user (bytes (response_text r)) w = Inr w1 \<and> w' = (if should_close r then ShutDownWrite w1 else w1)"
  using w' OnRequest_send [of r f h, OF fits r, of env w] by (auto simp: res_bind_Inr_iff)

text \<open>
  C29. What the server does with the bytes of a read. When llhttp reports no error it sends exactly one response, the one
  of the callback for what the parser has collected so far, and shuts the connection down if the response says so; when there is
  an error it sends the status 400, shuts the connection down, and the response of the callback, which is called
  all the same, is dropped. The input is consumed and the parser reset. It is one response per read: a request that
  arrives in two reads is answered twice, two requests in one read are answered once.
\<close>

theorem http_message_answered:
  assumes w: "io_buffer_ok (input_buffer w)" "conn_state w = kConnected"
    and parse: "Parse_http execute (contents (input_buffer w)) h = Inr (ok, h1)"
    and r: "r = f h1 (HttpResponse (closes_connection h1))" "kReservedCapacity + length (response_text r) \<le> vector_max_size"
    and run: "HttpServer_OnMessage env execute now (Some f) (w, Some h) = Inr (w', h')"
  shows "accepted w' = accepted w @ bytes (if ok then response_text r else bad_request) \<and>
    conn_state w' = (if ok \<and> \<not> should_close r then kConnected else kDisconnecting) \<and>
    contents (input_buffer w') = [] \<and> h' = Some (Reset now h1)"
proof -
  let ?b = "Refresh (length (contents (input_buffer w))) (input_buffer w)"
  let ?w = "w\<lparr>input_buffer := ?b\<rparr>"
  have b: "contents ?b = []" using contents_Refresh [OF w(1)] by simp
  obtain w1 where w1: "(if \<not> ok then res_bind (Send env no_user (bytes bad_request) ?w) (\<lambda>w1. Inr (ShutDownWrite w1)) else Inr ?w) = Inr w1"
    "HttpServer_OnRequest env (Some f) h1 w1 = Inr w'" "h' = Some (Reset now h1)"
    using run parse RetrieveAllAsString_ok [OF w(1)] by (auto simp: HttpServer_OnMessage_def res_bind_Inr_iff Let_def)
  obtain w2 where w2: "Send env no_user (bytes (response_text r)) w1 = Inr w2" "w' = (if should_close r then ShutDownWrite w2 else w2)"
    using OnRequest_sends [OF r(2,1) w1(2)] by blast
  show ?thesis
  proof (cases ok)
    case True
    then have "w1 = ?w" using w1(1) by simp
    then show ?thesis
      using Send_connected [OF _ w2(1)] w(2) True b w1(3) by (simp add: w2(2) ShutDownWrite_keeps)
  next
    case False
    then obtain v where v: "Send env no_user (bytes bad_request) ?w = Inr v" "w1 = ShutDownWrite v"
      using w1(1) by (auto simp: res_bind_Inr_iff)
    have s: "accepted v = accepted w @ bytes bad_request" "input_buffer v = ?b" "conn_state v = kConnected"
      using Send_connected [OF _ v(1)] w(2) by simp_all
    have "conn_state w1 = kDisconnecting" using v(2) s(3) by (simp add: ShutDownWrite_keeps)
    then have "w' = w1" using w2 by (auto simp: Send_disconnecting ShutDownWrite_keeps)
    then show ?thesis using False s v(2) b w1(3) by (simp add: ShutDownWrite_keeps)
  qed
qed

lemma short_response: "length (response_text (HttpResponse c)) \<le> 128"
  by (auto simp: response_text_def status_line_def connection_lines_def snprintf_def HttpResponse_def crlf_def min_def)

theorem http_message_answered_witness:
  "\<exists>w' h'. HttpServer_OnMessage sample_env (\<lambda>l data. (request_events [''/''] [] sample_info [] 5, True, l)) 6 (Some (\<lambda>h r. r))
      (sample_conn, Some (HttpParser () sample_parser)) = Inr (w', h') \<and>
     accepted w' = bytes (response_text (HttpResponse False)) \<and> conn_state w' = kConnected"
proof -
  let ?e = "\<lambda>(l :: unit) (data :: byte list). (request_events [''/''] [] sample_info [] 5, True, l)"
  let ?p = "HttpParser () sample_parser" and ?n = "response_text (HttpResponse False)"
  let ?b = "Refresh (length (contents (input_buffer sample_conn))) (input_buffer sample_conn)"
  have ok: "conn_ok {} sample_conn"
    using connection_user.conn_reach_inv [OF echo_user_ok sample_reachable] sample_few_calls by (simp add: run_inv_def)
  note i = conn_okD(5) [OF ok]
  obtain h1 where h1: "Parse_http ?e (contents (input_buffer sample_conn)) ?p = Inr (True, h1)" "GetHeader ''Connection'' h1 = None"
    "GetVersionPair h1 = (1, 1)"
    using http_request_parsed_all [of ?e ?p "contents (input_buffer sample_conn)" "[''/'']" "[]" sample_info "[]" 5 "()" 6]
    by (auto simp: HttpParser_def GetHeader_def Reset_def sample_info_def)
  have c: "\<not> closes_connection h1" by (simp add: closes_connection_def h1(2,3))
  have fits: "kReservedCapacity + length ?n \<le> vector_max_size"
    using short_response [of False] by (simp add: kReservedCapacity_def vector_max_size_def)
  obtain o' where "Append (bytes ?n) (output_buffer sample_conn) = Inr o'"
    using Append_fits [OF conn_okD(6) [OF ok], of "bytes ?n"] short_response [of False] by (auto simp: sample_conn_fields writable_def)
  then obtain w1 where w1: "Send sample_env no_user (bytes ?n) (sample_conn\<lparr>input_buffer := ?b\<rparr>) = Inr w1"
    by (simp add: Send_def high_water_no_user sample_conn_fields)
  have "HttpServer_OnRequest sample_env (Some (\<lambda>h r. r)) h1 (sample_conn\<lparr>input_buffer := ?b\<rparr>) = Inr w1"
    using OnRequest_send [of "HttpResponse False" "\<lambda>h r. r" h1, OF fits] w1 c by (simp add: HttpResponse_def)
  then have run: "HttpServer_OnMessage sample_env ?e 6 (Some (\<lambda>h r. r)) (sample_conn, Some ?p) = Inr (w1, Some (Reset 6 h1))"
    using h1(1) RetrieveAllAsString_ok [OF i] by (simp add: HttpServer_OnMessage_def Let_def)
  from http_message_answered [OF i _ h1(1) refl _ run] fits c show ?thesis
    using run by (auto simp: sample_conn_fields HttpResponse_def)
qed

end
