(* ===== verification/Spec2Isabelle.thy ===== *)
theory Spec2Isabelle
  imports Time_Server Pingpong_Client Chat_Room Loop_Safety Load_Balancer Log_Safety Memory_Pool Task_Pool Tcp_Connector Tcp_Acceptor Rpc_Sync Server_Reactor Client_Reactor Http_Server
begin

text \<open>
  A verification library for taotu, a C++ network library on io_uring with reactors, an RPC layer, a logger, pools, and
  example servers.

  \<^bold>\<open>The program and how its parts interact.\<close>

  A server (\<^verbatim>\<open>src/src/server.cc\<close>) has an acceptor in its main thread and event managers, one per
  I/O thread (\<^verbatim>\<open>src/src/reactor_manager.cc\<close>). The acceptor keeps an accept operation in the ring
  of its poller. A connection that is accepted is given by the balancer to an event manager, as a time task; the task
  inserts the connection into the map of that event manager and establishes it. From then on the connection keeps one
  read in the ring and at most one write; completions come back through the poller, which calls the completion function
  that was recorded with the operation, and that function calls the callbacks of the user. A connection that is closed
  registers its descriptor with the event manager, which destroys it at the end of a round once no I/O is pending. A
  client has a connector instead of the acceptor, and one connection. The codecs cut the input buffer of a connection
  into frames; the RPC channels and the chat room work on these. Every part logs through one logger, whose ring is
  shared by all the threads.

  \<^bold>\<open>How the code is modelled.\<close>

  Objects are records and operations are functions on them, with the source's names; a name that is taken in HOL or used
  twice carries a suffix or the name of its class. An operation that can end in undefined behaviour or in an exception
  returns \<open>'a res\<close>: \<open>Inl\<close> with the reason (\<open>cpp_error\<close>), or \<open>Inr\<close>
  with the result. Memory is explicit where it matters: the bytes of a buffer are a block with bounds, contexts and
  messages that are allocated with \<open>new\<close> live on a heap, so that an overrun, a use after
  \<open>delete\<close> and a second \<open>delete\<close> are errors of the model and their absence is a theorem.
  \<open>size_t\<close> is a natural number with the wrap-around written out (\<open>size_add\<close>,
  \<open>size_sub\<close>), operation keys and integers on the wire are words. Threads are step relations at the grain
  of atomic operations (logger, spin lock, thread pool) or of whole operations under a lock (reactors). Some records
  have history fields, such as the bytes that \<open>Send\<close> has taken; the code of the model never reads them, the
  theorems are stated over them.

  Code outside the repository is an argument: liburing and the kernel (entries of the ring, results of system calls,
  completions with what they deliver), the clock, zlib's checksum, Protocol Buffers (parsing, serialising, services),
  llhttp (what it reports for the bytes it gets), and what malloc returns. What the theorems need of them is a
  hypothesis, such as that parsing inverts serialising.

  \<^bold>\<open>The theories.\<close>
  \<^item> \<open>Taotu_Prelude\<close>, \<open>Errno\<close>: results, \<open>size_t\<close>, blocks of bytes, images
    of integers, error numbers, and the collections of simplification rules.
  \<^item> \<open>Io_Buffer\<close> (\<^verbatim>\<open>src/src/io_buffer.h\<close>,
    \<^verbatim>\<open>src/src/io_buffer.cc\<close>): every operation on the block. Every reachable buffer is well-formed,
    \<open>Append\<close> and the reads have exactly the stated outcomes, overruns included; on well-formed buffers the
    operations act on the readable bytes like list operations.
  \<^item> \<open>Framing\<close>: the loop that the codecs share, on byte strings, and the contract of a reader of one
    frame (locale \<open>framing\<close>): whatever is encoded and cut into deliveries in any way is read back.
    \<open>Rpc_Codec\<close> (\<^verbatim>\<open>src/src/rpc_codec.h\<close>,
    \<^verbatim>\<open>src/src/rpc_codec.cc\<close>) and \<open>Chat_Codec\<close>
    (\<^verbatim>\<open>src/example/chat_room/message_codec.cc\<close>) interpret it; their buffer loops refine it.
  \<^item> \<open>Rpc_Channel\<close>, \<open>Rpc_Call\<close>, \<open>Rpc_Sync\<close>
    (\<^verbatim>\<open>src/src/rpc_channel.h\<close>, \<^verbatim>\<open>src/src/rpc_channel.cc\<close>,
    \<^verbatim>\<open>src/src/rpc_server.cc\<close>, \<^verbatim>\<open>src/src/rpc.proto\<close>): the channels are safe
    for every message that arrives, a sequence of calls over the bytes of the codec acts like calling the methods, and
    what a blocking call does with the message it reads.
  \<^item> \<open>Time_Tasks\<close> (\<^verbatim>\<open>src/src/time_point.h\<close>,
    \<^verbatim>\<open>src/src/time_point.cc\<close>, \<^verbatim>\<open>src/src/timer.h\<close>,
    \<^verbatim>\<open>src/src/timer.cc\<close>): time points as a preorder, the timer as a queue of tasks (locale
    \<open>task_queue\<close>): none lost, none twice, due ones in order; bounds on the wait.
  \<^item> \<open>Load_Balancer\<close> (\<^verbatim>\<open>src/src/balancer.h\<close>,
    \<^verbatim>\<open>src/src/balancer.cc\<close>): both strategies, and the distribution of the round robin.
  \<^item> \<open>Io_Poller\<close> (\<^verbatim>\<open>src/src/poller.h\<close>,
    \<^verbatim>\<open>src/src/poller.cc\<close>): operations, submission and the dispatch of completions.
    \<open>Poller_Safety\<close>: over every history an outstanding operation keeps its record and context until it
    completes, and an eventer that waits has its poll in the ring; completion functions are any that keep to a stated
    contract.
  \<^item> \<open>Poll_Eventer\<close> (\<^verbatim>\<open>src/src/eventer.h\<close>,
    \<^verbatim>\<open>src/src/eventer.cc\<close>): masks, callbacks and the registration with the poller.
    \<open>Op_Ownership\<close>: which operation owns which context, shared by connections and acceptors.
  \<^item> \<open>Tcp_Connection\<close> (\<^verbatim>\<open>src/src/connecting.h\<close>,
    \<^verbatim>\<open>src/src/connecting.cc\<close>): the connection. \<open>Connection_Safety\<close>,
    \<open>Connection_Stream\<close> and \<open>Connection_Run\<close> prove its invariant for every operation and
    completion, for users that keep to the locale \<open>connection_user\<close>; \<open>Connection_Theorems\<close> has
    the results: memory safety, the order of the output, what a read delivers, and that the connection keeps to the
    contract of the poller.
  \<^item> \<open>Servers\<close> (\<^verbatim>\<open>src/src/server.cc\<close>,
    \<^verbatim>\<open>src/example/simple_echo/echo.cc\<close>,
    \<^verbatim>\<open>src/example/simple_discard/discard.cc\<close>,
    \<^verbatim>\<open>src/example/pingpong/pingpong_server.cc\<close>): the defaults and the callbacks of the examples,
    each an interpretation of \<open>connection_user\<close>, and the ownership of the event managers.
  \<^item> \<open>Event_Loop\<close> (\<^verbatim>\<open>src/src/event_manager.h\<close>,
    \<^verbatim>\<open>src/src/event_manager.cc\<close>): time tasks, the map of connections, closing, the loop and its
    end. \<open>Loop_Safety\<close>: closed connections are destroyed exactly once, the loop ends with none left (locale
    \<open>closing_user\<close> for the callbacks), periodic tasks are renewed, a first task wakes the loop up.
  \<^item> \<open>Net_Address\<close> (\<^verbatim>\<open>src/src/net_address.h\<close>,
    \<^verbatim>\<open>src/src/net_address.cc\<close>, \<^verbatim>\<open>src/src/socketer.h\<close>,
    \<^verbatim>\<open>src/src/socketer.cc\<close>), \<open>Tcp_Connector\<close>
    (\<^verbatim>\<open>src/src/connector.h\<close>, \<^verbatim>\<open>src/src/connector.cc\<close>),
    \<open>Tcp_Acceptor\<close> (\<^verbatim>\<open>src/src/acceptor.h\<close>,
    \<^verbatim>\<open>src/src/acceptor.cc\<close>): bytes of addresses, the state machine with its retries and what
    becomes of every descriptor, the accept operation and its contexts.
  \<^item> \<open>Server_Reactor\<close>, \<open>Client_Reactor\<close>
    (\<^verbatim>\<open>src/src/reactor_manager.h\<close>, \<^verbatim>\<open>src/src/reactor_manager.cc\<close>,
    \<^verbatim>\<open>src/src/client.cc\<close>): the parts put together. Every accepted connection is served by the
    event manager whose turn it is, and the tasks that end a client never use a connection that is gone.
  \<^item> \<open>Log_Ring\<close>, \<open>Log_Safety\<close> (\<^verbatim>\<open>src/src/logger.h\<close>,
    \<^verbatim>\<open>src/src/logger.cc\<close>): the ring under every interleaving, the sleeping writer, and how the end
    can hang.
  \<^item> \<open>Memory_Pool\<close> (\<^verbatim>\<open>src/src/memory_pool.h\<close>,
    \<^verbatim>\<open>src/src/object_pool.h\<close>, locale \<open>block_allocator\<close>) and \<open>Task_Pool\<close>
    (\<^verbatim>\<open>src/src/spin_lock.h\<close>, \<^verbatim>\<open>src/src/thread_pool.h\<close>,
    \<^verbatim>\<open>src/src/thread_pool.cc\<close>, locale \<open>fifo_queue\<close>).
  \<^item> \<open>Http_Message\<close>, \<open>Http_Server\<close> (\<^verbatim>\<open>src/example/http_server\<close>)
    and \<open>Chat_Room\<close> (\<^verbatim>\<open>src/example/chat_room\<close>): the examples with state of their own.
    Responses can be told apart by a client, what a request leaves in the parser, one response per read; a message reaches
    every other member once and in order.
  \<^item> \<open>Texts\<close>, \<open>Time_Server\<close> (\<^verbatim>\<open>src/example/simple_time/time.cc\<close>)
    and \<open>Pingpong_Client\<close> (\<^verbatim>\<open>src/example/pingpong/pingpong_client.cc\<close>): the date in
    the answer is right, and a session sends back what it receives until the client quits.

  \<^bold>\<open>Bounds and fuel.\<close>

  Loops that consume a buffer, a list or a counter are total functions. The loops of the event manager run for the
  rounds that are supplied and give \<open>None\<close> while they still run; that 1,001 rounds are enough for the
  second one is a theorem, from the 1,000 tries that a connection with pending I/O has
  (\<open>kMaxPendingIoRetries\<close>). The walk of the destructor of the memory pool has fuel, and as much fuel as
  there are chunks is enough. \<open>few_calls\<close> bounds the entries taken from a ring by \<open>2 ^ 62\<close>, so
  that the 64-bit keys do not wrap around. \<open>vector_max_size\<close> is what a \<open>std::vector<char>\<close>
  allows, and \<open>int_max\<close> bounds a buffer that the chat codec reads, since the code narrows its length to 32
  bits. The indexes of the logger's ring are not wrapped at \<open>2 ^ 64\<close>.

  \<^bold>\<open>Not modelled.\<close>
  \<^item> Logging calls and printing inside other parts: they have no effect on the state of these parts. The
    formatting of printf-style arguments by the logger.
  \<^item> Weak memory: atomic operations are sequentially consistent. Locks are modelled where they are the subject;
    elsewhere an operation under a lock is one step.
  \<^item> In the composition of reactors, connections are values and do not come from the object pool, and each has a
    poller of its own; threads are started by \<open>Loop\<close>, \<open>Work\<close> and \<open>Join\<close> of the
    event manager only as far as which loops run.
  \<^item> The context of a connection (a \<open>std::any\<close> that it only stores) is part of the HTTP server that
    uses it. The template \<open>RpcCodecT\<close> of \<^verbatim>\<open>src/src/rpc_codec.h\<close> only casts,
    \<^verbatim>\<open>src/src/non_copyable_movable.h\<close> only deletes constructors.
  \<^item> The time service (\<^verbatim>\<open>src/example/rpc_demo/time_service\<close>), which rests on generated
    code; the main programs, which read the command line and start the modelled objects; the tests and the build files.
\<close>

end
